(* ===== verification/Go_Prelude.thy ===== *)
theory Go_Prelude
  imports "HOL-Library.Word" "HOL-Library.AList" "HOL-Library.Monad_Syntax"
begin

text \<open>
  Shared vocabulary of the development: the fixed-width integers, byte slices and strings of Go,
  the helpers of Go's standard library the sources call (\<open>strings.Split\<close>, \<open>strings.Join\<close>,
  \<open>strings.TrimSpace\<close>, \<open>strconv\<close>, \<open>encoding/binary\<close>), association lists standing for Go maps that
  are iterated, and the collections of rewrite rules the component theories add to.
  A Go \<open>string\<close> is a byte sequence: HOL's \<open>string\<close> is a list of 8-bit characters.
\<close>

unbundle bit_operations_syntax

named_theorems go_defs \<open>definitions of small Go operations, unfolded by component proofs\<close>
named_theorems go_inv \<open>preservation facts of component invariants\<close>

type_synonym byte = "8 word"
type_synonym u32 = "32 word"
type_synonym u64 = "64 word"
type_synonym i64 = "64 word"
type_synonym ('k, 'v) gomap = "('k \<times> 'v) list"

abbreviation mkeys :: "('k, 'v) gomap \<Rightarrow> 'k set" where
  "mkeys m \<equiv> fst ` set m"

section \<open>Splitting and joining strings\<close>

text \<open>\<open>strings.Split(s, sep)\<close> and \<open>strings.Join(parts, sep)\<close> for a one-byte separator.\<close>

fun split_on :: "'a \<Rightarrow> 'a list \<Rightarrow> 'a list list" where
  "split_on c [] = [[]]"
| "split_on c (x # xs) =
     (if x = c then [] # split_on c xs
      else (case split_on c xs of [] \<Rightarrow> [[x]] | p # ps \<Rightarrow> (x # p) # ps))"

fun join_with :: "'a \<Rightarrow> 'a list list \<Rightarrow> 'a list" where
  "join_with c [] = []"
| "join_with c [p] = p"
| "join_with c (p # q # ps) = p @ c # join_with c (q # ps)"

lemma split_on_not_Nil [simp]: "split_on c s \<noteq> []"
  by (cases s) (auto split: list.splits)

lemma split_on_plain: "c \<notin> set p \<Longrightarrow> split_on c p = [p]"
  by (induction p) auto

lemma split_on_append_sep: "c \<notin> set p \<Longrightarrow> split_on c (p @ c # s) = p # split_on c s"
  by (induction p) auto

lemma split_on_join:
  "ps \<noteq> [] \<Longrightarrow> \<forall>p \<in> set ps. c \<notin> set p \<Longrightarrow> split_on c (join_with c ps) = ps"
  by (induction c ps rule: join_with.induct) (auto simp: split_on_plain split_on_append_sep)

lemma join_with_Cons: "ps \<noteq> [] \<Longrightarrow> join_with c (p # ps) = p @ c # join_with c ps"
  by (cases ps) auto

lemma join_split_on [simp]: "join_with c (split_on c s) = s"
proof (induction s)
  case Nil
  then show ?case by simp
next
  case (Cons x s)
  show ?case
  proof (cases "x = c")
    case True
    with Cons show ?thesis by (simp add: join_with_Cons)
  next
    case False
    obtain p ps where eq: "split_on c s = p # ps"
      by (cases "split_on c s") auto
    with False Cons show ?thesis by (cases ps) auto
  qed
qed

lemma split_on_parts: "p \<in> set (split_on c s) \<Longrightarrow> c \<notin> set p"
  by (induction s arbitrary: p) (auto split: if_splits list.splits)

lemma length_split_on: "length (split_on c s) = Suc (count_list s c)"
  by (induction s) (auto split: list.splits)

text \<open>\<open>strings.TrimSpace(s) == ""\<close> on the ASCII white space characters.\<close>

definition is_space :: "char \<Rightarrow> bool" where
  "is_space c \<longleftrightarrow> of_char c \<in> {9, 10, 11, 12, 13, 32 :: nat}"

definition trim_is_empty :: "string \<Rightarrow> bool" where
  "trim_is_empty s \<longleftrightarrow> list_all is_space s"

lemma trim_is_empty_Nil [simp]: "trim_is_empty []"
  by (simp add: trim_is_empty_def)

section \<open>Association lists as Go maps\<close>

lemma map_of_update_same [simp]: "map_of (AList.update k v m) k = Some v"
  by (simp add: AList.update_conv')

lemma map_of_update_other [simp]: "k \<noteq> k' \<Longrightarrow> map_of (AList.update k v m) k' = map_of m k'"
  by (simp add: AList.update_conv')

lemma map_of_delete_same [simp]: "map_of (AList.delete k m) k = None"
  by (simp add: AList.delete_conv')

lemma map_of_delete_other [simp]: "k \<noteq> k' \<Longrightarrow> map_of (AList.delete k m) k' = map_of m k'"
  by (simp add: AList.delete_conv')

lemma mkeys_update [simp]: "mkeys (AList.update k v m) = insert k (mkeys m)"
  by (induction m) auto

lemma mkeys_delete [simp]: "mkeys (AList.delete k m) = mkeys m - {k}"
  by (auto simp: AList.delete_eq)

lemma distinct_keys_update: "distinct (map fst m) \<Longrightarrow> distinct (map fst (AList.update k v m))"
  by (rule AList.distinct_update)

lemma distinct_keys_delete: "distinct (map fst m) \<Longrightarrow> distinct (map fst (AList.delete k m))"
  by (rule AList.distinct_delete)

lemma map_of_None_keys: "map_of m k = None \<longleftrightarrow> k \<notin> mkeys m"
  by (rule map_of_eq_None_iff)

lemma length_update_new: "k \<notin> mkeys m \<Longrightarrow> length (AList.update k v m) = Suc (length m)"
  by (induction m) auto

lemma length_update_old: "k \<in> mkeys m \<Longrightarrow> length (AList.update k v m) = length m"
  by (induction m) auto

lemma length_delete_le: "length (AList.delete k m) \<le> length m"
  by (simp add: AList.delete_eq)

lemma map_of_map_values: "map_of (map (\<lambda>(k, v). (k, f v)) m) k = map_option f (map_of m k)"
  by (induction m) auto

section \<open>Machine integers\<close>

text \<open>
  \<open>binary.BigEndian.PutUint32\<close> and \<open>binary.BigEndian.Uint32\<close>, and their 64-bit counterparts, written
  with the shifts of the Go library.
\<close>

definition put_uint32 :: "u32 \<Rightarrow> byte list" where
  "put_uint32 v = [ucast (drop_bit 24 v), ucast (drop_bit 16 v), ucast (drop_bit 8 v), ucast v]"

fun get_uint32 :: "byte list \<Rightarrow> u32" where
  "get_uint32 [a, b, c, d] =
     (ucast d OR push_bit 8 (ucast c) OR push_bit 16 (ucast b) OR push_bit 24 (ucast a))"
| "get_uint32 _ = 0"

lemma length_put_uint32 [simp]: "length (put_uint32 v) = 4"
  by (simp add: put_uint32_def)

lemma get_put_uint32 [simp]: "get_uint32 (put_uint32 v) = v"
  unfolding put_uint32_def get_uint32.simps
proof (rule bit_word_eqI)
  fix n assume n: "n < LENGTH(32)"
  then consider "n < 8" | "8 \<le> n" "n < 16" | "16 \<le> n" "n < 24" | "24 \<le> n" "n < 32"
    by fastforce
  then show "bit (ucast (ucast v :: byte) OR push_bit 8 (ucast (ucast (drop_bit 8 v) :: byte)) OR
        push_bit 16 (ucast (ucast (drop_bit 16 v) :: byte)) OR
        push_bit 24 (ucast (ucast (drop_bit 24 v) :: byte)) :: u32) n = bit v n"
    by cases (auto simp: bit_or_iff bit_push_bit_iff bit_unsigned_iff bit_drop_bit_eq)
qed

end
