(* ===== verification/Mpsc_Queue.thy ===== *)
theory Mpsc_Queue
  imports Go_Prelude "HOL-Library.Multiset"
begin

text \<open>
  The multi-producer single-consumer queue of \<open>src/net/actor/queue.go\<close> (and, without the counter and
  the wake-up channel, of \<open>src/extend/queue/queue.go\<close>), on an explicit heap of nodes. The atomic
  instructions of \<open>Push\<close> (the swap of \<open>head\<close>, the store into \<open>prev.next\<close>, the counter update, the
  non-blocking send) and of the consumer are separate steps, so that producers interleave freely.
  Everything \<open>Push\<close> does to its private node before the swap, and everything \<open>Pop\<close> does after it has
  read \<open>tail.next\<close>, touches memory no other goroutine reads and belongs to the neighbouring step.
  The counter is an unbounded integer here, the code's \<open>int32\<close> as long as fewer than \<open>2^31\<close> values
  are queued.
\<close>

section \<open>The queue on the heap\<close>

record 'a mq =
  q_next :: "nat \<Rightarrow> nat option"
  q_val :: "nat \<Rightarrow> 'a option"
  q_head :: nat
  q_tail :: nat
  q_pool :: "nat list"
  q_fresh :: nat
  q_C :: "int option"
  q_count :: int

text \<open>\<open>newQueue\<close>: a stub node, an empty channel of capacity one, a zero counter.\<close>

definition newQueue :: "'a mq" where
  "newQueue = \<lparr>q_next = (\<lambda>_. None), q_val = (\<lambda>_. None), q_head = 0, q_tail = 0, q_pool = [],
     q_fresh = 1, q_C = None, q_count = 0\<rparr>"

text \<open>
  \<open>queueNodePool.Get()\<close> answers a recycled node or a new one. The pool is shared by all queues of the
  process; a node another queue recycled is, for this queue, a new one.
\<close>

definition q_get :: "nat \<Rightarrow> 'a mq \<Rightarrow> bool" where
  "q_get a q \<longleftrightarrow> a \<in> set (q_pool q) \<or> a = q_fresh q"

definition q_swap :: "'a \<Rightarrow> nat \<Rightarrow> 'a mq \<Rightarrow> 'a mq" where
  "q_swap v a q = q\<lparr>q_val := (q_val q)(a \<mapsto> v), q_next := (q_next q)(a := None), q_head := a,
     q_pool := removeAll a (q_pool q), q_fresh := (if a = q_fresh q then Suc a else q_fresh q)\<rparr>"

definition q_link :: "nat \<Rightarrow> nat \<Rightarrow> 'a mq \<Rightarrow> 'a mq" where
  "q_link prev a q = q\<lparr>q_next := (q_next q)(prev \<mapsto> a)\<rparr>"

text \<open>\<open>_setCount\<close>: the atomic addition, then a send that is skipped when the channel is full.\<close>

definition q_add :: "int \<Rightarrow> 'a mq \<Rightarrow> 'a mq" where
  "q_add delta q = q\<lparr>q_count := q_count q + delta\<rparr>"

definition q_send :: "int \<Rightarrow> 'a mq \<Rightarrow> 'a mq" where
  "q_send c q = (if c > 0 \<and> q_C q = None then q\<lparr>q_C := Some c\<rparr> else q)"

definition q_setCount :: "int \<Rightarrow> 'a mq \<Rightarrow> 'a mq" where
  "q_setCount delta q = (let q' = q_add delta q in q_send (q_count q') q')"

text \<open>The part of \<open>Pop\<close> after \<open>next\<close> was read as non-nil.\<close>

definition q_take :: "nat \<Rightarrow> 'a mq \<Rightarrow> 'a mq" where
  "q_take n q = q\<lparr>q_tail := n, q_val := (q_val q)(n := None),
     q_next := (q_next q)(q_tail q := None), q_pool := q_tail q # q_pool q\<rparr>"

definition q_Push :: "'a \<Rightarrow> 'a mq \<Rightarrow> 'a mq" where
  "q_Push v q =
     (let a = (case q_pool q of [] \<Rightarrow> q_fresh q | n # _ \<Rightarrow> n) in
      q_setCount 1 (q_link (q_head q) a (q_swap v a q)))"

definition q_Pop :: "'a mq \<Rightarrow> 'a option \<times> 'a mq" where
  "q_Pop q =
     (case q_next q (q_tail q) of
        None \<Rightarrow> (None, q)
      | Some n \<Rightarrow> (q_val q n, q_setCount (- 1) (q_take n q)))"

definition q_Empty :: "'a mq \<Rightarrow> bool" where
  "q_Empty q \<longleftrightarrow> q_next q (q_tail q) = None"

definition q_Count :: "'a mq \<Rightarrow> int" where
  "q_Count q = q_count q"

section \<open>Chains of nodes\<close>

text \<open>
  \<open>edges_ok nx x ys\<close>: the nodes \<open>x # ys\<close> follow each other, where an edge may still be missing
  (its producer has swapped the head but not stored the link); \<open>pend_edges\<close> lists the missing ones.
\<close>

fun edges_ok :: "(nat \<Rightarrow> nat option) \<Rightarrow> nat \<Rightarrow> nat list \<Rightarrow> bool" where
  "edges_ok nx x [] = (nx x = None)"
| "edges_ok nx x (y # ys) = ((nx x = None \<or> nx x = Some y) \<and> edges_ok nx y ys)"

fun pend_edges :: "(nat \<Rightarrow> nat option) \<Rightarrow> nat \<Rightarrow> nat list \<Rightarrow> (nat \<times> nat) list" where
  "pend_edges nx x [] = []"
| "pend_edges nx x (y # ys) = (if nx x = None then [(x, y)] else []) @ pend_edges nx y ys"

lemma edges_ok_upd_out: "z \<notin> set (x # ys) \<Longrightarrow> edges_ok (nx(z := v)) x ys = edges_ok nx x ys"
  by (induction nx x ys rule: edges_ok.induct) auto

lemma pend_edges_upd_out: "z \<notin> set (x # ys) \<Longrightarrow> pend_edges (nx(z := v)) x ys = pend_edges nx x ys"
  by (induction nx x ys rule: pend_edges.induct) auto

lemma edges_ok_last: "edges_ok nx x ys \<Longrightarrow> nx (last (x # ys)) = None"
  by (induction nx x ys rule: edges_ok.induct) auto

lemma edges_ok_snoc:
  "edges_ok nx x ys \<Longrightarrow> nx a = None \<Longrightarrow> a \<notin> set (x # ys) \<Longrightarrow> edges_ok nx x (ys @ [a])"
  by (induction nx x ys rule: edges_ok.induct) auto

lemma pend_edges_snoc:
  "edges_ok nx x ys \<Longrightarrow> pend_edges nx x (ys @ [a]) = pend_edges nx x ys @ [(last (x # ys), a)]"
  by (induction nx x ys rule: edges_ok.induct) auto

lemma pend_edges_fst: "(u, w) \<in> set (pend_edges nx x ys) \<Longrightarrow> u \<in> set (x # ys) \<and> w \<in> set ys"
  by (induction nx x ys rule: pend_edges.induct) (auto split: if_splits)

lemma link_edge:
  assumes "distinct (x # ys)" "(u, w) \<in> set (pend_edges nx x ys)" "edges_ok nx x ys"
  shows "edges_ok (nx(u \<mapsto> w)) x ys \<and>
    mset (pend_edges (nx(u \<mapsto> w)) x ys) = mset (pend_edges nx x ys) - {#(u, w)#}"
  using assms
proof (induction nx x ys rule: pend_edges.induct)
  case (2 nx x y ys)
  show ?case
  proof (cases "u = x")
    case True
    with "2.prems" have "(u, w) \<notin> set (pend_edges nx y ys)"
      by (auto dest: pend_edges_fst)
    with "2.prems" True have w: "w = y" and nx: "nx x = None" by (auto split: if_splits)
    have "edges_ok (nx(x \<mapsto> y)) y ys = edges_ok nx y ys"
      "pend_edges (nx(x \<mapsto> y)) y ys = pend_edges nx y ys"
      using "2.prems"(1) by (intro edges_ok_upd_out pend_edges_upd_out; simp)+
    with "2.prems" True w nx show ?thesis by (simp add: fun_upd_def)
  next
    case False
    with "2.prems" have "(u, w) \<in> set (pend_edges nx y ys)" by (auto split: if_splits)
    with "2.IH" "2.prems" False show ?thesis by auto
  qed
qed simp

text \<open>With no missing edge the chain is what following \<open>next\<close> from the tail visits.\<close>

lemma edges_ok_next:
  "edges_ok nx x (y # ys) \<Longrightarrow> nx x = Some n \<Longrightarrow> n = y \<and> edges_ok nx y ys"
  by auto

section \<open>Interleaved producers and one consumer\<close>

text \<open>
  Pushes in flight: those between swap and link (\<open>m_swapped\<close>: the pair of previous and new node),
  those between link and counter update (a number), those between counter update and send (the value
  read). The consumer waits on the channel, has received a token, has popped a value, or is about to
  send. \<open>m_pushed\<close> and \<open>m_popped\<close> are history variables: the values in the order of the swaps, and
  in the order of the pops.
\<close>

datatype 'a cons = CWait | CAwake | CPopped 'a | CSend int

record 'a msys =
  m_q :: "'a mq"
  m_swapped :: "(nat \<times> nat) list"
  m_linked :: nat
  m_sends :: "int list"
  m_cons :: "'a cons"
  m_pushed :: "'a list"
  m_popped :: "'a list"

definition msys_init :: "'a msys" where
  "msys_init = \<lparr>m_q = newQueue, m_swapped = [], m_linked = 0, m_sends = [], m_cons = CWait,
     m_pushed = [], m_popped = []\<rparr>"

inductive mstep :: "'a msys \<Rightarrow> 'a msys \<Rightarrow> bool" where
  push_swap: "q_get a (m_q s) \<Longrightarrow>
     mstep s (s\<lparr>m_q := q_swap v a (m_q s), m_swapped := (q_head (m_q s), a) # m_swapped s,
               m_pushed := m_pushed s @ [v]\<rparr>)"
| push_link: "(prev, a) \<in> set (m_swapped s) \<Longrightarrow>
     mstep s (s\<lparr>m_q := q_link prev a (m_q s), m_swapped := remove1 (prev, a) (m_swapped s),
               m_linked := Suc (m_linked s)\<rparr>)"
| push_count: "m_linked s = Suc k \<Longrightarrow>
     mstep s (s\<lparr>m_q := q_add 1 (m_q s), m_linked := k,
               m_sends := (q_count (m_q s) + 1) # m_sends s\<rparr>)"
| push_send: "c \<in> set (m_sends s) \<Longrightarrow>
     mstep s (s\<lparr>m_q := q_send c (m_q s), m_sends := remove1 c (m_sends s)\<rparr>)"
| cons_wake: "m_cons s = CWait \<Longrightarrow> q_C (m_q s) \<noteq> None \<Longrightarrow>
     mstep s (s\<lparr>m_q := (m_q s)\<lparr>q_C := None\<rparr>, m_cons := CAwake\<rparr>)"
| pop_nil: "m_cons s = CAwake \<Longrightarrow> q_next (m_q s) (q_tail (m_q s)) = None \<Longrightarrow>
     mstep s (s\<lparr>m_cons := CWait\<rparr>)"
| pop_some: "m_cons s = CAwake \<Longrightarrow> q_next (m_q s) (q_tail (m_q s)) = Some n \<Longrightarrow>
     q_val (m_q s) n = Some v \<Longrightarrow>
     mstep s (s\<lparr>m_q := q_take n (m_q s), m_cons := CPopped v, m_popped := m_popped s @ [v]\<rparr>)"
| pop_count: "m_cons s = CPopped v \<Longrightarrow>
     mstep s (s\<lparr>m_q := q_add (- 1) (m_q s), m_cons := CSend (q_count (m_q s) - 1)\<rparr>)"
| pop_send: "m_cons s = CSend c \<Longrightarrow>
     mstep s (s\<lparr>m_q := q_send c (m_q s), m_cons := CWait\<rparr>)"

inductive mreach :: "'a msys \<Rightarrow> bool" where
  init: "mreach msys_init"
| step: "mreach s \<Longrightarrow> mstep s t \<Longrightarrow> mreach t"

section \<open>Invariant\<close>

definition chain_inv :: "'a msys \<Rightarrow> nat list \<Rightarrow> bool" where
  "chain_inv s ns \<longleftrightarrow>
     edges_ok (q_next (m_q s)) (q_tail (m_q s)) ns \<and>
     mset (m_swapped s) = mset (pend_edges (q_next (m_q s)) (q_tail (m_q s)) ns) \<and>
     distinct (q_tail (m_q s) # ns) \<and> last (q_tail (m_q s) # ns) = q_head (m_q s) \<and>
     set (q_pool (m_q s)) \<inter> set (q_tail (m_q s) # ns) = {} \<and>
     (\<forall>n \<in> set (q_pool (m_q s)) \<union> set (q_tail (m_q s) # ns). n < q_fresh (m_q s))"

definition value_inv :: "'a msys \<Rightarrow> nat list \<Rightarrow> bool" where
  "value_inv s ns \<longleftrightarrow>
     (\<exists>vs. map (q_val (m_q s)) ns = map Some vs \<and> m_pushed s = m_popped s @ vs)"

definition count_inv :: "'a msys \<Rightarrow> nat list \<Rightarrow> bool" where
  "count_inv s ns \<longleftrightarrow>
     q_count (m_q s) + int (length (m_swapped s)) + int (m_linked s) =
     int (length ns) + (case m_cons s of CPopped _ \<Rightarrow> 1 | _ \<Rightarrow> 0)"

text \<open>Someone will still look at the queue: the wake-up is on its way or the consumer is at work.\<close>

definition wake_inv :: "'a msys \<Rightarrow> nat list \<Rightarrow> bool" where
  "wake_inv s ns \<longleftrightarrow>
     (ns \<noteq> [] \<longrightarrow> q_C (m_q s) \<noteq> None \<or> m_swapped s \<noteq> [] \<or> m_linked s > 0 \<or>
        (\<exists>c \<in> set (m_sends s). c > 0) \<or>
        (case m_cons s of CWait \<Rightarrow> False | CAwake \<Rightarrow> True | CPopped _ \<Rightarrow> True | CSend c \<Rightarrow> c > 0))"

definition minv :: "'a msys \<Rightarrow> nat list \<Rightarrow> bool" where
  "minv s ns \<longleftrightarrow> chain_inv s ns \<and> value_inv s ns \<and> count_inv s ns \<and> wake_inv s ns"

lemmas minv_defs = minv_def chain_inv_def value_inv_def count_inv_def wake_inv_def
lemmas q_defs [go_defs] = q_swap_def q_link_def q_add_def q_send_def q_take_def

lemma minv_init: "minv msys_init []"
  by (simp add: minv_defs msys_init_def newQueue_def)

lemma minv_swap:
  assumes I: "minv s ns" and get: "q_get a (m_q s)"
  shows "minv (s\<lparr>m_q := q_swap v a (m_q s), m_swapped := (q_head (m_q s), a) # m_swapped s,
      m_pushed := m_pushed s @ [v]\<rparr>) (ns @ [a])"
proof -
  let ?q = "m_q s" and ?t = "q_tail (m_q s)"
  have out: "a \<notin> set (?t # ns)" and lt: "\<forall>n \<in> set (?t # ns). n < q_fresh ?q"
    using I get unfolding minv_def chain_inv_def q_get_def by auto
  let ?nx = "(q_next ?q)(a := None)"
  have e: "edges_ok ?nx ?t ns" "pend_edges ?nx ?t ns = pend_edges (q_next ?q) ?t ns"
    using I edges_ok_upd_out [OF out] pend_edges_upd_out [OF out]
    by (simp_all add: minv_def chain_inv_def)
  have "edges_ok ?nx ?t (ns @ [a])"
    using e(1) out by (intro edges_ok_snoc) auto
  moreover have "pend_edges ?nx ?t (ns @ [a]) = pend_edges (q_next ?q) ?t ns @ [(q_head ?q, a)]"
    using pend_edges_snoc [OF e(1), of a] e(2) I by (simp add: minv_def chain_inv_def)
  moreover have "map ((q_val ?q)(a \<mapsto> v)) ns = map (q_val ?q) ns"
    using out by auto
  ultimately show ?thesis
    using I out lt get
    by (auto simp: minv_defs q_swap_def q_get_def less_Suc_eq)
qed

lemma minv_link:
  assumes I: "minv s ns" and e: "(prev, a) \<in> set (m_swapped s)"
  shows "minv (s\<lparr>m_q := q_link prev a (m_q s), m_swapped := remove1 (prev, a) (m_swapped s),
      m_linked := Suc (m_linked s)\<rparr>) ns"
proof -
  have "(prev, a) \<in> set (pend_edges (q_next (m_q s)) (q_tail (m_q s)) ns)"
    using I e unfolding minv_def chain_inv_def by (metis set_mset_mset)
  with I have "edges_ok ((q_next (m_q s))(prev \<mapsto> a)) (q_tail (m_q s)) ns"
    "mset (pend_edges ((q_next (m_q s))(prev \<mapsto> a)) (q_tail (m_q s)) ns) =
     mset (m_swapped s) - {#(prev, a)#}"
    using link_edge [of "q_tail (m_q s)" ns prev a "q_next (m_q s)"]
    by (simp_all add: minv_def chain_inv_def)
  then have "chain_inv (s\<lparr>m_q := q_link prev a (m_q s), m_swapped := remove1 (prev, a) (m_swapped s),
      m_linked := Suc (m_linked s)\<rparr>) ns"
    using I by (simp add: minv_def chain_inv_def q_link_def)
  moreover have "int (length (remove1 (prev, a) (m_swapped s))) = int (length (m_swapped s)) - 1"
    using e by (cases "m_swapped s") (simp_all add: length_remove1 del: remove1.simps)
  ultimately show ?thesis
    using I by (auto simp: minv_def value_inv_def count_inv_def wake_inv_def q_link_def)
qed

lemma minv_count:
  assumes I: "minv s ns" and k: "m_linked s = Suc k"
  shows "minv (s\<lparr>m_q := q_add 1 (m_q s), m_linked := k,
      m_sends := (q_count (m_q s) + 1) # m_sends s\<rparr>) ns"
proof -
  have "q_count (m_q s) + 1 > 0" if "ns \<noteq> []" "m_swapped s = []" "k = 0"
    using I k that by (auto simp: minv_def count_inv_def split: cons.splits)
  then show ?thesis
    using I k by (auto simp: minv_defs q_add_def)
qed

lemma minv_push_send:
  assumes I: "minv s ns" and c: "c \<in> set (m_sends s)"
  shows "minv (s\<lparr>m_q := q_send c (m_q s), m_sends := remove1 c (m_sends s)\<rparr>) ns"
proof -
  have rest: "d \<in> set (remove1 c (m_sends s))" if "d \<in> set (m_sends s)" "d \<noteq> c" for d
    using that by (simp add: in_set_remove1)
  have "wake_inv (s\<lparr>m_q := q_send c (m_q s), m_sends := remove1 c (m_sends s)\<rparr>) ns"
  proof (cases "c > 0")
    case True
    then show ?thesis by (auto simp: wake_inv_def q_send_def)
  next
    case False
    with I rest show ?thesis
      unfolding minv_def wake_inv_def q_send_def by (auto split: cons.splits)
  qed
  with I show ?thesis
    by (auto simp: minv_def chain_inv_def value_inv_def count_inv_def q_send_def)
qed

lemma minv_wake:
  assumes "minv s ns" "m_cons s = CWait"
  shows "minv (s\<lparr>m_q := (m_q s)\<lparr>q_C := None\<rparr>, m_cons := CAwake\<rparr>) ns"
  using assms by (auto simp: minv_defs)

lemma minv_pop_nil:
  assumes I: "minv s ns" and "m_cons s = CAwake" "q_next (m_q s) (q_tail (m_q s)) = None"
  shows "minv (s\<lparr>m_cons := CWait\<rparr>) ns"
proof -
  have "m_swapped s \<noteq> []" if "ns \<noteq> []"
    using that assms by (cases ns) (auto simp: minv_def chain_inv_def)
  with assms show ?thesis by (auto simp: minv_defs)
qed

lemma chain_head:
  assumes "minv s ns" "q_next (m_q s) (q_tail (m_q s)) = Some n"
  obtains ns' where "ns = n # ns'"
  using assms by (cases ns) (auto simp: minv_def chain_inv_def)

lemma minv_pop_some:
  assumes I: "minv s ns" and c: "m_cons s = CAwake"
    and n: "q_next (m_q s) (q_tail (m_q s)) = Some n" and v: "q_val (m_q s) n = Some v"
  shows "minv (s\<lparr>m_q := q_take n (m_q s), m_cons := CPopped v, m_popped := m_popped s @ [v]\<rparr>) (tl ns)"
proof -
  let ?q = "m_q s" and ?t = "q_tail (m_q s)"
  obtain ns' where ns: "ns = n # ns'" using I n by (rule chain_head)
  have out: "?t \<notin> set (n # ns')" and n': "n \<notin> set ns'"
    using I ns unfolding minv_def chain_inv_def by auto
  let ?nx = "(q_next ?q)(?t := None)"
  have "edges_ok ?nx n ns'" "pend_edges ?nx n ns' = pend_edges (q_next ?q) n ns'"
    using I ns n edges_ok_upd_out [OF out] pend_edges_upd_out [OF out]
    by (simp_all add: minv_def chain_inv_def)
  then have "chain_inv (s\<lparr>m_q := q_take n ?q, m_cons := CPopped v, m_popped := m_popped s @ [v]\<rparr>) ns'"
    using I ns n out by (auto simp: minv_def chain_inv_def q_take_def)
  moreover obtain vs where vs: "map (q_val ?q) ns = map Some vs" "m_pushed s = m_popped s @ vs"
    using I by (auto simp: minv_def value_inv_def)
  then have "vs = v # tl vs" "map (q_val ?q) ns' = map Some (tl vs)"
    using ns v by (cases vs; simp)+
  moreover have "map ((q_val ?q)(n := None)) ns' = map (q_val ?q) ns'" using n' by auto
  ultimately show ?thesis
    using I ns c vs(2)
    by (simp add: minv_def value_inv_def count_inv_def wake_inv_def q_take_def)
qed

lemma minv_pop_count:
  assumes I: "minv s ns" and c: "m_cons s = CPopped v"
  shows "minv (s\<lparr>m_q := q_add (- 1) (m_q s), m_cons := CSend (q_count (m_q s) - 1)\<rparr>) ns"
proof -
  have "q_count (m_q s) - 1 > 0" if "ns \<noteq> []" "m_swapped s = []" "m_linked s = 0"
    using I c that by (auto simp: minv_def count_inv_def)
  with I c show ?thesis by (auto simp: minv_defs q_add_def)
qed

lemma minv_pop_send:
  assumes "minv s ns" "m_cons s = CSend c"
  shows "minv (s\<lparr>m_q := q_send c (m_q s), m_cons := CWait\<rparr>) ns"
  using assms by (auto simp: minv_defs q_send_def)

lemma minv_step:
  assumes "mstep s t" and I: "minv s ns"
  shows "\<exists>ns'. minv t ns'"
  using assms(1)
proof cases
  case (push_swap a v)
  with minv_swap [OF I] show ?thesis by blast
next
  case (push_link prev a)
  with minv_link [OF I] show ?thesis by blast
next
  case (push_count k)
  with minv_count [OF I] show ?thesis by blast
next
  case (push_send c)
  with minv_push_send [OF I] show ?thesis by blast
next
  case cons_wake
  with minv_wake [OF I] show ?thesis by blast
next
  case pop_nil
  with minv_pop_nil [OF I] show ?thesis by blast
next
  case (pop_some n v)
  with minv_pop_some [OF I] show ?thesis by blast
next
  case (pop_count v)
  with minv_pop_count [OF I] show ?thesis by blast
next
  case (pop_send c)
  with minv_pop_send [OF I] show ?thesis by blast
qed

lemma mreach_minv: "mreach s \<Longrightarrow> \<exists>ns. minv s ns"
proof (induction rule: mreach.induct)
  case init
  show ?case using minv_init by blast
next
  case (step s t)
  then show ?case using minv_step by blast
qed

section \<open>Properties of the interleaved queue\<close>

lemma reach_prefix: "mreach s \<Longrightarrow> \<exists>vs. m_pushed s = m_popped s @ vs"
  using mreach_minv by (auto simp: minv_def value_inv_def)

text \<open>
  C7. First in, first out, nothing lost, nothing invented, nothing delivered twice: in every state that
  any interleaving of pushes with the consumer can reach, the values delivered so far are a prefix of
  the values pushed, in the order in which the pushes swapped the head pointer.
\<close>

theorem mpsc_fifo:
  assumes "mreach s"
  shows "\<exists>vs. m_pushed s = m_popped s @ vs"
  using assms by (rule reach_prefix)

definition mpsc_demo :: "nat msys" where
  "mpsc_demo = msys_init\<lparr>m_q := q_swap 5 1 newQueue, m_swapped := [(0, 1)], m_pushed := [5]\<rparr>"

lemma mpsc_demo_reach: "mreach mpsc_demo"
proof -
  have "q_get 1 (m_q (msys_init :: nat msys))" by (simp add: q_get_def msys_init_def newQueue_def)
  note mstep.push_swap [OF this, of 5]
  then have "mstep msys_init mpsc_demo"
    by (simp add: mpsc_demo_def msys_init_def newQueue_def)
  then show ?thesis by (rule mreach.step [OF mreach.init])
qed

theorem mpsc_fifo_witness: "mreach mpsc_demo \<and> (\<exists>vs. m_pushed mpsc_demo = m_popped mpsc_demo @ vs)"
  using mpsc_demo_reach mpsc_fifo [OF mpsc_demo_reach] by simp

text \<open>No pushes are in flight.\<close>

definition quiet :: "'a msys \<Rightarrow> bool" where
  "quiet s \<longleftrightarrow> m_swapped s = [] \<and> m_linked s = 0 \<and> m_sends s = []"

lemma waiting_token:
  assumes "mreach s" "quiet s" "m_cons s = CWait" "m_popped s \<noteq> m_pushed s"
  shows "q_C (m_q s) \<noteq> None \<and> q_count (m_q s) = int (length (m_pushed s) - length (m_popped s))"
proof -
  obtain ns where I: "minv s ns" using mreach_minv [OF assms(1)] by blast
  then obtain vs where vs: "map (q_val (m_q s)) ns = map Some vs" "m_pushed s = m_popped s @ vs"
    by (auto simp: minv_def value_inv_def)
  with assms(4) have "ns \<noteq> []" by auto
  moreover have "length ns = length vs" using vs(1) by (metis length_map)
  ultimately show ?thesis
    using I assms(2,3) vs(2) by (auto simp: minv_def wake_inv_def count_inv_def quiet_def)
qed

text \<open>
  C6. No lost wake-up: whenever every push has returned and the consumer waits on the channel while a
  value is still undelivered, the channel holds a token, so the consumer will not sleep forever. The
  counter then equals the number of undelivered values.
\<close>

theorem mpsc_no_lost_wakeup:
  assumes "mreach s" "quiet s" "m_cons s = CWait" "m_popped s \<noteq> m_pushed s"
  shows "q_C (m_q s) \<noteq> None \<and> q_count (m_q s) = int (length (m_pushed s) - length (m_popped s))"
  using assms by (rule waiting_token)

text \<open>A state with one delivered value, reached by pushing it and running the consumer half a round.\<close>

definition mpsc_full :: "nat msys" where
  "mpsc_full = msys_init\<lparr>m_q := q_Push 5 newQueue, m_pushed := [5]\<rparr>"

lemma mpsc_full_reach: "mreach mpsc_full"
proof -
  let ?s1 = "mpsc_demo\<lparr>m_q := q_link 0 1 (m_q mpsc_demo), m_swapped := remove1 (0, 1) (m_swapped mpsc_demo),
     m_linked := Suc (m_linked mpsc_demo)\<rparr>"
  let ?s2 = "?s1\<lparr>m_q := q_add 1 (m_q ?s1), m_linked := 0, m_sends := (q_count (m_q ?s1) + 1) # m_sends ?s1\<rparr>"
  let ?s3 = "?s2\<lparr>m_q := q_send 1 (m_q ?s2), m_sends := remove1 1 (m_sends ?s2)\<rparr>"
  have "mstep mpsc_demo ?s1" by (rule mstep.push_link) (simp add: mpsc_demo_def)
  moreover have "mstep ?s1 ?s2" by (rule mstep.push_count) (simp add: mpsc_demo_def msys_init_def)
  moreover have "mstep ?s2 ?s3"
    by (rule mstep.push_send)
       (simp add: mpsc_demo_def msys_init_def q_link_def q_swap_def newQueue_def)
  ultimately have "mreach ?s3" using mpsc_demo_reach by (blast intro: mreach.step)
  moreover have "?s3 = mpsc_full"
    by (simp add: mpsc_demo_def mpsc_full_def msys_init_def q_Push_def q_setCount_def newQueue_def
        q_link_def q_swap_def q_add_def q_send_def Let_def)
  ultimately show ?thesis by simp
qed

theorem mpsc_no_lost_wakeup_witness:
  "mreach mpsc_full \<and> q_C (m_q mpsc_full) \<noteq> None \<and> q_count (m_q mpsc_full) = 1"
proof -
  have "quiet mpsc_full" "m_cons mpsc_full = CWait" "m_popped mpsc_full \<noteq> m_pushed mpsc_full"
    by (simp_all add: quiet_def mpsc_full_def msys_init_def)
  from mpsc_no_lost_wakeup [OF mpsc_full_reach this] mpsc_full_reach show ?thesis
    by (simp add: mpsc_full_def msys_init_def)
qed

text \<open>The moves of the consumer alone.\<close>

definition cons_step :: "'a msys \<Rightarrow> 'a msys \<Rightarrow> bool" where
  "cons_step s t \<longleftrightarrow> mstep s t \<and> m_pushed t = m_pushed s \<and> m_swapped t = m_swapped s \<and>
     m_linked t = m_linked s \<and> m_sends t = m_sends s"

lemma cons_step_quiet: "cons_step s t \<Longrightarrow> quiet s \<Longrightarrow> quiet t"
  by (simp add: cons_step_def quiet_def)

lemma cons_steps_reach:
  "cons_step\<^sup>*\<^sup>* s t \<Longrightarrow> mreach s \<Longrightarrow> mreach t \<and> (quiet s \<longrightarrow> quiet t) \<and> m_pushed t = m_pushed s"
  by (induction rule: rtranclp_induct)
     (auto simp: cons_step_quiet intro: mreach.step simp: cons_step_def quiet_def)

text \<open>One round of the consumer: wake up, pop, count, re-arm.\<close>

lemma cons_round:
  assumes "mreach s" "quiet s" "m_cons s = CWait" "m_popped s \<noteq> m_pushed s"
  shows "\<exists>t. cons_step\<^sup>*\<^sup>* s t \<and> m_cons t = CWait \<and> length (m_popped t) = Suc (length (m_popped s))"
proof -
  let ?s1 = "s\<lparr>m_q := (m_q s)\<lparr>q_C := None\<rparr>, m_cons := CAwake\<rparr>"
  have "q_C (m_q s) \<noteq> None" using waiting_token [OF assms] by simp
  then have st1: "cons_step s ?s1"
    using mstep.cons_wake [of s] assms(3) by (simp add: cons_step_def)
  obtain ns where I: "minv s ns" using mreach_minv [OF assms(1)] by blast
  obtain vs where vs: "map (q_val (m_q s)) ns = map Some vs" "m_pushed s = m_popped s @ vs"
    using I by (auto simp: minv_def value_inv_def)
  with assms(4) obtain n ns' v vs' where ns: "ns = n # ns'" and vs': "vs = v # vs'"
    by (cases ns; cases vs) auto
  have nx: "q_next (m_q s) (q_tail (m_q s)) = Some n"
    using I assms(2) ns by (auto simp: minv_def chain_inv_def quiet_def split: if_splits)
  have val: "q_val (m_q s) n = Some v" using vs(1) ns vs' by simp
  let ?s2 = "?s1\<lparr>m_q := q_take n (m_q ?s1), m_cons := CPopped v, m_popped := m_popped ?s1 @ [v]\<rparr>"
  have st2: "cons_step ?s1 ?s2"
    using mstep.pop_some [of ?s1 n v] nx val by (simp add: cons_step_def)
  let ?s3 = "?s2\<lparr>m_q := q_add (- 1) (m_q ?s2), m_cons := CSend (q_count (m_q ?s2) - 1)\<rparr>"
  have st3: "cons_step ?s2 ?s3"
    using mstep.pop_count [of ?s2 v] by (simp add: cons_step_def)
  let ?s4 = "?s3\<lparr>m_q := q_send (q_count (m_q ?s2) - 1) (m_q ?s3), m_cons := CWait\<rparr>"
  have st4: "cons_step ?s3 ?s4"
    using mstep.pop_send [of ?s3] by (simp add: cons_step_def)
  from st1 st2 st3 st4 have "cons_step\<^sup>*\<^sup>* s ?s4"
    by (meson converse_rtranclp_into_rtranclp rtranclp.rtrancl_refl)
  then show ?thesis by (intro exI [of _ ?s4]) simp
qed

text \<open>
  C27. The consumer drains the queue: from every reachable state in which the pushes have returned and
  the consumer waits, a run of consumer steps alone delivers every value pushed so far, in order, and
  leaves the counter at zero.
\<close>

theorem mpsc_drains:
  assumes "mreach s" "quiet s" "m_cons s = CWait"
  shows "\<exists>t. cons_step\<^sup>*\<^sup>* s t \<and> m_cons t = CWait \<and> m_popped t = m_pushed s \<and> q_count (m_q t) = 0"
  using assms
proof (induction "length (m_pushed s) - length (m_popped s)" arbitrary: s rule: less_induct)
  case less
  obtain vs where vs: "m_pushed s = m_popped s @ vs" using reach_prefix [OF less.prems(1)] by blast
  show ?case
  proof (cases "m_popped s = m_pushed s")
    case True
    obtain ns where I: "minv s ns" using mreach_minv [OF less.prems(1)] by blast
    with True have "ns = []" by (auto simp: minv_def value_inv_def)
    with I less.prems have "q_count (m_q s) = 0" by (simp add: minv_def count_inv_def quiet_def)
    with True less.prems show ?thesis by blast
  next
    case False
    obtain t where t: "cons_step\<^sup>*\<^sup>* s t" "m_cons t = CWait" "length (m_popped t) = Suc (length (m_popped s))"
      using cons_round [OF less.prems False] by blast
    then have r: "mreach t" "quiet t" "m_pushed t = m_pushed s"
      using cons_steps_reach [OF t(1)] less.prems by auto
    have "length (m_pushed t) - length (m_popped t) < length (m_pushed s) - length (m_popped s)"
      using t(3) r(3) vs False by auto
    from less.hyps [OF this r(1,2) t(2)] r(3) t(1) show ?thesis
      by (metis rtranclp_trans)
  qed
qed

theorem mpsc_drains_witness:
  "\<exists>t. cons_step\<^sup>*\<^sup>* mpsc_full t \<and> m_popped t = [5] \<and> q_count (m_q t) = 0"
proof -
  have "quiet mpsc_full" "m_cons mpsc_full = CWait" by (simp_all add: quiet_def mpsc_full_def msys_init_def)
  from mpsc_drains [OF mpsc_full_reach this] show ?thesis
    by (auto simp: mpsc_full_def msys_init_def)
qed

section \<open>The queue as a list\<close>

text \<open>
  The interface a single-threaded client sees, in the style of an abstract queue: what the operations
  do to the list of queued values.
\<close>

locale fifo_queue =
  fixes empty :: 'q
    and push :: "'a \<Rightarrow> 'q \<Rightarrow> 'q"
    and pop :: "'q \<Rightarrow> 'a option \<times> 'q"
    and is_empty :: "'q \<Rightarrow> bool"
    and list :: "'q \<Rightarrow> 'a list"
    and inv :: "'q \<Rightarrow> bool"
  assumes inv_empty: "inv empty"
    and inv_push: "inv q \<Longrightarrow> inv (push v q)"
    and inv_pop: "inv q \<Longrightarrow> inv (snd (pop q))"
    and list_empty: "list empty = []"
    and list_push: "inv q \<Longrightarrow> list (push v q) = list q @ [v]"
    and pop_Nil: "inv q \<Longrightarrow> list q = [] \<Longrightarrow> pop q = (None, q)"
    and pop_Cons: "inv q \<Longrightarrow> list q = v # vs \<Longrightarrow> fst (pop q) = Some v \<and> list (snd (pop q)) = vs"
    and is_empty: "inv q \<Longrightarrow> is_empty q = (list q = [])"
begin

fun pops :: "nat \<Rightarrow> 'q \<Rightarrow> 'a option list \<times> 'q" where
  "pops 0 q = ([], q)"
| "pops (Suc n) q = (let (v, q1) = pop q; (vs, q2) = pops n q1 in (v # vs, q2))"

definition pushes :: "'a list \<Rightarrow> 'q \<Rightarrow> 'q" where
  "pushes vs q = fold push vs q"

lemma pushes_list: "inv q \<Longrightarrow> inv (pushes vs q) \<and> list (pushes vs q) = list q @ vs"
  unfolding pushes_def
  by (induction vs arbitrary: q) (auto simp: inv_push list_push)

lemma pops_list:
  "inv q \<Longrightarrow> list q = vs @ ws \<Longrightarrow>
   fst (pops (length vs) q) = map Some vs \<and> list (snd (pops (length vs) q)) = ws \<and>
   inv (snd (pops (length vs) q))"
proof (induction vs arbitrary: q)
  case (Cons v vs)
  then have "fst (pop q) = Some v" "list (snd (pop q)) = vs @ ws" "inv (snd (pop q))"
    using pop_Cons inv_pop by auto
  with Cons.IH [of "snd (pop q)"] show ?case
    by (auto simp: Let_def split: prod.splits)
qed simp

lemma push_then_pop: "fst (pops (length vs) (pushes vs empty)) = map Some vs"
  using pops_list [of "pushes vs empty" vs "[]"] pushes_list [OF inv_empty, of vs]
  by (simp add: list_empty)

end

fun walk :: "(nat \<Rightarrow> nat option) \<Rightarrow> (nat \<Rightarrow> 'a option) \<Rightarrow> nat \<Rightarrow> nat \<Rightarrow> 'a list" where
  "walk nx val 0 x = []"
| "walk nx val (Suc k) x =
     (case nx x of None \<Rightarrow> [] | Some y \<Rightarrow> (case val y of None \<Rightarrow> [] | Some v \<Rightarrow> v # walk nx val k y))"

definition q_list :: "'a mq \<Rightarrow> 'a list" where
  "q_list q = walk (q_next q) (q_val q) (q_fresh q) (q_tail q)"

definition shape :: "'a mq \<Rightarrow> nat list \<Rightarrow> 'a list \<Rightarrow> bool" where
  "shape q ns vs \<longleftrightarrow>
     edges_ok (q_next q) (q_tail q) ns \<and> pend_edges (q_next q) (q_tail q) ns = [] \<and>
     distinct (q_tail q # ns) \<and> last (q_tail q # ns) = q_head q \<and>
     (\<forall>n \<in> set (q_tail q # ns). n < q_fresh q) \<and> map (q_val q) ns = map Some vs"

lemma walk_shape:
  "edges_ok nx x ns \<Longrightarrow> pend_edges nx x ns = [] \<Longrightarrow> map val ns = map Some vs \<Longrightarrow> length ns \<le> k \<Longrightarrow>
   walk nx val k x = vs"
proof (induction ns arbitrary: x vs k)
  case (Cons n ns)
  then obtain k' v vs' where "k = Suc k'" "vs = v # vs'" "nx x = Some n" "val n = Some v"
    by (cases k; cases vs) (auto split: if_splits)
  with Cons show ?case by (auto split: if_splits)
next
  case Nil
  then show ?case by (cases k) auto
qed

lemma q_list_shape:
  assumes "shape q ns vs"
  shows "q_list q = vs"
proof -
  have "set (q_tail q # ns) \<subseteq> {..<q_fresh q}" using assms by (auto simp: shape_def)
  moreover have "card (set (q_tail q # ns)) = Suc (length ns)"
    using assms by (subst distinct_card) (auto simp: shape_def)
  ultimately have "Suc (length ns) \<le> q_fresh q"
    by (metis card_lessThan card_mono finite_lessThan)
  with assms show ?thesis unfolding q_list_def shape_def by (intro walk_shape) auto
qed

lemma shape_next: "shape q ns vs \<Longrightarrow> (q_next q (q_tail q) = None) = (vs = [])"
  unfolding shape_def by (cases ns) (auto split: if_splits)

text \<open>A queue at rest: the state of the interleaved machine with nothing in flight.\<close>

definition at_rest :: "'a mq \<Rightarrow> 'a list \<Rightarrow> 'a msys" where
  "at_rest q vs = \<lparr>m_q = q, m_swapped = [], m_linked = 0, m_sends = [], m_cons = CWait,
     m_pushed = vs, m_popped = []\<rparr>"

definition q_inv :: "'a mq \<Rightarrow> bool" where
  "q_inv q \<longleftrightarrow> (\<exists>ns vs. minv (at_rest q vs) ns)"

lemma minv_rest_shape: "minv (at_rest q vs) ns \<Longrightarrow> shape q ns vs"
  by (auto simp: minv_def chain_inv_def value_inv_def at_rest_def shape_def)

lemma minv_at_rest_eq:
  assumes "minv s ns" "quiet s" "m_cons s = CWait" "map (q_val (m_q s)) ns = map Some vs"
  shows "minv (at_rest (m_q s) vs) ns"
  using assms by (auto simp: minv_defs at_rest_def quiet_def)

lemma q_Push_rest:
  assumes I: "minv (at_rest q vs) ns"
  shows "\<exists>ns'. minv (at_rest (q_Push v q) (vs @ [v])) ns'"
proof -
  let ?a = "case q_pool q of [] \<Rightarrow> q_fresh q | n # _ \<Rightarrow> n" and ?s = "at_rest q vs"
  have get: "q_get ?a (m_q ?s)" by (auto simp: q_get_def at_rest_def split: list.splits)
  note I1 = minv_swap [OF I get, of v]
  note I2 = minv_link [OF I1, of "q_head q" ?a]
  note I3 = minv_count [OF I2, of 0]
  note I4 = minv_push_send [OF I3]
  show ?thesis
    using I4 [of "q_count (q_link (q_head q) ?a (q_swap v ?a q)) + 1"]
    by (intro exI) (simp add: at_rest_def q_Push_def q_setCount_def q_add_def Let_def)
qed

lemma q_Pop_rest:
  assumes I: "minv (at_rest q (v # vs)) ns"
  shows "fst (q_Pop q) = Some v \<and> (\<exists>ns'. minv (at_rest (snd (q_Pop q)) vs) ns')"
proof -
  let ?s = "at_rest q (v # vs)"
  have sh: "shape q ns (v # vs)" by (rule minv_rest_shape [OF I])
  then obtain n ns' where ns: "ns = n # ns'" by (cases ns) (auto simp: shape_def)
  with sh have nx: "q_next q (q_tail q) = Some n" and val: "q_val q n = Some v"
    by (auto simp: shape_def split: if_splits)
  have I0: "minv (?s\<lparr>m_cons := CAwake\<rparr>) ns" using I by (auto simp: minv_defs at_rest_def)
  have "minv ((?s\<lparr>m_cons := CAwake\<rparr>)\<lparr>m_q := q_take n q, m_cons := CPopped v, m_popped := [v]\<rparr>) ns'"
    using minv_pop_some [OF I0, of n v] nx val ns by (simp add: at_rest_def)
  note I2 = minv_pop_count [OF this, of v]
  note I3 = minv_pop_send [OF I2]
  have "minv (at_rest (snd (q_Pop q)) vs) ns'"
    using I3 [of "q_count q - 1"] nx val
    by (auto simp: q_Pop_def q_setCount_def q_add_def q_take_def at_rest_def Let_def minv_defs)
  with nx val show ?thesis by (auto simp: q_Pop_def)
qed

lemma q_inv_list: "minv (at_rest q vs) ns \<Longrightarrow> q_list q = vs"
  by (rule q_list_shape [OF minv_rest_shape])

lemma q_invE:
  assumes "q_inv q"
  obtains ns where "minv (at_rest q (q_list q)) ns"
  using assms q_inv_list by (auto simp: q_inv_def)

interpretation actor_queue: fifo_queue newQueue q_Push q_Pop q_Empty q_list q_inv
proof (unfold_locales, goal_cases)
  case 1
  have "minv (at_rest newQueue []) []" by (simp add: minv_defs at_rest_def newQueue_def)
  then show ?case by (auto simp: q_inv_def)
next
  case (2 q v)
  then show ?case by (metis q_Push_rest q_invE q_inv_def)
next
  case (3 q)
  then obtain ns where I: "minv (at_rest q (q_list q)) ns" by (rule q_invE)
  show ?case
  proof (cases "q_list q")
    case Nil
    with I have "q_next q (q_tail q) = None"
      using minv_rest_shape [OF I] by (auto simp: shape_def)
    with 3 show ?thesis by (simp add: q_Pop_def)
  next
    case (Cons v vs)
    with I q_Pop_rest [of q v vs ns] show ?thesis by (auto simp: q_inv_def)
  qed
next
  case 4
  show ?case by (simp add: q_list_def newQueue_def)
next
  case (5 q v)
  then show ?case by (metis q_Push_rest q_invE q_inv_list)
next
  case (6 q)
  then obtain ns where I: "minv (at_rest q (q_list q)) ns" by (metis q_invE)
  with 6 have "q_next q (q_tail q) = None"
    using minv_rest_shape [OF I] by (auto simp: shape_def)
  then show ?case by (simp add: q_Pop_def)
next
  case (7 q v vs)
  then obtain ns where "minv (at_rest q (v # vs)) ns" by (metis q_invE)
  from q_Pop_rest [OF this] show ?case by (auto dest: q_inv_list)
next
  case (8 q)
  then obtain ns where I: "minv (at_rest q (q_list q)) ns" by (rule q_invE)
  from shape_next [OF minv_rest_shape [OF I]] show ?case by (simp add: q_Empty_def)
qed

end
