(* ===== verification/Go_Strconv.thy ===== *)
theory Go_Strconv
  imports Go_Prelude
begin

text \<open>
  The part of Go's \<open>strconv\<close> package the sources use: \<open>FormatUint\<close>/\<open>FormatInt\<close>/\<open>Itoa\<close> and
  \<open>ParseUint\<close>/\<open>ParseInt\<close>/\<open>Atoi\<close> in a base between 2 and 36. A parse error of either kind
  (\<open>ErrSyntax\<close>, \<open>ErrRange\<close>) is \<open>None\<close>: no caller in the sources tells the two apart. The library
  lemmas are the two round trips, print-then-parse within the range of the width.
\<close>

definition digit_char :: "nat \<Rightarrow> char" where
  "digit_char d = char_of (if d < 10 then 48 + d else 87 + d)"

definition char_digit :: "char \<Rightarrow> nat option" where
  "char_digit c =
     (let n = of_char c :: nat in
      if 48 \<le> n \<and> n \<le> 57 then Some (n - 48)
      else if 97 \<le> n \<and> n \<le> 122 then Some (n - 87)
      else if 65 \<le> n \<and> n \<le> 90 then Some (n - 55)
      else None)"

fun fmt_nat :: "nat \<Rightarrow> nat \<Rightarrow> string" where
  "fmt_nat b n =
     (if b < 2 \<or> n < b then [digit_char n] else fmt_nat b (n div b) @ [digit_char (n mod b)])"

declare fmt_nat.simps [simp del]

definition fmt_int :: "nat \<Rightarrow> int \<Rightarrow> string" where
  "fmt_int b i = (if i < 0 then CHR ''-'' # fmt_nat b (nat (- i)) else fmt_nat b (nat i))"

fun parse_digits :: "nat \<Rightarrow> string \<Rightarrow> nat \<Rightarrow> nat option" where
  "parse_digits b [] acc = Some acc"
| "parse_digits b (c # cs) acc =
     (case char_digit c of
        None \<Rightarrow> None
      | Some d \<Rightarrow> if d < b then parse_digits b cs (acc * b + d) else None)"

text \<open>\<open>ParseUint(s, b, bits)\<close>: empty input and characters outside the base are syntax errors.\<close>

definition parse_uint :: "nat \<Rightarrow> nat \<Rightarrow> string \<Rightarrow> nat option" where
  "parse_uint b bits s =
     (if s = [] then None
      else case parse_digits b s 0 of
        None \<Rightarrow> None
      | Some n \<Rightarrow> if n < 2 ^ bits then Some n else None)"

text \<open>For evaluation: the range check on integers, where the bound is a binary numeral.\<close>

lemma parse_uint_code [code]:
  "parse_uint b bits s =
     (if s = [] then None
      else case parse_digits b s 0 of
        None \<Rightarrow> None
      | Some n \<Rightarrow> if int n < 2 ^ bits then Some n else None)"
  by (auto simp: parse_uint_def of_nat_less_numeral_power_cancel_iff split: option.splits)

text \<open>\<open>ParseInt(s, b, bits)\<close>: an optional sign, then \<open>ParseUint\<close>, then the signed range check.\<close>

definition parse_int :: "nat \<Rightarrow> nat \<Rightarrow> string \<Rightarrow> int option" where
  "parse_int b bits s =
     (case s of
        [] \<Rightarrow> None
      | c # cs \<Rightarrow>
          (let neg = (c = CHR ''-''); body = (if c = CHR ''-'' \<or> c = CHR ''+'' then cs else s) in
           case parse_uint b bits body of
             None \<Rightarrow> None
           | Some n \<Rightarrow>
               if \<not> neg \<and> n \<ge> 2 ^ (bits - 1) then None
               else if neg \<and> n > 2 ^ (bits - 1) then None
               else Some (if neg then - int n else int n)))"

lemma fmt_nat_not_Nil [simp]: "fmt_nat b n \<noteq> []"
  by (subst fmt_nat.simps) auto

lemma char_digit_char [simp]: "d < 36 \<Longrightarrow> char_digit (digit_char d) = Some d"
  by (auto simp: digit_char_def char_digit_def Let_def)

lemma parse_digits_append:
  "parse_digits b (xs @ ys) acc =
     (case parse_digits b xs acc of None \<Rightarrow> None | Some n \<Rightarrow> parse_digits b ys n)"
  by (induction b xs acc rule: parse_digits.induct) (auto split: option.splits)

lemma parse_digits_fmt_nat:
  "2 \<le> b \<Longrightarrow> b \<le> 36 \<Longrightarrow> parse_digits b (fmt_nat b n) 0 = Some n"
proof (induction b n rule: fmt_nat.induct)
  case (1 b n)
  show ?case
  proof (cases "n < b")
    case True
    with "1.prems" show ?thesis by (subst fmt_nat.simps) simp
  next
    case False
    with "1.IH" "1.prems" have "parse_digits b (fmt_nat b (n div b)) 0 = Some (n div b)"
      by simp
    moreover have "n mod b < b" and "n mod b < 36"
      using "1.prems" by (auto intro: less_le_trans [of _ b])
    ultimately show ?thesis
      using False "1.prems"
      by (subst fmt_nat.simps) (simp add: parse_digits_append)
  qed
qed

lemma parse_uint_fmt_nat:
  "2 \<le> b \<Longrightarrow> b \<le> 36 \<Longrightarrow> n < 2 ^ bits \<Longrightarrow> parse_uint b bits (fmt_nat b n) = Some n"
  by (simp add: parse_uint_def parse_digits_fmt_nat)

text \<open>No printed digit is a sign, so a printed natural number is never mistaken for a signed one.\<close>

lemma digit_char_not_sign: "d < 36 \<Longrightarrow> digit_char d \<noteq> CHR ''-'' \<and> digit_char d \<noteq> CHR ''+''"
proof -
  assume "d < 36"
  then have "char_digit (digit_char d) = Some d" by simp
  moreover have "char_digit (CHR ''-'') = None" and "char_digit (CHR ''+'') = None"
    by (simp_all add: char_digit_def)
  ultimately show ?thesis by (metis option.distinct(1))
qed

lemma fmt_nat_chars:
  "2 \<le> b \<Longrightarrow> b \<le> 36 \<Longrightarrow> c \<in> set (fmt_nat b n) \<Longrightarrow> \<exists>d < b. c = digit_char d"
proof (induction b n rule: fmt_nat.induct)
  case (1 b n)
  show ?case
  proof (cases "n < b")
    case True
    with "1.prems" show ?thesis by (subst (asm) fmt_nat.simps) auto
  next
    case False
    from "1.prems"(1,3) False have "c \<in> set (fmt_nat b (n div b)) \<or> c = digit_char (n mod b)"
      by (subst (asm) fmt_nat.simps) auto
    then show ?thesis
    proof
      assume "c \<in> set (fmt_nat b (n div b))"
      with "1.IH" "1.prems" False show ?thesis by simp
    next
      assume "c = digit_char (n mod b)"
      with "1.prems" show ?thesis by (intro exI [of _ "n mod b"]) simp
    qed
  qed
qed

lemma parse_int_fmt_int:
  assumes "2 \<le> b" "b \<le> 36" and "0 < bits" and "- (2 ^ (bits - 1)) \<le> i" "i < 2 ^ (bits - 1)"
  shows "parse_int b bits (fmt_int b i) = Some i"
proof -
  have two: "(2::nat) ^ (bits - 1) < 2 ^ bits" using assms(3) by simp
  show ?thesis
  proof (cases "i < 0")
    case True
    then have n: "nat (- i) \<le> 2 ^ (bits - 1)" using assms(4) by (simp add: nat_le_iff)
    with two have "nat (- i) < 2 ^ bits" by linarith
    with True n assms(1,2) show ?thesis
      by (auto simp: parse_int_def fmt_int_def parse_uint_fmt_nat Let_def)
  next
    case False
    have lt: "nat i < 2 ^ (bits - 1)" using assms(5) False by (simp add: nat_less_iff)
    with two have "nat i < 2 ^ bits" by linarith
    moreover obtain c cs where cs: "fmt_nat b (nat i) = c # cs"
      by (cases "fmt_nat b (nat i)") auto
    moreover have "c \<noteq> CHR ''-''" "c \<noteq> CHR ''+''"
      using fmt_nat_chars [OF assms(1,2), of c "nat i"] cs assms(2) digit_char_not_sign
      by (auto dest: less_le_trans)
    ultimately show ?thesis
      using False lt parse_uint_fmt_nat [OF assms(1,2), of "nat i" bits]
      by (auto simp: parse_int_def fmt_int_def Let_def)
  qed
qed

end
