(* ===== verification/Session.thy ===== *)
theory Session
  imports Actor_Path
begin

text \<open>
  The per-connection session of \<open>src/net/proto/session.go\<close>: an identity and a string map that the
  gateway and the actors share. A Go map may be nil: reading a nil map finds nothing and deleting from
  it does nothing, but writing to it panics. The getters convert with \<open>strconv\<close> as
  \<open>src/extend/string/string.go\<close> does.
\<close>

record Session =
  Sid :: string
  Uid :: int
  Ip :: string
  Data :: "(string, string) gomap option"

datatype go_panic = NilMapWrite | NilDeref | PanicMsg string

definition data_of :: "Session \<Rightarrow> (string, string) gomap" where
  "data_of x = (case Data x of None \<Rightarrow> [] | Some d \<Rightarrow> d)"

text \<open>The converters of \<open>string.go\<close> with no default argument: the value and whether parsing worked.\<close>

definition ToUint :: "string \<Rightarrow> nat \<times> bool" where
  "ToUint value = (case parse_uint 10 32 value of None \<Rightarrow> (0, False) | Some v \<Rightarrow> (v, True))"

definition ToInt :: "string \<Rightarrow> int \<times> bool" where
  "ToInt value = (case parse_int 10 64 value of None \<Rightarrow> (0, False) | Some v \<Rightarrow> (v, True))"

definition ToInt32 :: "string \<Rightarrow> int \<times> bool" where
  "ToInt32 value = (case parse_int 10 32 value of None \<Rightarrow> (0, False) | Some v \<Rightarrow> (v, True))"

definition ToInt64 :: "string \<Rightarrow> int \<times> bool" where
  "ToInt64 value = (case parse_int 10 64 value of None \<Rightarrow> (0, False) | Some v \<Rightarrow> (v, True))"

definition ToUint64 :: "string \<Rightarrow> nat \<times> bool" where
  "ToUint64 value = (case parse_uint 10 64 value of None \<Rightarrow> (0, False) | Some v \<Rightarrow> (v, True))"

definition IsBind :: "Session \<Rightarrow> bool" where
  "IsBind x \<longleftrightarrow> Uid x > 0"

text \<open>Assignment to a map entry, the only session operation that can panic.\<close>

definition put_data :: "string \<Rightarrow> string \<Rightarrow> Session \<Rightarrow> go_panic + Session" where
  "put_data key value x =
     (case Data x of
        None \<Rightarrow> Inl NilMapWrite
      | Some d \<Rightarrow> Inr (x\<lparr>Data := Some (AList.update key value d)\<rparr>))"

definition SetAny :: "Session \<Rightarrow> string \<Rightarrow> goany \<Rightarrow> go_panic + Session" where
  "SetAny x key value = put_data key (ToString value) x"

definition session_Remove :: "Session \<Rightarrow> string \<Rightarrow> Session" where
  "session_Remove x key = x\<lparr>Data := map_option (AList.delete key) (Data x)\<rparr>"

definition session_Set :: "Session \<Rightarrow> string \<Rightarrow> string \<Rightarrow> go_panic + Session" where
  "session_Set x key value = (if key = [] \<or> value = [] then Inr x else put_data key value x)"

text \<open>The \<open>range\<close> loops of \<open>ImportAll\<close> and \<open>Restore\<close>; the list is the order Go visits the map in.\<close>

fun ImportAll :: "Session \<Rightarrow> (string, string) gomap \<Rightarrow> go_panic + Session" where
  "ImportAll x [] = Inr x"
| "ImportAll x ((k, v) # data) =
     (case session_Set x k v of Inl p \<Rightarrow> Inl p | Inr x' \<Rightarrow> ImportAll x' data)"

definition session_Contains :: "Session \<Rightarrow> string \<Rightarrow> bool" where
  "session_Contains x key \<longleftrightarrow> map_of (data_of x) key \<noteq> None"

definition session_Equal :: "Session \<Rightarrow> string \<Rightarrow> string \<Rightarrow> bool" where
  "session_Equal x key value =
     (case map_of (data_of x) key of None \<Rightarrow> False | Some dataValue \<Rightarrow> dataValue = value)"

definition session_Clear :: "Session \<Rightarrow> Session" where
  "session_Clear x = x\<lparr>Data := map_option (\<lambda>_. []) (Data x)\<rparr>"

definition Restore :: "Session \<Rightarrow> (string, string) gomap \<Rightarrow> go_panic + Session" where
  "Restore x data = ImportAll (session_Clear x) data"

definition GetUint :: "Session \<Rightarrow> string \<Rightarrow> nat" where
  "GetUint x key =
     (case map_of (data_of x) key of
        None \<Rightarrow> 0 | Some v \<Rightarrow> (let (value, ok) = ToUint v in if ok then value else 0))"

definition GetInt :: "Session \<Rightarrow> string \<Rightarrow> int" where
  "GetInt x key =
     (case map_of (data_of x) key of
        None \<Rightarrow> 0 | Some v \<Rightarrow> (let (value, ok) = ToInt v in if ok then value else 0))"

definition GetInt32 :: "Session \<Rightarrow> string \<Rightarrow> int" where
  "GetInt32 x key =
     (case map_of (data_of x) key of
        None \<Rightarrow> 0 | Some v \<Rightarrow> (let (value, ok) = ToInt32 v in if ok then value else 0))"

definition GetInt64 :: "Session \<Rightarrow> string \<Rightarrow> int" where
  "GetInt64 x key =
     (case map_of (data_of x) key of
        None \<Rightarrow> 0 | Some v \<Rightarrow> (let (value, ok) = ToInt64 v in if ok then value else 0))"

definition GetString :: "Session \<Rightarrow> string \<Rightarrow> string" where
  "GetString x key = (case map_of (data_of x) key of None \<Rightarrow> [] | Some v \<Rightarrow> v)"

text \<open>\<open>maps.Clone\<close> based copy of a session, used wherever a session crosses a boundary.\<close>

definition clone_session :: "Session \<Rightarrow> Session" where
  "clone_session s = \<lparr>Sid = Sid s, Uid = Uid s, Ip = Ip s, Data = Data s\<rparr>"

lemma clone_session_id [simp]: "clone_session s = s"
  by (simp add: clone_session_def)

section \<open>Laws\<close>

abbreviation storable :: "string \<times> string \<Rightarrow> bool" where
  "storable e \<equiv> fst e \<noteq> [] \<and> snd e \<noteq> []"

lemma ImportAll_ok:
  "Data x = Some d \<Longrightarrow>
   \<exists>x'. ImportAll x data = Inr x' \<and> Sid x' = Sid x \<and> Uid x' = Uid x \<and> Ip x' = Ip x \<and>
     (\<exists>d'. Data x' = Some d' \<and> map_of d' = map_of d ++ map_of (filter storable (rev data)))"
proof (induction data arbitrary: x d)
  case Nil
  then show ?case by simp
next
  case (Cons e data)
  obtain k v where e: "e = (k, v)" by force
  show ?case
  proof (cases "k = [] \<or> v = []")
    case True
    with Cons.IH [OF Cons.prems] e show ?thesis
      by (auto simp: session_Set_def)
  next
    case False
    let ?x = "x\<lparr>Data := Some (AList.update k v d)\<rparr>"
    from False Cons.prems have set: "session_Set x k v = Inr ?x"
      by (simp add: session_Set_def put_data_def)
    from Cons.IH [of ?x "AList.update k v d"] obtain x' d' where
      x': "ImportAll ?x data = Inr x'" "Sid x' = Sid x" "Uid x' = Uid x" "Ip x' = Ip x"
        "Data x' = Some d'" "map_of d' = map_of (AList.update k v d) ++ map_of (filter storable (rev data))"
      by auto
    have "map_of d' = map_of d ++ map_of (filter storable (rev (e # data)))"
      using x'(6) e False by (auto simp: AList.update_conv' map_add_def fun_eq_iff split: option.splits)
    with x' set e show ?thesis by auto
  qed
qed

text \<open>A map has one entry per key, so the order the loop visits it in does not matter.\<close>

lemma map_of_filter_rev:
  assumes "distinct (map fst data)"
  shows "map_of (filter P (rev data)) = map_of (filter P data)"
proof (rule map_of_inject_set [THEN iffD2])
  show "distinct (map fst (filter P (rev data)))" "distinct (map fst (filter P data))"
    using assms by (auto simp: distinct_map rev_filter [symmetric] inj_on_def)
qed auto

section \<open>The property\<close>

text \<open>
  Session data: on a session whose map was made, \<open>Restore\<close> discards what the session held and
  leaves exactly the storable pairs of the given map (a pair with an empty key or an empty value is
  dropped), whatever the iteration order; the identity fields are untouched. \<open>ImportAll\<close> adds them over
  the old pairs. A session whose map was never made panics on the first storable write.
\<close>

theorem session_data_writes:
  "(\<forall>x d data. Data x = Some d \<and> distinct (map fst data) \<longrightarrow>
     (\<exists>x' d'. Restore x data = Inr x' \<and> Sid x' = Sid x \<and> Uid x' = Uid x \<and> Ip x' = Ip x \<and>
        Data x' = Some d' \<and> map_of d' = map_of (filter storable data))) \<and>
   (\<forall>x d data. Data x = Some d \<and> distinct (map fst data) \<longrightarrow>
     (\<exists>x' d'. ImportAll x data = Inr x' \<and> Data x' = Some d' \<and>
        map_of d' = map_of d ++ map_of (filter storable data))) \<and>
   (\<forall>x k v. Data x = None \<and> storable (k, v) \<longrightarrow> session_Set x k v = Inl NilMapWrite)"
proof (intro conjI allI impI)
  fix x :: Session and d data :: "(string \<times> string) list"
  assume d: "Data x = Some d \<and> distinct (map fst data)"
  with ImportAll_ok [of "session_Clear x" "[]" data] map_of_filter_rev [of data storable]
  show "\<exists>x' d'. Restore x data = Inr x' \<and> Sid x' = Sid x \<and> Uid x' = Uid x \<and> Ip x' = Ip x \<and>
        Data x' = Some d' \<and> map_of d' = map_of (filter storable data)"
    by (auto simp: Restore_def session_Clear_def)
next
  fix x :: Session and d data :: "(string \<times> string) list"
  assume "Data x = Some d \<and> distinct (map fst data)"
  with ImportAll_ok [of x d data] map_of_filter_rev [of data storable]
  show "\<exists>x' d'. ImportAll x data = Inr x' \<and> Data x' = Some d' \<and>
        map_of d' = map_of d ++ map_of (filter storable data)"
    by auto
qed (auto simp: session_Set_def put_data_def)

theorem session_data_writes_witness:
  "let x = \<lparr>Sid = ''s'', Uid = 7, Ip = [], Data = Some [(''old'', ''1'')]\<rparr>;
       data = [(''k'', ''v''), (''empty'', [])] in
   distinct (map fst data) \<and>
   (\<exists>x' d'. Restore x data = Inr x' \<and> Data x' = Some d' \<and> map_of d' = [''k'' \<mapsto> ''v''])"
proof -
  let ?x = "\<lparr>Sid = ''s'', Uid = 7, Ip = [], Data = Some [(''old'', ''1'')]\<rparr>"
  let ?data = "[(''k'', ''v''), (''empty'', [])]"
  have "Data ?x = Some [(''old'', ''1'')] \<and> distinct (map fst ?data)" by simp
  with session_data_writes obtain x' d' where
    "Restore ?x ?data = Inr x'" "Data x' = Some d'" "map_of d' = map_of (filter storable ?data)"
    by blast
  then show ?thesis by (auto simp: Let_def)
qed

end
