(* ===== verification/Request_Context.thy ===== *)
theory Request_Context
  imports Session
begin

text \<open>
  The values every transport hands to the actors: Go's \<open>context.Context\<close> as the sources use it,
  the request context of \<open>src/facade/request_context.go\<close>, the invocation result of
  \<open>src/facade/invoke_result.go\<close>, the status codes of \<open>src/net/proto/agp.pb.go\<close> and the codec numbers of
  \<open>src/facade/codec.go\<close>. Instants and durations are integers counting nanoseconds.
\<close>

section \<open>Go's context package\<close>

text \<open>
  A context is read at one instant: its deadline and what \<open>Err()\<close> answers then. \<open>WithDeadline\<close>
  keeps an earlier deadline of the parent, is cancelled with its parent, and is already expired when
  the deadline lies in the past.
\<close>

datatype ctx_error = ContextCanceled | DeadlineExceeded

record gocontext =
  cx_deadline :: "int option"
  cx_err :: "ctx_error option"

definition Background :: gocontext where
  "Background = \<lparr>cx_deadline = None, cx_err = None\<rparr>"

definition WithCancel :: "gocontext \<Rightarrow> gocontext" where
  "WithCancel parent = parent"

definition WithDeadline :: "int \<Rightarrow> gocontext \<Rightarrow> int \<Rightarrow> gocontext" where
  "WithDeadline now parent d =
     (if (case cx_deadline parent of Some cur \<Rightarrow> cur < d | None \<Rightarrow> False) then WithCancel parent
      else \<lparr>cx_deadline = Some d,
            cx_err = (case cx_err parent of
                        Some e \<Rightarrow> Some e
                      | None \<Rightarrow> if d \<le> now then Some DeadlineExceeded else None)\<rparr>)"

definition WithTimeout :: "int \<Rightarrow> gocontext \<Rightarrow> int \<Rightarrow> gocontext" where
  "WithTimeout now parent timeout = WithDeadline now parent (now + timeout)"

definition WithoutCancel :: "gocontext \<Rightarrow> gocontext" where
  "WithoutCancel parent = \<lparr>cx_deadline = None, cx_err = None\<rparr>"

definition cancel_ctx :: "gocontext \<Rightarrow> gocontext" where
  "cancel_ctx c = (case cx_err c of Some _ \<Rightarrow> c | None \<Rightarrow> c\<lparr>cx_err := Some ContextCanceled\<rparr>)"

lemmas context_defs [go_defs] =
  Background_def WithCancel_def WithDeadline_def WithTimeout_def WithoutCancel_def

lemma WithDeadline_deadline:
  "\<exists>d'. cx_deadline (WithDeadline now parent d) = Some d' \<and> d' \<le> d"
  by (auto simp: context_defs split: option.splits)

section \<open>Status codes, codecs, results\<close>

datatype StatusCode =
    STATUS_OK | STATUS_CANCELLED | STATUS_INVALID_ARGUMENT | STATUS_DEADLINE_EXCEEDED
  | STATUS_NOT_FOUND | STATUS_ALREADY_EXISTS | STATUS_PERMISSION_DENIED | STATUS_UNAUTHENTICATED
  | STATUS_RESOURCE_EXHAUSTED | STATUS_FAILED_PRECONDITION | STATUS_ABORTED | STATUS_INTERNAL
  | STATUS_UNAVAILABLE | STATUS_UNSUPPORTED_MEDIA

fun status_number :: "StatusCode \<Rightarrow> int" where
  "status_number STATUS_OK = 0"
| "status_number STATUS_CANCELLED = 1"
| "status_number STATUS_INVALID_ARGUMENT = 2"
| "status_number STATUS_DEADLINE_EXCEEDED = 3"
| "status_number STATUS_NOT_FOUND = 4"
| "status_number STATUS_ALREADY_EXISTS = 5"
| "status_number STATUS_PERMISSION_DENIED = 6"
| "status_number STATUS_UNAUTHENTICATED = 7"
| "status_number STATUS_RESOURCE_EXHAUSTED = 8"
| "status_number STATUS_FAILED_PRECONDITION = 9"
| "status_number STATUS_ABORTED = 10"
| "status_number STATUS_INTERNAL = 11"
| "status_number STATUS_UNAVAILABLE = 12"
| "status_number STATUS_UNSUPPORTED_MEDIA = 13"

lemma status_number_inj: "status_number a = status_number b \<longleftrightarrow> a = b"
  by (cases a; cases b) simp_all

lemma status_number_zero [simp]: "status_number a = 0 \<longleftrightarrow> a = STATUS_OK"
  using status_number_inj [of a STATUS_OK] by simp

definition CodecProtobuf :: int where "CodecProtobuf = 1"
definition CodecJSON :: int where "CodecJSON = 2"

text \<open>
  Go's run-time types as the sources inspect them: \<open>TPtr n pb\<close> is a pointer to the named type \<open>n\<close>,
  \<open>pb\<close> telling whether it implements \<open>proto.Message\<close>.
\<close>

datatype gotype = TRequestContext | TError | TPtr nat bool | TOther nat

fun is_pointer_kind :: "gotype \<Rightarrow> bool" where
  "is_pointer_kind TRequestContext = True"
| "is_pointer_kind (TPtr _ _) = True"
| "is_pointer_kind TError = False"
| "is_pointer_kind (TOther _) = False"

fun implements_proto :: "gotype \<Rightarrow> bool" where
  "implements_proto (TPtr _ pb) = pb"
| "implements_proto _ = False"

text \<open>A value of type \<open>any\<close> carried as a payload: nil, a \<open>[]byte\<close>, or a value of another type.\<close>

datatype 'v payload = PNil | PBytes "byte list" | PVal gotype 'v

record 'v InvokeResult =
  Payload :: "'v payload"
  Code :: int
  Message :: string

definition OKResult :: "'v payload \<Rightarrow> 'v InvokeResult" where
  "OKResult p = \<lparr>Payload = p, Code = 0, Message = []\<rparr>"

definition ErrorResult :: "StatusCode \<Rightarrow> string \<Rightarrow> 'v InvokeResult" where
  "ErrorResult code message = \<lparr>Payload = PNil, Code = status_number code, Message = message\<rparr>"

text \<open>\<open>OK\<close> takes a possibly nil result.\<close>

definition OK :: "'v InvokeResult option \<Rightarrow> bool" where
  "OK r = (case r of None \<Rightarrow> False | Some x \<Rightarrow> Code x = 0)"

lemma OK_simps [simp]: "OK None = False" "OK (Some x) = (Code x = 0)"
  by (simp_all add: OK_def)

lemma OKResult_simps [simp]:
  "Payload (OKResult p) = p" "Code (OKResult p) = 0" "Message (OKResult p) = []"
  by (simp_all add: OKResult_def)

lemma ErrorResult_simps [simp]:
  "Payload (ErrorResult c m) = PNil" "Code (ErrorResult c m) = status_number c"
  "Message (ErrorResult c m) = m"
  by (simp_all add: ErrorResult_def)

lemma ErrorResult_neq_OKResult [simp]: "c \<noteq> STATUS_OK \<Longrightarrow> ErrorResult c m \<noteq> OKResult p"
  by (auto simp: ErrorResult_def OKResult_def)

section \<open>Request contexts\<close>

datatype TransportType = TransportUnknown | TransportAGP | TransportHTTP | TransportCluster

record RequestContext =
  Context :: "gocontext option"
  RequestID :: u32
  Transport :: TransportType
  Codec :: int
  rc_Session :: "Session option"
  Metadata :: "(string, byte list) gomap option"

definition NewRequestContext :: "gocontext option \<Rightarrow> RequestContext" where
  "NewRequestContext parent =
     \<lparr>Context = Some (case parent of None \<Rightarrow> Background | Some c \<Rightarrow> c), RequestID = 0,
      Transport = TransportUnknown, Codec = 0, rc_Session = None, Metadata = None\<rparr>"

text \<open>
  \<open>cloneMetadata\<close> (\<open>request_context.go\<close>, \<open>connection.go\<close>) and \<open>cloneBytesMap\<close> (\<open>system.go\<close>) have
  the same body: a nil or empty map clones to nil, any other map to a copy.
\<close>

definition cloneMetadata :: "(string, byte list) gomap option \<Rightarrow> (string, byte list) gomap option" where
  "cloneMetadata source =
     (case source of None \<Rightarrow> None | Some m \<Rightarrow> if length m = 0 then None else Some m)"

definition rc_Clone :: "RequestContext option \<Rightarrow> gocontext option \<Rightarrow> RequestContext" where
  "rc_Clone c parent =
     (let parent = (case parent of None \<Rightarrow> Background | Some p \<Rightarrow> p) in
      case c of
        None \<Rightarrow> NewRequestContext (Some parent)
      | Some c \<Rightarrow>
          \<lparr>Context = Some parent, RequestID = RequestID c, Transport = Transport c,
           Codec = Codec c, rc_Session = map_option clone_session (rc_Session c),
           Metadata = cloneMetadata (Metadata c)\<rparr>)"

text \<open>
  \<open>ctx.Err()\<close> and \<open>ctx.Deadline()\<close> of the embedded context. Every constructor of the sources fills
  the embedded context; a hand-made value with a nil one would panic in Go and reads as live here.
\<close>

definition rc_Err :: "RequestContext \<Rightarrow> ctx_error option" where
  "rc_Err c = (case Context c of None \<Rightarrow> None | Some x \<Rightarrow> cx_err x)"

definition rc_Deadline :: "RequestContext \<Rightarrow> int option" where
  "rc_Deadline c = (case Context c of None \<Rightarrow> None | Some x \<Rightarrow> cx_deadline x)"

lemma cloneMetadata_idem [simp]: "cloneMetadata (cloneMetadata m) = cloneMetadata m"
  by (auto simp: cloneMetadata_def split: option.splits)

lemma rc_Clone_fields [simp]:
  "Context (rc_Clone (Some c) (Some p)) = Some p"
  "RequestID (rc_Clone (Some c) (Some p)) = RequestID c"
  "Transport (rc_Clone (Some c) (Some p)) = Transport c"
  "Codec (rc_Clone (Some c) (Some p)) = Codec c"
  "rc_Session (rc_Clone (Some c) (Some p)) = rc_Session c"
  "Metadata (rc_Clone (Some c) (Some p)) = cloneMetadata (Metadata c)"
  by (cases "rc_Session c"; simp add: rc_Clone_def)+

end
