(* ===== verification/Codec_Registry.thy ===== *)
theory Codec_Registry
  imports Request_Context
begin

text \<open>
  The body codecs of \<open>src/net/serializer\<close>: the registry (\<open>registry.go\<close>) that maps the codec number
  carried by a packet to an encoder, and the two built-in codecs (\<open>protobuf.go\<close>, \<open>json.go\<close>). The
  encoders themselves (\<open>proto.Marshal\<close>, \<open>protojson\<close>, \<open>jsoniter\<close>) are third-party code: the record
  \<open>ext_codecs\<close> carries them as parameters. Decoding into a fresh value of a Go type is modelled as
  a function of the bytes and that type. The locale \<open>body_codecs\<close> is the interface the transports
  and mailboxes rely on; it is interpreted on the registry at the end.
\<close>

datatype codec_error =
    InvalidBodyCodec
  | CodecIdTaken int string
  | CodecNotRegistered int
  | UnsupportedBodyCodec int
  | ProtobufWrongValueType
  | LibraryError string

text \<open>An \<open>IBodyCodec\<close> value: its number, name, encoder and decoder.\<close>

record 'v BodyCodec =
  codec_ID :: int
  codec_Name :: string
  codec_Marshal :: "'v payload \<Rightarrow> codec_error + byte list"
  codec_Unmarshal :: "byte list \<Rightarrow> gotype \<Rightarrow> codec_error + 'v"

text \<open>The third-party encoders the built-in codecs call.\<close>

record 'v ext_codecs =
  proto_Marshal :: "gotype \<Rightarrow> 'v \<Rightarrow> codec_error + byte list"
  proto_Unmarshal :: "byte list \<Rightarrow> gotype \<Rightarrow> codec_error + 'v"
  protojson_Marshal :: "gotype \<Rightarrow> 'v \<Rightarrow> codec_error + byte list"
  protojson_Unmarshal :: "byte list \<Rightarrow> gotype \<Rightarrow> codec_error + 'v"
  jsoniter_Marshal :: "'v payload \<Rightarrow> codec_error + byte list"
  jsoniter_Unmarshal :: "byte list \<Rightarrow> gotype \<Rightarrow> codec_error + 'v"

fun pb_Marshal :: "'v ext_codecs \<Rightarrow> 'v payload \<Rightarrow> codec_error + byte list" where
  "pb_Marshal x (PBytes data) = Inr data"
| "pb_Marshal x (PVal t v) =
     (if implements_proto t then proto_Marshal x t v else Inl ProtobufWrongValueType)"
| "pb_Marshal x PNil = Inl ProtobufWrongValueType"

definition pb_Unmarshal :: "'v ext_codecs \<Rightarrow> byte list \<Rightarrow> gotype \<Rightarrow> codec_error + 'v" where
  "pb_Unmarshal x data t =
     (if implements_proto t then proto_Unmarshal x data t else Inl ProtobufWrongValueType)"

definition NewProtobuf :: "'v ext_codecs \<Rightarrow> 'v BodyCodec" where
  "NewProtobuf x = \<lparr>codec_ID = CodecProtobuf, codec_Name = ''protobuf'',
     codec_Marshal = pb_Marshal x, codec_Unmarshal = pb_Unmarshal x\<rparr>"

fun json_Marshal :: "'v ext_codecs \<Rightarrow> 'v payload \<Rightarrow> codec_error + byte list" where
  "json_Marshal x (PBytes data) = Inr data"
| "json_Marshal x (PVal t v) =
     (if implements_proto t then protojson_Marshal x t v else jsoniter_Marshal x (PVal t v))"
| "json_Marshal x PNil = jsoniter_Marshal x PNil"

definition json_Unmarshal :: "'v ext_codecs \<Rightarrow> byte list \<Rightarrow> gotype \<Rightarrow> codec_error + 'v" where
  "json_Unmarshal x data t =
     (if implements_proto t then protojson_Unmarshal x data t else jsoniter_Unmarshal x data t)"

definition NewJSON :: "'v ext_codecs \<Rightarrow> 'v BodyCodec" where
  "NewJSON x = \<lparr>codec_ID = CodecJSON, codec_Name = ''json'',
     codec_Marshal = json_Marshal x, codec_Unmarshal = json_Unmarshal x\<rparr>"

section \<open>The registry\<close>

record 'v Registry =
  codecs :: "int \<rightharpoonup> 'v BodyCodec"
  defaultID :: int

definition reg_Register :: "'v Registry \<Rightarrow> 'v BodyCodec option \<Rightarrow> codec_error + 'v Registry" where
  "reg_Register r codec =
     (case codec of
        None \<Rightarrow> Inl InvalidBodyCodec
      | Some codec \<Rightarrow>
          if codec_ID codec = 0 then Inl InvalidBodyCodec
          else if (case codecs r (codec_ID codec) of
                     Some current \<Rightarrow> codec_Name current \<noteq> codec_Name codec | None \<Rightarrow> False)
          then Inl (CodecIdTaken (codec_ID codec) (codec_Name (the (codecs r (codec_ID codec)))))
          else
            (let r = r\<lparr>codecs := (codecs r)(codec_ID codec \<mapsto> codec)\<rparr> in
             Inr (if defaultID r = 0 then r\<lparr>defaultID := codec_ID codec\<rparr> else r)))"

text \<open>\<open>NewRegistry\<close> panics on the first registration error; the panic is the left value.\<close>

fun register_each :: "'v Registry \<Rightarrow> 'v BodyCodec option list \<Rightarrow> codec_error + 'v Registry" where
  "register_each r [] = Inr r"
| "register_each r (codec # rest) =
     (case reg_Register r codec of Inl e \<Rightarrow> Inl e | Inr r' \<Rightarrow> register_each r' rest)"

definition NewRegistry :: "'v BodyCodec option list \<Rightarrow> codec_error + 'v Registry" where
  "NewRegistry cs =
     (case register_each \<lparr>codecs = Map.empty, defaultID = 0\<rparr> cs of
        Inl e \<Rightarrow> Inl e
      | Inr r \<Rightarrow>
          Inr (if codecs r CodecProtobuf \<noteq> None then r\<lparr>defaultID := CodecProtobuf\<rparr> else r))"

definition reg_Lookup :: "'v Registry \<Rightarrow> int \<Rightarrow> 'v BodyCodec option" where
  "reg_Lookup r i = codecs r i"

definition reg_Default :: "'v Registry \<Rightarrow> int" where
  "reg_Default r = defaultID r"

definition reg_SetDefault :: "'v Registry \<Rightarrow> int \<Rightarrow> codec_error + 'v Registry" where
  "reg_SetDefault r i =
     (case codecs r i of
        None \<Rightarrow> Inl (CodecNotRegistered i)
      | Some _ \<Rightarrow> Inr (r\<lparr>defaultID := i\<rparr>))"

definition reg_Marshal :: "'v Registry \<Rightarrow> int \<Rightarrow> 'v payload \<Rightarrow> codec_error + byte list" where
  "reg_Marshal r i value =
     (case reg_Lookup r i of
        None \<Rightarrow> Inl (UnsupportedBodyCodec i)
      | Some codec \<Rightarrow> codec_Marshal codec value)"

definition reg_Unmarshal :: "'v Registry \<Rightarrow> int \<Rightarrow> byte list \<Rightarrow> gotype \<Rightarrow> codec_error + 'v" where
  "reg_Unmarshal r i data t =
     (case reg_Lookup r i of
        None \<Rightarrow> Inl (UnsupportedBodyCodec i)
      | Some codec \<Rightarrow> codec_Unmarshal codec data t)"

text \<open>\<open>InvokeResult.Decode\<close>: one decode path for local values and remote bytes.\<close>

datatype decode_error =
  DecodeNilResult | DecodeFailed int string | DecodeMissingArgs | DecodeCodec codec_error

definition res_Decode ::
  "'v InvokeResult option \<Rightarrow> 'v Registry option \<Rightarrow> int \<Rightarrow> gotype option \<Rightarrow> decode_error + 'v" where
  "res_Decode r cs codec target =
     (case r of
        None \<Rightarrow> Inl DecodeNilResult
      | Some res \<Rightarrow>
          if \<not> OK r then Inl (DecodeFailed (Code res) (Message res))
          else case (cs, target) of
            (Some cs, Some t) \<Rightarrow>
              (case (case Payload res of
                       PBytes body \<Rightarrow> reg_Unmarshal cs codec body t
                     | p \<Rightarrow> (case reg_Marshal cs codec p of
                               Inl e \<Rightarrow> Inl e
                             | Inr body \<Rightarrow> reg_Unmarshal cs codec body t)) of
                 Inl e \<Rightarrow> Inl (DecodeCodec e)
               | Inr v \<Rightarrow> Inr v)
          | _ \<Rightarrow> Inl DecodeMissingArgs)"

section \<open>Invariant\<close>

text \<open>
  Every codec is stored under its own non-zero number, and the default number, once set, names a
  registered codec.
\<close>

definition reg_inv :: "'v Registry \<Rightarrow> bool" where
  "reg_inv r \<longleftrightarrow>
     (\<forall>i c. codecs r i = Some c \<longrightarrow> codec_ID c = i) \<and> codecs r 0 = None \<and>
     (defaultID r = 0 \<longrightarrow> codecs r = Map.empty) \<and>
     (defaultID r \<noteq> 0 \<longrightarrow> codecs r (defaultID r) \<noteq> None)"

lemma reg_inv_empty: "reg_inv \<lparr>codecs = Map.empty, defaultID = 0\<rparr>"
  by (simp add: reg_inv_def)

lemma reg_Register_inv [go_inv]: "reg_inv r \<Longrightarrow> reg_Register r c = Inr r' \<Longrightarrow> reg_inv r'"
  by (auto simp: reg_inv_def reg_Register_def Let_def split: option.splits if_splits)

lemma register_each_inv: "reg_inv r \<Longrightarrow> register_each r cs = Inr r' \<Longrightarrow> reg_inv r'"
  by (induction r cs rule: register_each.induct)
     (auto split: sum.splits dest: reg_Register_inv)

lemma NewRegistry_inv: "NewRegistry cs = Inr r \<Longrightarrow> reg_inv r"
  using register_each_inv [OF reg_inv_empty]
  by (fastforce simp: NewRegistry_def reg_inv_def CodecProtobuf_def split: sum.splits if_splits)

lemma reg_SetDefault_inv [go_inv]: "reg_inv r \<Longrightarrow> reg_SetDefault r i = Inr r' \<Longrightarrow> reg_inv r'"
  by (auto simp: reg_inv_def reg_SetDefault_def split: option.splits)

text \<open>A codec number never changes its encoding: the name first registered for it stays.\<close>

lemma reg_Register_keeps_name:
  "reg_Register r c = Inr r' \<Longrightarrow> codecs r i = Some k \<Longrightarrow>
   \<exists>k'. codecs r' i = Some k' \<and> codec_Name k' = codec_Name k"
  by (auto simp: reg_Register_def Let_def split: option.splits if_splits)

text \<open>Raw bytes pass through both built-in encoders unchanged.\<close>

lemma builtin_Marshal_bytes [simp]:
  "codec_Marshal (NewProtobuf x) (PBytes b) = Inr b" "codec_Marshal (NewJSON x) (PBytes b) = Inr b"
  by (simp_all add: NewProtobuf_def NewJSON_def)

text \<open>The registry \<open>NewAppNode\<close> builds.\<close>

definition app_registry :: "'v ext_codecs \<Rightarrow> 'v Registry" where
  "app_registry x = \<lparr>codecs = [CodecProtobuf \<mapsto> NewProtobuf x, CodecJSON \<mapsto> NewJSON x],
     defaultID = CodecProtobuf\<rparr>"

lemma NewRegistry_app: "NewRegistry [Some (NewProtobuf x), Some (NewJSON x)] = Inr (app_registry x)"
  by (simp add: NewRegistry_def reg_Register_def app_registry_def NewProtobuf_def NewJSON_def
      CodecProtobuf_def CodecJSON_def Let_def)

section \<open>The interface of the registry\<close>

text \<open>
  What the mailboxes, the gateway and the cluster use of a codec registry: encoding by number,
  decoding by number, the default number, and which numbers are known.
\<close>

locale body_codecs =
  fixes marshal :: "'r \<Rightarrow> int \<Rightarrow> 'v payload \<Rightarrow> codec_error + byte list"
    and unmarshal :: "'r \<Rightarrow> int \<Rightarrow> byte list \<Rightarrow> gotype \<Rightarrow> codec_error + 'v"
    and default_id :: "'r \<Rightarrow> int"
    and known :: "'r \<Rightarrow> int \<Rightarrow> bool"
    and inv :: "'r \<Rightarrow> bool"
  assumes unknown_marshal: "\<not> known r i \<Longrightarrow> marshal r i v = Inl (UnsupportedBodyCodec i)"
    and unknown_unmarshal: "\<not> known r i \<Longrightarrow> unmarshal r i b t = Inl (UnsupportedBodyCodec i)"
    and default_known: "inv r \<Longrightarrow> default_id r \<noteq> 0 \<Longrightarrow> known r (default_id r)"
    and zero_unknown: "inv r \<Longrightarrow> \<not> known r 0"
begin

text \<open>A request that names no codec can only be encoded after the default is substituted.\<close>

lemma zero_needs_default: "inv r \<Longrightarrow> marshal r 0 v = Inl (UnsupportedBodyCodec 0)"
  by (simp add: unknown_marshal zero_unknown)

lemma marshal_known: "marshal r i v = Inr b \<Longrightarrow> known r i"
  using unknown_marshal by fastforce

end

definition reg_known :: "'v Registry \<Rightarrow> int \<Rightarrow> bool" where
  "reg_known r i \<longleftrightarrow> reg_Lookup r i \<noteq> None"

interpretation registry: body_codecs reg_Marshal reg_Unmarshal reg_Default reg_known reg_inv
  by unfold_locales
     (auto simp: reg_Marshal_def reg_Unmarshal_def reg_known_def reg_Lookup_def reg_Default_def reg_inv_def)

text \<open>
  A concrete instance of the third-party encoders for evaluation: values are byte strings, encoded as
  themselves.
\<close>

definition identity_codecs :: "(byte list) ext_codecs" where
  "identity_codecs =
     \<lparr>proto_Marshal = (\<lambda>_ v. Inr v), proto_Unmarshal = (\<lambda>b _. Inr b),
      protojson_Marshal = (\<lambda>_ v. Inr v), protojson_Unmarshal = (\<lambda>b _. Inr b),
      jsoniter_Marshal = (\<lambda>p. case p of PVal _ v \<Rightarrow> Inr v | PBytes v \<Rightarrow> Inr v | PNil \<Rightarrow> Inr []),
      jsoniter_Unmarshal = (\<lambda>b _. Inr b)\<rparr>"

text \<open>Every registry that a sequence of \<open>NewRegistry\<close>, \<open>Register\<close> and \<open>SetDefault\<close> calls builds.\<close>

inductive registry_built :: "'v Registry \<Rightarrow> bool" where
  new: "NewRegistry cs = Inr r \<Longrightarrow> registry_built r"
| register: "registry_built r \<Longrightarrow> reg_Register r c = Inr r' \<Longrightarrow> registry_built r'"
| set_default: "registry_built r \<Longrightarrow> reg_SetDefault r i = Inr r' \<Longrightarrow> registry_built r'"

lemma registry_built_inv: "registry_built r \<Longrightarrow> reg_inv r"
  by (induction rule: registry_built.induct) (auto intro: NewRegistry_inv go_inv)

text \<open>
  In every registry built by \<open>NewRegistry\<close>, \<open>Register\<close> and \<open>SetDefault\<close> that holds a codec, each
  codec sits under its own non-zero number, the default number names a registered codec, and a later
  successful \<open>Register\<close> never gives a number a codec of another name.
\<close>

theorem registry_sound:
  assumes "registry_built r" and "reg_Lookup r i = Some c"
  shows "codec_ID c = i \<and> i \<noteq> 0 \<and>
    (\<exists>d. reg_Lookup r (reg_Default r) = Some d \<and> codec_ID d = reg_Default r) \<and>
    (\<forall>k r'. reg_Register r k = Inr r' \<longrightarrow>
       (\<exists>c'. reg_Lookup r' i = Some c' \<and> codec_Name c' = codec_Name c))"
proof (intro conjI allI impI)
  have inv: "reg_inv r" using assms(1) by (rule registry_built_inv)
  with assms(2) show "codec_ID c = i" "i \<noteq> 0"
    by (auto simp: reg_inv_def reg_Lookup_def)
  have "reg_Default r \<noteq> 0"
    using inv assms(2) by (auto simp: reg_inv_def reg_Lookup_def reg_Default_def)
  with inv obtain d where "reg_Lookup r (reg_Default r) = Some d"
    using registry.default_known [of r] by (auto simp: reg_known_def)
  then show "\<exists>d. reg_Lookup r (reg_Default r) = Some d \<and> codec_ID d = reg_Default r"
    using inv by (auto simp: reg_inv_def reg_Lookup_def)
  show "\<exists>c'. reg_Lookup r' i = Some c' \<and> codec_Name c' = codec_Name c"
    if "reg_Register r k = Inr r'" for k r'
    using reg_Register_keeps_name that assms(2) by (auto simp: reg_Lookup_def)
qed

theorem registry_sound_witness:
  "registry_built (app_registry identity_codecs) \<and>
   (\<exists>d. reg_Lookup (app_registry identity_codecs) (reg_Default (app_registry identity_codecs)) = Some d
        \<and> codec_ID d = 1)"
proof -
  have b: "registry_built (app_registry identity_codecs)"
    by (rule registry_built.new [OF NewRegistry_app])
  have l: "reg_Lookup (app_registry identity_codecs) 2 = Some (NewJSON identity_codecs)"
    by (simp add: reg_Lookup_def app_registry_def CodecProtobuf_def CodecJSON_def)
  from b registry_sound [OF b l] show ?thesis
    by (simp add: reg_Default_def app_registry_def CodecProtobuf_def)
qed

end
