(* ===== verification/Method_Table.thy ===== *)
theory Method_Table
  imports Codec_Registry
begin

text \<open>
  The method catalogue of \<open>src/net/method/table.go\<close> and the handler adapter of
  \<open>src/net/method/invoker.go\<close>. A table maps a method number to the path of the top-level actor that
  serves it and to the kind of message it takes. The adapter inspects the type of a handler function
  by reflection and turns it into a uniform \<open>TypedInvoke\<close>. The locale \<open>method_routes\<close> states what
  the transports rely on; it is interpreted on the table.
\<close>

section \<open>The table\<close>

datatype MsgType = REQUEST | RESPONSE | NOTIFY | MsgTypeOther int

text \<open>System method numbers (\<open>agp_validator.go\<close>), reserved for connection control.\<close>

definition SystemMethodHandshake :: u32 where "SystemMethodHandshake = 1"
definition SystemMethodHeartbeat :: u32 where "SystemMethodHeartbeat = 2"
definition SystemMethodCancel :: u32 where "SystemMethodCancel = 3"
definition SystemMethodGoAway :: u32 where "SystemMethodGoAway = 4"
definition SystemMethodKick :: u32 where "SystemMethodKick = 5"

lemmas system_methods [go_defs] =
  SystemMethodHandshake_def SystemMethodHeartbeat_def SystemMethodCancel_def
  SystemMethodGoAway_def SystemMethodKick_def

record registeredMethod =
  rm_msgType :: MsgType
  rm_target :: string

record Table =
  tab_app :: bool
  byID :: "u32 \<rightharpoonup> registeredMethod"

datatype table_error =
    TableNotInitialized
  | MethodIdReserved u32
  | TargetNotTopLevel string
  | InvalidMsgType MsgType
  | MethodIdTaken u32 string

definition NewTable :: "bool \<Rightarrow> Table" where
  "NewTable app = \<lparr>tab_app = app, byID = Map.empty\<rparr>"

text \<open>The receiver may be a nil pointer, hence the option.\<close>

definition tab_Register ::
  "Table option \<Rightarrow> u32 \<Rightarrow> string \<Rightarrow> MsgType \<Rightarrow> table_error + Table" where
  "tab_Register r methodID target msgType =
     (case r of
        None \<Rightarrow> Inl TableNotInitialized
      | Some r \<Rightarrow>
          if \<not> tab_app r then Inl TableNotInitialized
          else if methodID \<le> SystemMethodKick then Inl (MethodIdReserved methodID)
          else if (case ToActorPath target of Inl _ \<Rightarrow> True | Inr path \<Rightarrow> IsChild (Some path))
            then Inl (TargetNotTopLevel target)
          else if msgType \<noteq> REQUEST \<and> msgType \<noteq> NOTIFY then Inl (InvalidMsgType msgType)
          else (case byID r methodID of
                  Some current \<Rightarrow> Inl (MethodIdTaken methodID (rm_target current))
                | None \<Rightarrow>
                    Inr (r\<lparr>byID := (byID r)(methodID \<mapsto> \<lparr>rm_msgType = msgType, rm_target = target\<rparr>)\<rparr>)))"

definition UnregisterTarget :: "Table \<Rightarrow> string \<Rightarrow> Table" where
  "UnregisterTarget r target =
     (if target = [] then r
      else r\<lparr>byID := (\<lambda>methodID. case byID r methodID of
               None \<Rightarrow> None
             | Some entry \<Rightarrow> if rm_target entry = target then None else Some entry)\<rparr>)"

definition tab_lookup :: "Table option \<Rightarrow> u32 \<Rightarrow> registeredMethod option" where
  "tab_lookup r methodID = (case r of None \<Rightarrow> None | Some r \<Rightarrow> byID r methodID)"

definition tab_MsgType :: "Table option \<Rightarrow> u32 \<Rightarrow> MsgType option" where
  "tab_MsgType r methodID =
     (case tab_lookup r methodID of None \<Rightarrow> None | Some entry \<Rightarrow> Some (rm_msgType entry))"

definition tab_Target :: "Table option \<Rightarrow> u32 \<Rightarrow> string option" where
  "tab_Target r methodID =
     (case tab_lookup r methodID of None \<Rightarrow> None | Some entry \<Rightarrow> Some (rm_target entry))"

text \<open>
  A call into the actor system has its result, or still waits for one on a numbered result
  channel under a request context, or panicked. \<open>Dispatch\<close> ends in such a call: \<open>notify\<close> and
  \<open>invoke\<close> stand for \<open>NotifyTarget\<close> and \<open>InvokeTarget\<close> and thread the state of the system.
\<close>

datatype 'v call = Returned "'v InvokeResult" | Await nat RequestContext | CallPanic go_panic

type_synonym ('s, 'v) target_call =
  "RequestContext \<Rightarrow> string \<Rightarrow> u32 \<Rightarrow> 'v payload \<Rightarrow> 's \<Rightarrow> 'v call \<times> 's"

definition Dispatch ::
  "('s, 'v) target_call \<Rightarrow> ('s, 'v) target_call \<Rightarrow> int \<Rightarrow> Table option \<Rightarrow>
   RequestContext option \<Rightarrow> u32 \<Rightarrow> byte list \<Rightarrow> MsgType \<Rightarrow> 's \<Rightarrow> 'v call \<times> 's" where
  "Dispatch notify invoke dflt r ctx methodID body msgType s =
     (case tab_lookup r methodID of
        None \<Rightarrow> (Returned (ErrorResult STATUS_NOT_FOUND ''method not found''), s)
      | Some entry \<Rightarrow>
          if rm_msgType entry \<noteq> msgType then
            (Returned (ErrorResult STATUS_FAILED_PRECONDITION
               ''method message type does not match request message type''), s)
          else
            let ctx = (case ctx of None \<Rightarrow> NewRequestContext (Some Background) | Some c \<Rightarrow> c);
                ctx = (if Codec ctx = 0 then ctx\<lparr>Codec := dflt\<rparr> else ctx)
            in case rc_Err ctx of
                 Some DeadlineExceeded \<Rightarrow>
                   (Returned (ErrorResult STATUS_DEADLINE_EXCEEDED ''request deadline exceeded''), s)
               | Some ContextCanceled \<Rightarrow>
                   (Returned (ErrorResult STATUS_CANCELLED ''request cancelled''), s)
               | None \<Rightarrow>
                   if msgType = NOTIFY then notify ctx (rm_target entry) methodID (PBytes body) s
                   else invoke ctx (rm_target entry) methodID (PBytes body) s)"

section \<open>Invariant of the table\<close>

text \<open>
  Only application method numbers are routed, only to top-level paths, and only as requests or
  notifications.
\<close>

definition top_level :: "string \<Rightarrow> bool" where
  "top_level target = (case ToActorPath target of Inl _ \<Rightarrow> False | Inr p \<Rightarrow> ChildID p = [])"

definition tab_inv :: "Table \<Rightarrow> bool" where
  "tab_inv r \<longleftrightarrow> (\<forall>m e. byID r m = Some e \<longrightarrow>
     m > SystemMethodKick \<and> top_level (rm_target e) \<and> rm_msgType e \<in> {REQUEST, NOTIFY})"

lemma NewTable_inv: "tab_inv (NewTable a)"
  by (simp add: tab_inv_def NewTable_def)

lemma tab_Register_Inr:
  "tab_Register (Some r) m t mt = Inr r' \<longleftrightarrow>
   tab_app r \<and> m > SystemMethodKick \<and> top_level t \<and> mt \<in> {REQUEST, NOTIFY} \<and> byID r m = None \<and>
   r' = r\<lparr>byID := (byID r)(m \<mapsto> \<lparr>rm_msgType = mt, rm_target = t\<rparr>)\<rparr>"
  by (auto simp: tab_Register_def top_level_def IsChild_def not_le split: sum.splits option.splits)

lemma tab_Register_inv [go_inv]:
  "tab_inv r \<Longrightarrow> tab_Register (Some r) m t mt = Inr r' \<Longrightarrow> tab_inv r'"
  by (auto simp: tab_inv_def tab_Register_Inr split: if_splits)

lemma byID_Unregister:
  "t \<noteq> [] \<Longrightarrow> byID (UnregisterTarget r t) m =
     (case byID r m of None \<Rightarrow> None | Some e \<Rightarrow> if rm_target e = t then None else Some e)"
  by (simp add: UnregisterTarget_def)

lemma Unregister_inv [go_inv]: "tab_inv r \<Longrightarrow> tab_inv (UnregisterTarget r t)"
  by (cases "t = []")
     (auto simp: tab_inv_def byID_Unregister UnregisterTarget_def split: option.splits if_splits)

lemma Unregister_app [simp]: "tab_app (UnregisterTarget r t) = tab_app r"
  by (simp add: UnregisterTarget_def)

lemma Target_Unregister:
  "t \<noteq> [] \<Longrightarrow> tab_Target (Some (UnregisterTarget r t)) m = Some u \<longleftrightarrow>
     tab_Target (Some r) m = Some u \<and> u \<noteq> t"
  by (auto simp: tab_Target_def tab_lookup_def byID_Unregister split: option.splits if_splits)

section \<open>The interface of the table\<close>

text \<open>
  A routing table for its clients: what \<open>route\<close> answers after a registration and after a target is
  withdrawn, and that a registration succeeds only for a free number.
\<close>

locale method_routes =
  fixes route :: "'t \<Rightarrow> u32 \<Rightarrow> string option"
    and register :: "'t \<Rightarrow> u32 \<Rightarrow> string \<Rightarrow> MsgType \<Rightarrow> table_error + 't"
    and withdraw :: "'t \<Rightarrow> string \<Rightarrow> 't"
    and inv :: "'t \<Rightarrow> bool"
  assumes register_route: "register t m p k = Inr t' \<Longrightarrow> route t' = (route t)(m \<mapsto> p)"
    and register_fresh: "register t m p k = Inr t' \<Longrightarrow> route t m = None"
    and register_inv: "inv t \<Longrightarrow> register t m p k = Inr t' \<Longrightarrow> inv t'"
    and withdraw_route: "p \<noteq> [] \<Longrightarrow> route (withdraw t p) m = (if route t m = Some p then None else route t m)"
    and withdraw_inv: "inv t \<Longrightarrow> inv (withdraw t p)"
    and route_top_level: "inv t \<Longrightarrow> route t m = Some p \<Longrightarrow> top_level p \<and> m > SystemMethodKick"
begin

text \<open>Registering a list of methods for one target, stopping at the first failure.\<close>

fun register_list :: "'t \<Rightarrow> string \<Rightarrow> (u32 \<times> MsgType) list \<Rightarrow> 't \<times> bool" where
  "register_list t p [] = (t, True)"
| "register_list t p ((m, k) # ms) =
     (case register t m p k of Inl _ \<Rightarrow> (t, False) | Inr t' \<Rightarrow> register_list t' p ms)"

lemma register_list_extends:
  "route (fst (register_list t p ms)) m = route t m \<or>
   route t m = None \<and> route (fst (register_list t p ms)) m = Some p"
proof (induction t p ms rule: register_list.induct)
  case (2 t p n k ms)
  show ?case
  proof (cases "register t n p k")
    case (Inr t')
    then have "route t' = (route t)(n \<mapsto> p)" "route t n = None"
      by (rule register_route, rule register_fresh)
    with "2.IH" [OF Inr] Inr show ?thesis by (auto split: if_splits)
  qed simp
qed simp

text \<open>Rollback: withdrawing the target undoes any prefix of its registrations, and nothing else.\<close>

lemma withdraw_undoes:
  assumes "p \<noteq> []" and "\<forall>m. route t m \<noteq> Some p"
  shows "route (withdraw (fst (register_list t p ms)) p) m = route t m"
  using register_list_extends [of t p ms m] assms by (auto simp: withdraw_route)

end

definition table_register :: "Table \<Rightarrow> u32 \<Rightarrow> string \<Rightarrow> MsgType \<Rightarrow> table_error + Table" where
  "table_register t = tab_Register (Some t)"

definition table_route :: "Table \<Rightarrow> u32 \<Rightarrow> string option" where
  "table_route t = tab_Target (Some t)"

interpretation table: method_routes table_route table_register UnregisterTarget tab_inv
proof (unfold_locales, goal_cases)
  case (1 t m p k t')
  then show ?case
    by (auto simp: table_register_def tab_Register_Inr table_route_def tab_Target_def tab_lookup_def)
next
  case (2 t m p k t')
  then show ?case
    by (auto simp: table_register_def tab_Register_Inr table_route_def tab_Target_def tab_lookup_def)
next
  case (3 t m p k t')
  then show ?case by (auto simp: table_register_def intro: go_inv)
next
  case (4 p t m)
  then show ?case
    by (auto simp: table_route_def tab_Target_def tab_lookup_def byID_Unregister split: option.splits)
next
  case (5 t p)
  then show ?case by (rule Unregister_inv)
next
  case (6 t m p)
  then show ?case
    by (auto simp: table_route_def tab_Target_def tab_lookup_def tab_inv_def split: option.splits)
qed

section \<open>The handler adapter\<close>

text \<open>
  A handler passed to \<open>Register\<close> is an arbitrary Go value. \<open>hf_func\<close> tells whether it is a non-nil
  function, \<open>hf_in\<close> and \<open>hf_out\<close> are its parameter and result types, and \<open>hf_call\<close> is the business
  code: it may change the private state \<open>'h\<close> of its actor, and it panics or returns the pair of a
  possibly nil response and an optional error (the response is absent for a notify handler).
\<close>

datatype goerr = InvokeError int string | PlainError string

datatype 'v biz = BizPanic go_panic | BizReturn "(gotype \<times> 'v) option" "goerr option"

record ('v, 'h) handler_fn =
  hf_func :: bool
  hf_in :: "gotype list"
  hf_out :: "gotype list"
  hf_call :: "'h \<Rightarrow> RequestContext \<Rightarrow> 'v \<Rightarrow> 'h \<times> 'v biz"

type_synonym ('v, 'h) TypedInvoke =
  "'h \<Rightarrow> RequestContext option \<Rightarrow> 'v payload \<Rightarrow> 'h \<times> (go_panic + 'v InvokeResult)"

record ('v, 'h) adaptedHandler =
  ah_msgType :: MsgType
  ah_requestGoType :: gotype
  ah_protobuf :: bool
  ah_invoke :: "('v, 'h) TypedInvoke"

datatype adapt_error =
  HandlerNil | HandlerNotFunction | HandlerParams | HandlerMixedProtobuf | HandlerReturns

definition resultFromError :: "goerr option \<Rightarrow> 'v InvokeResult" where
  "resultFromError err =
     (case err of
        None \<Rightarrow> OKResult PNil
      | Some (InvokeError code message) \<Rightarrow> \<lparr>Payload = PNil, Code = code, Message = message\<rparr>
      | Some (PlainError _) \<Rightarrow> ErrorResult STATUS_INTERNAL ''internal error'')"

definition requestValue :: "'v payload \<Rightarrow> gotype \<Rightarrow> 'v InvokeResult + 'v" where
  "requestValue p requestGoType =
     (case p of
        PNil \<Rightarrow> Inl (ErrorResult STATUS_INTERNAL ''actor method received a nil request'')
      | PBytes _ \<Rightarrow> Inl (ErrorResult STATUS_INTERNAL ''actor request type mismatch'')
      | PVal t v \<Rightarrow>
          if t \<noteq> requestGoType then Inl (ErrorResult STATUS_INTERNAL ''actor request type mismatch'')
          else Inr v)"

definition buildInvoke ::
  "('v, 'h) handler_fn \<Rightarrow> gotype \<Rightarrow> bool \<Rightarrow> ('v, 'h) TypedInvoke" where
  "buildInvoke handler requestGoType unary = (\<lambda>h ctx p.
     let ctx = (case ctx of None \<Rightarrow> NewRequestContext None | Some c \<Rightarrow> c) in
     case requestValue p requestGoType of
       Inl failure \<Rightarrow> (h, Inr failure)
     | Inr request \<Rightarrow>
         (case hf_call handler h ctx request of
            (h', BizPanic e) \<Rightarrow> (h', Inl e)
          | (h', BizReturn response err) \<Rightarrow>
              (h', Inr
                 (if unary then
                    (if err \<noteq> None then resultFromError err
                     else case response of
                            None \<Rightarrow> ErrorResult STATUS_INTERNAL ''actor method returned a nil response''
                          | Some (t, v) \<Rightarrow> OKResult (PVal t v))
                  else if err \<noteq> None then resultFromError err
                  else OKResult PNil))))"

definition adapt :: "('v, 'h) handler_fn option \<Rightarrow> adapt_error + ('v, 'h) adaptedHandler" where
  "adapt handler =
     (case handler of
        None \<Rightarrow> Inl HandlerNil
      | Some f \<Rightarrow>
          if \<not> hf_func f then Inl HandlerNotFunction
          else if length (hf_in f) \<noteq> 2 \<or> hf_in f ! 0 \<noteq> TRequestContext \<or>
                  \<not> is_pointer_kind (hf_in f ! 1)
            then Inl HandlerParams
          else
            (let requestGoType = hf_in f ! 1; protobuf = implements_proto requestGoType in
             if length (hf_out f) = 2 \<and> is_pointer_kind (hf_out f ! 0) \<and> hf_out f ! 1 = TError then
               (if implements_proto (hf_out f ! 0) \<noteq> protobuf then Inl HandlerMixedProtobuf
                else Inr \<lparr>ah_msgType = REQUEST, ah_requestGoType = requestGoType, ah_protobuf = protobuf,
                          ah_invoke = buildInvoke f requestGoType True\<rparr>)
             else if length (hf_out f) = 1 \<and> hf_out f ! 0 = TError then
               Inr \<lparr>ah_msgType = NOTIFY, ah_requestGoType = requestGoType, ah_protobuf = protobuf,
                    ah_invoke = buildInvoke f requestGoType False\<rparr>
             else Inl HandlerReturns))"

definition AdaptHandler :: "('v, 'h) handler_fn option \<Rightarrow> adapt_error + ('v, 'h) adaptedHandler" where
  "AdaptHandler handler = (case adapt handler of Inl e \<Rightarrow> Inl e | Inr a \<Rightarrow> Inr a)"

lemma adapt_msgType: "adapt f = Inr a \<Longrightarrow> ah_msgType a \<in> {REQUEST, NOTIFY}"
  by (auto simp: adapt_def Let_def split: option.splits if_splits)

lemma adapt_protobuf: "adapt f = Inr a \<Longrightarrow> ah_protobuf a = implements_proto (ah_requestGoType a)"
  by (auto simp: adapt_def Let_def split: option.splits if_splits)

text \<open>An adapted handler is reached only with a value of its own request type.\<close>

lemma buildInvoke_type:
  "(\<nexists>v. p = PVal t v) \<Longrightarrow>
   \<exists>r. buildInvoke f t u h ctx p = (h, Inr r) \<and> Code r = status_number STATUS_INTERNAL"
  by (cases p) (auto simp: buildInvoke_def requestValue_def Let_def)

text \<open>A unary handler's successful result always carries a response value.\<close>

lemma buildInvoke_unary_response:
  assumes "buildInvoke f t True h ctx p = (h', Inr r)" and "Code r = 0"
    and "\<And>c h v h'' resp m. hf_call f h c v \<noteq> (h'', BizReturn resp (Some (InvokeError 0 m)))"
  shows "\<exists>rt rv. Payload r = PVal rt rv"
  using assms
  by (auto simp: buildInvoke_def requestValue_def Let_def resultFromError_def
      split: sum.splits prod.splits biz.splits if_splits option.splits goerr.splits payload.splits)

section \<open>Properties\<close>

text \<open>Every table that registrations and withdrawals build.\<close>

inductive table_built :: "Table \<Rightarrow> bool" where
  new: "table_built (NewTable a)"
| register: "table_built r \<Longrightarrow> tab_Register (Some r) m t k = Inr r' \<Longrightarrow> table_built r'"
| unregister: "table_built r \<Longrightarrow> table_built (UnregisterTarget r t)"

lemma table_built_inv: "table_built r \<Longrightarrow> tab_inv r"
  by (induction rule: table_built.induct) (auto intro: go_inv NewTable_inv)


definition demo_table :: Table where
  "demo_table = \<lparr>tab_app = True, byID = [7 \<mapsto> \<lparr>rm_msgType = REQUEST, rm_target = ''n.echo''\<rparr>]\<rparr>"

lemma demo_table_built: "table_built demo_table"
proof -
  have "tab_Register (Some (NewTable True)) 7 ''n.echo'' REQUEST = Inr demo_table"
    by (simp add: tab_Register_def NewTable_def demo_table_def system_methods ToActorPath_def DOT_def
        IsChild_def NewActorPath_def)
  then show ?thesis by (rule table_built.register [OF table_built.new])
qed


text \<open>
  Withdrawing an actor's path after any number of its methods were registered restores every
  route of the table: a failed initialisation leaves no trace, and no other actor's route changes.
\<close>

theorem UnregisterTarget_rolls_back:
  assumes "p \<noteq> []" and "\<forall>m. table_route r m \<noteq> Some p"
  shows "table_route (UnregisterTarget (fst (table.register_list r p ms)) p) m = table_route r m"
  using assms by (rule table.withdraw_undoes)

theorem UnregisterTarget_rolls_back_witness:
  "table_route (UnregisterTarget (fst (table.register_list demo_table ''n.chat'' [(8, REQUEST), (7, NOTIFY)]))
     ''n.chat'') 7 = Some ''n.echo''"
proof -
  have "\<forall>m. table_route demo_table m \<noteq> Some ''n.chat''"
    by (auto simp: table_route_def tab_Target_def tab_lookup_def demo_table_def split: if_splits)
  from UnregisterTarget_rolls_back [OF _ this, of "[(8, REQUEST), (7, NOTIFY)]" 7] show ?thesis
    by (simp add: table_route_def tab_Target_def tab_lookup_def demo_table_def)
qed

end
