(* ===== verification/Actor_Model.thy ===== *)
theory Actor_Model
  imports Method_Table
begin

text \<open>
  The actor runtime of \<open>src/net/actor\<close>: actors with a mailbox, an event queue and children
  (\<open>actor.go\<close>, \<open>actor_mailbox.go\<close>, \<open>actor_event.go\<close>, \<open>actor_child.go\<close>), the actor system that
  routes to them (\<open>system.go\<close>) and its component (\<open>component.go\<close>).

  Pointers to actors are numbers into a heap of actors, so an actor that left the maps is still there.
  The two queues are the lists that \<open>Mpsc_Queue\<close> shows them to be. A result channel is the list of the
  results sent to it: its buffer holds one, so a second send would block its actor for ever. Business
  code is data: the calls its \<open>OnInit\<close> makes, functions on a private state \<open>'h\<close> for the hooks and the
  handlers. The framework calls a handler makes while it runs are separate calls of the environment.
\<close>

section \<open>Messages\<close>

record 'v Message =
  MethodID :: u32
  Target :: string
  targetPath :: "ActorPath option"
  msg_Context :: "RequestContext option"
  msg_Payload :: "'v payload"
  ChanInvokeResult :: "nat option"
  Cancel :: bool

text \<open>The pool hands out cleared messages, so \<open>Recycle\<close> answers what \<open>GetMessage\<close> answers.\<close>

definition GetMessage :: "'v Message" where
  "GetMessage = \<lparr>MethodID = 0, Target = [], targetPath = None, msg_Context = None, msg_Payload = PNil,
     ChanInvokeResult = None, Cancel = False\<rparr>"

definition Recycle :: "'v Message \<Rightarrow> 'v Message" where
  "Recycle m = m\<lparr>MethodID := 0, Target := [], targetPath := None, msg_Context := None,
     msg_Payload := PNil, ChanInvokeResult := None, Cancel := False\<rparr>"

definition TargetPath :: "'v Message \<Rightarrow> ActorPath option \<times> 'v Message" where
  "TargetPath m =
     (case targetPath m of
        Some p \<Rightarrow> (Some p, m)
      | None \<Rightarrow>
          (let tp = (case ToActorPath (Target m) of Inl _ \<Rightarrow> None | Inr p \<Rightarrow> Some p) in
           (tp, m\<lparr>targetPath := tp\<rparr>)))"

definition typedMessage :: "RequestContext \<Rightarrow> string \<Rightarrow> u32 \<Rightarrow> 'v payload \<Rightarrow> 'v Message" where
  "typedMessage ctx target methodID p =
     GetMessage\<lparr>MethodID := methodID, Target := target, msg_Context := Some ctx, msg_Payload := p\<rparr>"

section \<open>Actors, application and system\<close>

datatype State = InitState | WorkerState | StopState

record 'v EventData =
  ev_Name :: string
  ev_UniqueID :: int
  ev_Value :: 'v

type_synonym ('v, 'h) event_fn = "'h \<Rightarrow> 'v EventData \<Rightarrow> 'h \<times> go_panic option"

text \<open>The framework calls an \<open>OnInit\<close> hook can make on its own actor, or a panic of its own.\<close>

datatype ('v, 'h) init_call =
    InitRegister u32 "('v, 'h) handler_fn option"
  | InitEvent string "('v, 'h) event_fn" "int option"
  | InitUnregisterEvent string
  | InitPanic go_panic

text \<open>
  A handler: its alias, its hooks and its initial private state. \<open>OnFindChild\<close> answers no actor, a
  pointer it holds, or the child it creates with \<open>Child().Create\<close>.
\<close>

datatype ('v, 'h) IActorHandler =
    Handler (AliasID: string) (OnInit: "('v, 'h) init_call list")
      (OnFindChild: "'h \<Rightarrow> 'v Message \<Rightarrow> ('v, 'h) found")
      (OnStop: "'h \<Rightarrow> 'h \<times> go_panic option") (priv0: 'h)
and ('v, 'h) found = NotFound | FoundActor nat | FoundNew string "('v, 'h) IActorHandler"

record ('v, 'h) methodEntry =
  me_invoke :: "('v, 'h) TypedInvoke"
  me_requestGoType :: gotype
  me_supportsProtobuf :: bool

datatype actor_error =
  ErrActorIDIsNil | ErrForbiddenCreateChildActor | InitializationFailed string go_panic

record ('v, 'h) Actor =
  a_path :: ActorPath
  a_state :: State
  a_close :: bool
  a_handler :: "('v, 'h) IActorHandler"
  a_priv :: 'h
  a_mail :: "'v Message list"
  a_methodMap :: "u32 \<rightharpoonup> ('v, 'h) methodEntry"
  a_events :: "'v EventData list"
  a_funcMap :: "(string, ('v, 'h) event_fn list) gomap"
  a_children :: "(string, nat) gomap"
  a_lastAt :: int
  a_initDone :: "actor_error option option"
  a_destroyed :: bool
  a_exited :: bool

text \<open>The message between nodes and the cluster component behind its interface.\<close>

record ClusterMessage =
  cm_MessageId :: u64
  cm_MsgType :: MsgType
  cm_RequestId :: u32
  cm_MethodId :: u32
  cm_DeadlineUnixMs :: int
  cm_TargetPath :: string
  cm_Session :: "Session option"
  cm_Metadata :: "(string, byte list) gomap option"
  cm_Codec :: int
  cm_Payload :: "byte list"
  cm_Code :: int
  cm_Message :: string

record Cluster =
  cl_Request :: "string \<Rightarrow> ClusterMessage \<Rightarrow> int \<Rightarrow> string + ClusterMessage"
  cl_Publish :: "string \<Rightarrow> ClusterMessage \<Rightarrow> string option"

record 'v App =
  app_NodeID :: string
  app_Methods :: "Table option"
  app_BodyCodecs :: "'v Registry"
  app_Cluster :: "Cluster option"

text \<open>
  The system. Beside its own fields: the heap of actors, the result channels, the clock, the calls it
  made to the cluster, the number of pooled messages in use, and whether a goroutine died of a panic
  nobody recovers (which ends the process).
\<close>

record ('v, 'h) System =
  sys_app :: "'v App option"
  sys_actorMap :: "(string, nat) gomap"
  sys_actorEventMap :: "(string, (string, int option) gomap) gomap"
  sys_wg :: int
  sys_callTimeout :: int
  sys_messageSeq :: u64
  sys_executionTimeout :: int
  sys_heap :: "nat \<Rightarrow> ('v, 'h) Actor option"
  sys_next :: nat
  sys_chans :: "nat \<Rightarrow> 'v InvokeResult list"
  sys_nextch :: nat
  sys_now :: int
  sys_sent :: "(string \<times> ClusterMessage) list"
  sys_live :: int
  sys_crashed :: bool

text \<open>Durations count nanoseconds; the default call timeout is three seconds.\<close>

definition NewSystem :: "('v, 'h) System" where
  "NewSystem = \<lparr>sys_app = None, sys_actorMap = [], sys_actorEventMap = [], sys_wg = 0,
     sys_callTimeout = 3000000000, sys_messageSeq = 0, sys_executionTimeout = 100,
     sys_heap = (\<lambda>_. None), sys_next = 0, sys_chans = (\<lambda>_. []), sys_nextch = 0, sys_now = 0,
     sys_sent = [], sys_live = 0, sys_crashed = False\<rparr>"

definition SetApp :: "'v App option \<Rightarrow> ('v, 'h) System \<Rightarrow> ('v, 'h) System" where
  "SetApp app s = s\<lparr>sys_app := app\<rparr>"

definition sys_NodeID :: "('v, 'h) System \<Rightarrow> string" where
  "sys_NodeID s = (case sys_app s of None \<Rightarrow> [] | Some app \<Rightarrow> app_NodeID app)"

definition SetCallTimeout :: "int \<Rightarrow> ('v, 'h) System \<Rightarrow> ('v, 'h) System" where
  "SetCallTimeout d s = s\<lparr>sys_callTimeout := d\<rparr>"

definition SetExecutionTimeout :: "int \<Rightarrow> ('v, 'h) System \<Rightarrow> ('v, 'h) System" where
  "SetExecutionTimeout t s = (if t > 1 then s\<lparr>sys_executionTimeout := t\<rparr> else s)"

text \<open>Access to the heap: an update through a dangling pointer does nothing.\<close>

definition upd_actor ::
  "nat \<Rightarrow> (('v, 'h) Actor \<Rightarrow> ('v, 'h) Actor) \<Rightarrow> ('v, 'h) System \<Rightarrow> ('v, 'h) System" where
  "upd_actor a f s =
     (case sys_heap s a of None \<Rightarrow> s | Some x \<Rightarrow> s\<lparr>sys_heap := (sys_heap s)(a \<mapsto> f x)\<rparr>)"

definition GetActor :: "('v, 'h) System \<Rightarrow> string \<Rightarrow> nat option" where
  "GetActor s i = map_of (sys_actorMap s) i"

definition child_GetActor :: "('v, 'h) Actor \<Rightarrow> string \<Rightarrow> nat option" where
  "child_GetActor x childID = map_of (a_children x) childID"

definition GetChildActor :: "('v, 'h) System \<Rightarrow> string \<Rightarrow> string \<Rightarrow> nat option" where
  "GetChildActor s actorID childID =
     (case GetActor s actorID of
        None \<Rightarrow> None
      | Some a \<Rightarrow> (case sys_heap s a of None \<Rightarrow> None | Some x \<Rightarrow> child_GetActor x childID))"

definition GetActorWithPath :: "('v, 'h) System \<Rightarrow> string \<Rightarrow> nat option" where
  "GetActorWithPath s path =
     (case ToActorPath path of
        Inl _ \<Rightarrow> None
      | Inr p \<Rightarrow>
          if IsChild (Some p) then GetChildActor s (ActorID p) (ChildID p) else GetActor s (ActorID p))"

definition removeActor :: "string \<Rightarrow> ('v, 'h) System \<Rightarrow> ('v, 'h) System" where
  "removeActor i s = s\<lparr>sys_actorMap := AList.delete i (sys_actorMap s)\<rparr>"

definition actor_ActorID :: "('v, 'h) Actor \<Rightarrow> string" where
  "actor_ActorID x = (if IsChild (Some (a_path x)) then ChildID (a_path x) else ActorID (a_path x))"

definition PathString :: "('v, 'h) Actor \<Rightarrow> string" where
  "PathString x = path_String (a_path x)"

text \<open>\<open>Exit\<close>: a send on the close channel of capacity one that is skipped when it is full.\<close>

definition Exit :: "nat \<Rightarrow> ('v, 'h) System \<Rightarrow> ('v, 'h) System" where
  "Exit a s = upd_actor a (\<lambda>x. x\<lparr>a_close := True\<rparr>) s"

section \<open>Events\<close>

definition addActorEvent ::
  "string \<Rightarrow> string \<Rightarrow> int option \<Rightarrow> ('v, 'h) System \<Rightarrow> ('v, 'h) System" where
  "addActorEvent actorPath eventName uniqueID s =
     (let eventMap = (case map_of (sys_actorEventMap s) eventName of None \<Rightarrow> [] | Some m \<Rightarrow> m) in
      s\<lparr>sys_actorEventMap :=
          AList.update eventName (AList.update actorPath uniqueID eventMap) (sys_actorEventMap s)\<rparr>)"

fun removeActorEvent :: "string \<Rightarrow> string list \<Rightarrow> ('v, 'h) System \<Rightarrow> ('v, 'h) System" where
  "removeActorEvent actorPath [] s = s"
| "removeActorEvent actorPath (eventName # eventNames) s =
     removeActorEvent actorPath eventNames
       (case map_of (sys_actorEventMap s) eventName of
          None \<Rightarrow> s
        | Some m \<Rightarrow>
            s\<lparr>sys_actorEventMap :=
                AList.update eventName (AList.delete actorPath m) (sys_actorEventMap s)\<rparr>)"

definition event_Register ::
  "nat \<Rightarrow> string \<Rightarrow> ('v, 'h) event_fn \<Rightarrow> int option \<Rightarrow> ('v, 'h) System \<Rightarrow> ('v, 'h) System" where
  "event_Register a name fn uniqueID s =
     (case sys_heap s a of
        None \<Rightarrow> s
      | Some x \<Rightarrow>
          upd_actor a (\<lambda>x. x\<lparr>a_funcMap :=
              AList.update name ((case map_of (a_funcMap x) name of None \<Rightarrow> [] | Some fs \<Rightarrow> fs) @ [fn])
                (a_funcMap x)\<rparr>)
            (addActorEvent (PathString x) name uniqueID s))"

definition Registers ::
  "nat \<Rightarrow> string list \<Rightarrow> ('v, 'h) event_fn \<Rightarrow> int option \<Rightarrow> ('v, 'h) System \<Rightarrow> ('v, 'h) System" where
  "Registers a names fn uniqueID s = fold (\<lambda>name. event_Register a name fn uniqueID) names s"

definition Unregister :: "nat \<Rightarrow> string \<Rightarrow> ('v, 'h) System \<Rightarrow> ('v, 'h) System" where
  "Unregister a name s =
     (case sys_heap s a of
        None \<Rightarrow> s
      | Some x \<Rightarrow>
          upd_actor a (\<lambda>x. x\<lparr>a_funcMap := AList.delete name (a_funcMap x)\<rparr>)
            (removeActorEvent (PathString x) [name] s))"

definition EventNames :: "('v, 'h) Actor \<Rightarrow> string list" where
  "EventNames x = map fst (a_funcMap x)"

definition event_Push :: "'v EventData \<Rightarrow> ('v, 'h) Actor \<Rightarrow> ('v, 'h) Actor" where
  "event_Push data x = x\<lparr>a_events := a_events x @ [data]\<rparr>"

text \<open>The subscriber functions run in order until one panics; the panic is recovered.\<close>

fun run_event_fns :: "('v, 'h) event_fn list \<Rightarrow> 'v EventData \<Rightarrow> 'h \<Rightarrow> 'h" where
  "run_event_fns [] data h = h"
| "run_event_fns (f # fs) data h =
     (case f h data of (h', Some _) \<Rightarrow> h' | (h', None) \<Rightarrow> run_event_fns fs data h')"

definition event_invokeFunc :: "'v EventData \<Rightarrow> ('v, 'h) Actor \<Rightarrow> ('v, 'h) Actor" where
  "event_invokeFunc data x =
     (case map_of (a_funcMap x) (ev_Name data) of
        None \<Rightarrow> x
      | Some funcList \<Rightarrow> x\<lparr>a_priv := run_event_fns funcList data (a_priv x)\<rparr>)"

definition event_wanted :: "int option \<Rightarrow> 'v EventData \<Rightarrow> bool" where
  "event_wanted uniqueID data = (case uniqueID of None \<Rightarrow> True | Some u \<Rightarrow> u = ev_UniqueID data)"

text \<open>One subscription of the \<open>Range\<close> in \<open>PostEvent\<close>.\<close>

definition deliver_event ::
  "'v EventData \<Rightarrow> string \<times> int option \<Rightarrow> ('v, 'h) System \<Rightarrow> ('v, 'h) System" where
  "deliver_event data sub s =
     (case GetActorWithPath s (fst sub) of
        None \<Rightarrow> s
      | Some a \<Rightarrow>
          if event_wanted (snd sub) data \<and>
             (case sys_heap s a of None \<Rightarrow> False | Some x \<Rightarrow> a_state x = WorkerState)
          then upd_actor a (event_Push data) s else s)"

definition PostEvent :: "'v EventData option \<Rightarrow> ('v, 'h) System \<Rightarrow> ('v, 'h) System" where
  "PostEvent data s =
     (case data of
        None \<Rightarrow> s
      | Some data \<Rightarrow>
          if length (ev_Name data) < 1 then s
          else case map_of (sys_actorEventMap s) (ev_Name data) of
                 None \<Rightarrow> s
               | Some subs \<Rightarrow> fold (deliver_event data) subs s)"

section \<open>Mailbox\<close>

definition mail_Push :: "'v Message option \<Rightarrow> ('v, 'h) Actor \<Rightarrow> ('v, 'h) Actor" where
  "mail_Push m x = (case m of None \<Rightarrow> x | Some m \<Rightarrow> x\<lparr>a_mail := a_mail x @ [m]\<rparr>)"

definition getMethod :: "('v, 'h) Actor \<Rightarrow> u32 \<Rightarrow> ('v, 'h) methodEntry option" where
  "getMethod x methodID = a_methodMap x methodID"

definition adapt_error_text :: "adapt_error \<Rightarrow> string" where
  "adapt_error_text e =
     (case e of
        HandlerNil \<Rightarrow> ''actorgo method: handler is nil''
      | HandlerNotFunction \<Rightarrow> ''actorgo method: handler must be a function''
      | HandlerParams \<Rightarrow> ''actorgo method: handler must accept (*facade.RequestContext, *Request)''
      | HandlerMixedProtobuf \<Rightarrow>
          ''actorgo method: request and response must both be protobuf messages or ordinary structs''
      | HandlerReturns \<Rightarrow> ''actorgo method: handler must return (*Response, error) or error'')"

text \<open>
  \<open>mailbox.Register\<close>. The owner, its path and its system are never nil for a mailbox made by
  \<open>newActor\<close>; the application may be missing. The texts of the panics drop their formatted arguments.
\<close>

definition mail_Register ::
  "nat \<Rightarrow> u32 \<Rightarrow> ('v, 'h) handler_fn option \<Rightarrow> ('v, 'h) System \<Rightarrow> go_panic + ('v, 'h) System" where
  "mail_Register a methodID handler s =
     (case sys_heap s a of
        None \<Rightarrow> Inl NilDeref
      | Some x \<Rightarrow>
          if methodID = 0 \<or> handler = None then Inl (PanicMsg ''actorgo: method id and handler are required'')
          else if a_methodMap x methodID \<noteq> None then Inl (PanicMsg ''actorgo: method id is already registered in mail mailbox'')
          else case AdaptHandler handler of
            Inl e \<Rightarrow> Inl (PanicMsg (adapt_error_text e))
          | Inr adapted \<Rightarrow>
              (case sys_app s of
                 None \<Rightarrow> Inl (PanicMsg ''actorgo: method table is not initialized'')
               | Some app \<Rightarrow>
                   if a_state x \<noteq> InitState then Inl (PanicMsg ''actorgo: methods may only be registered during OnInit'')
                   else
                     let entry = \<lparr>me_invoke = ah_invoke adapted, me_requestGoType = ah_requestGoType adapted,
                                  me_supportsProtobuf = ah_protobuf adapted\<rparr>;
                         install = upd_actor a (\<lambda>x. x\<lparr>a_methodMap := (a_methodMap x)(methodID \<mapsto> entry)\<rparr>)
                     in if IsParent (Some (a_path x)) then
                          (if app_Methods app = None then Inl (PanicMsg ''actorgo: method table is not initialized'')
                           else case tab_Register (app_Methods app) methodID (PathString x) (ah_msgType adapted) of
                             Inl _ \<Rightarrow> Inl (PanicMsg ''actorgo method: registration refused'')
                           | Inr t \<Rightarrow> Inr (install (s\<lparr>sys_app := Some (app\<lparr>app_Methods := Some t\<rparr>)\<rparr>)))
                        else Inr (install s)))"

definition codec_error_text :: "codec_error \<Rightarrow> string" where
  "codec_error_text e =
     (case e of
        InvalidBodyCodec \<Rightarrow> ''actorgo: invalid body codec''
      | CodecIdTaken i n \<Rightarrow> ''actorgo: body codec id '' @ fmt_int 10 i @ '' already registered as '' @ n
      | CodecNotRegistered i \<Rightarrow> ''actorgo: body codec '' @ fmt_int 10 i @ '' is not registered''
      | UnsupportedBodyCodec i \<Rightarrow> ''actorgo: unsupported body codec '' @ fmt_int 10 i
      | ProtobufWrongValueType \<Rightarrow> ''Convert on wrong type value''
      | LibraryError t \<Rightarrow> t)"

definition decodePayload ::
  "'v App option \<Rightarrow> RequestContext option \<Rightarrow> ('v, 'h) methodEntry \<Rightarrow> 'v payload \<Rightarrow>
   'v InvokeResult + 'v payload" where
  "decodePayload app ctx entry p =
     (case p of
        PBytes body \<Rightarrow>
          (let ctx = (case ctx of None \<Rightarrow> NewRequestContext None | Some c \<Rightarrow> c);
               codec = (if Codec ctx = 0 then
                          (case app of None \<Rightarrow> 0 | Some app \<Rightarrow> reg_Default (app_BodyCodecs app))
                        else Codec ctx)
           in if codec \<noteq> CodecJSON \<and> (codec \<noteq> CodecProtobuf \<or> \<not> me_supportsProtobuf entry) then
                Inl (ErrorResult STATUS_UNSUPPORTED_MEDIA
                       (''method does not support body codec '' @ fmt_int 10 codec))
              else case app of
                None \<Rightarrow> Inl (ErrorResult STATUS_INTERNAL ''body codecs are not initialized'')
              | Some app \<Rightarrow>
                  (case reg_Unmarshal (app_BodyCodecs app) codec body (me_requestGoType entry) of
                     Inl e \<Rightarrow> Inl (ErrorResult STATUS_INVALID_ARGUMENT
                                    (''request body decode failed: '' @ codec_error_text e))
                   | Inr v \<Rightarrow> Inr (PVal (me_requestGoType entry) v)))
      | _ \<Rightarrow> Inr p)"

section \<open>Contexts of queued work\<close>

text \<open>What \<open>Err()\<close> answers at a given instant: a context whose deadline passed reports it.\<close>

definition ctx_Err :: "int \<Rightarrow> RequestContext \<Rightarrow> ctx_error option" where
  "ctx_Err now c =
     (case rc_Err c of
        Some e \<Rightarrow> Some e
      | None \<Rightarrow> (case rc_Deadline c of
                   Some d \<Rightarrow> if d \<le> now then Some DeadlineExceeded else None
                 | None \<Rightarrow> None))"

definition contextFailure :: "ctx_error \<Rightarrow> string \<Rightarrow> 'v InvokeResult" where
  "contextFailure err operation =
     (if err = DeadlineExceeded then ErrorResult STATUS_DEADLINE_EXCEEDED (operation @ '' deadline exceeded'')
      else ErrorResult STATUS_CANCELLED (operation @ '' cancelled''))"

text \<open>Without an application there is no codec registry to take the default codec from.\<close>

definition ensureRequestContext ::
  "'v App option \<Rightarrow> RequestContext option \<Rightarrow> 'v call + RequestContext" where
  "ensureRequestContext app ctx =
     (let ctx = (case ctx of None \<Rightarrow> NewRequestContext (Some Background) | Some c \<Rightarrow> c);
          ctx = (if Context ctx = None then ctx\<lparr>Context := Some Background\<rparr> else ctx)
      in if Codec ctx = 0 then
           (case app of
              None \<Rightarrow> Inl (CallPanic NilDeref)
            | Some app \<Rightarrow> Inr (ctx\<lparr>Codec := reg_Default (app_BodyCodecs app)\<rparr>))
         else Inr ctx)"

definition ctx_of :: "RequestContext \<Rightarrow> gocontext" where
  "ctx_of c = (case Context c of None \<Rightarrow> Background | Some x \<Rightarrow> x)"

definition newInvokeContext ::
  "('v, 'h) System \<Rightarrow> RequestContext option \<Rightarrow> 'v call + RequestContext" where
  "newInvokeContext s source =
     (case ensureRequestContext (sys_app s) source of
        Inl c \<Rightarrow> Inl c
      | Inr source \<Rightarrow>
          (case ctx_Err (sys_now s) source of
             Some err \<Rightarrow> Inl (Returned (contextFailure err ''actor invoke''))
           | None \<Rightarrow>
               if rc_Deadline source \<noteq> None
               then Inr (rc_Clone (Some source) (Some (WithCancel (ctx_of source))))
               else Inr (rc_Clone (Some source)
                           (Some (WithTimeout (sys_now s) (ctx_of source) (sys_callTimeout s))))))"

definition newNotifyContext ::
  "('v, 'h) System \<Rightarrow> RequestContext option \<Rightarrow> 'v call + RequestContext" where
  "newNotifyContext s source =
     (case ensureRequestContext (sys_app s) source of
        Inl c \<Rightarrow> Inl c
      | Inr source \<Rightarrow>
          (case ctx_Err (sys_now s) source of
             Some err \<Rightarrow> Inl (Returned (contextFailure err ''actor notify''))
           | None \<Rightarrow>
               (let parent = WithoutCancel (ctx_of source) in
                case rc_Deadline source of
                  Some deadline \<Rightarrow>
                    Inr (rc_Clone (Some source) (Some (WithDeadline (sys_now s) parent deadline)))
                | None \<Rightarrow>
                    Inr (rc_Clone (Some source)
                           (Some (WithTimeout (sys_now s) parent (sys_callTimeout s)))))))"

section \<open>Life of an actor\<close>

definition newActor ::
  "string \<Rightarrow> string \<Rightarrow> ('v, 'h) IActorHandler \<Rightarrow> ('v, 'h) System \<Rightarrow> actor_error + ('v, 'h) Actor" where
  "newActor actorID childID handler s =
     (if trim_is_empty actorID then Inl ErrActorIDIsNil
      else Inr \<lparr>a_path = \<lparr>NodeID = sys_NodeID s, ActorID = actorID, ChildID = childID\<rparr>,
                a_state = InitState, a_close = False, a_handler = handler, a_priv = priv0 handler,
                a_mail = [], a_methodMap = Map.empty, a_events = [], a_funcMap = [], a_children = [],
                a_lastAt = sys_now s div 1000000000, a_initDone = None, a_destroyed = False,
                a_exited = False\<rparr>)"

definition alloc_actor :: "('v, 'h) Actor \<Rightarrow> ('v, 'h) System \<Rightarrow> nat \<times> ('v, 'h) System" where
  "alloc_actor x s =
     (sys_next s, s\<lparr>sys_heap := (sys_heap s)(sys_next s \<mapsto> x), sys_next := Suc (sys_next s)\<rparr>)"

text \<open>\<open>OnInit\<close>: what was registered before a panic stays registered.\<close>

fun run_OnInit ::
  "nat \<Rightarrow> ('v, 'h) init_call list \<Rightarrow> ('v, 'h) System \<Rightarrow> go_panic option \<times> ('v, 'h) System" where
  "run_OnInit a [] s = (None, s)"
| "run_OnInit a (c # cs) s =
     (case c of
        InitRegister m h \<Rightarrow>
          (case mail_Register a m h s of Inl p \<Rightarrow> (Some p, s) | Inr s' \<Rightarrow> run_OnInit a cs s')
      | InitEvent name fn uniqueID \<Rightarrow> run_OnInit a cs (event_Register a name fn uniqueID s)
      | InitUnregisterEvent name \<Rightarrow> run_OnInit a cs (Unregister a name s)
      | InitPanic p \<Rightarrow> (Some p, s))"

definition initialize :: "nat \<Rightarrow> ('v, 'h) System \<Rightarrow> actor_error option \<times> ('v, 'h) System" where
  "initialize a s =
     (case sys_heap s a of
        None \<Rightarrow> (None, s)
      | Some x \<Rightarrow>
          (case run_OnInit a (OnInit (a_handler x)) s of
             (Some p, s') \<Rightarrow> (Some (InitializationFailed (PathString x) p), s')
           | (None, s') \<Rightarrow> (None, upd_actor a (\<lambda>x. x\<lparr>a_state := WorkerState\<rparr>) s')))"

definition child_onStop :: "('v, 'h) Actor \<Rightarrow> ('v, 'h) System \<Rightarrow> ('v, 'h) System" where
  "child_onStop x s = fold (\<lambda>(_, c). Exit c) (a_children x) s"

text \<open>
  \<open>onStop\<close>. The routes go first, then the actor leaves its map, then its hook runs; when the hook
  panics the queues are not destroyed. Messages still queued are lost with the queue.
\<close>

definition withdraw_routes :: "('v, 'h) Actor \<Rightarrow> ('v, 'h) System \<Rightarrow> ('v, 'h) System" where
  "withdraw_routes x s =
     (if IsParent (Some (a_path x)) then
        (case sys_app s of
           None \<Rightarrow> s
         | Some app \<Rightarrow>
             (case app_Methods app of
                None \<Rightarrow> s
              | Some t \<Rightarrow>
                  s\<lparr>sys_app := Some (app\<lparr>app_Methods := Some (UnregisterTarget t (PathString x))\<rparr>)\<rparr>))
      else s)"

definition leave_maps :: "('v, 'h) Actor \<Rightarrow> ('v, 'h) System \<Rightarrow> ('v, 'h) System" where
  "leave_maps x s =
     (if IsParent (Some (a_path x)) then child_onStop x (removeActor (actor_ActorID x) s)
      else case GetActor s (ActorID (a_path x)) of
             None \<Rightarrow> s
           | Some p \<Rightarrow>
               upd_actor p (\<lambda>y. y\<lparr>a_children := AList.delete (ChildID (a_path x)) (a_children y)\<rparr>) s)"

definition event_onStop :: "nat \<Rightarrow> ('v, 'h) Actor \<Rightarrow> ('v, 'h) System \<Rightarrow> ('v, 'h) System" where
  "event_onStop a x s =
     upd_actor a (\<lambda>y. y\<lparr>a_funcMap := [], a_events := []\<rparr>)
       (removeActorEvent (PathString x) (EventNames x) s)"

definition mail_onStop :: "nat \<Rightarrow> ('v, 'h) System \<Rightarrow> ('v, 'h) System" where
  "mail_onStop a s =
     upd_actor a (\<lambda>y. y\<lparr>a_methodMap := Map.empty, a_mail := [], a_destroyed := True\<rparr>) s"

definition onStop :: "nat \<Rightarrow> ('v, 'h) System \<Rightarrow> ('v, 'h) System" where
  "onStop a s =
     (case sys_heap s a of
        None \<Rightarrow> s
      | Some x \<Rightarrow>
          (let s = leave_maps x (withdraw_routes x s);
               (h, panic) = OnStop (a_handler x) (a_priv x);
               s = upd_actor a (\<lambda>y. y\<lparr>a_priv := h, a_exited := True\<rparr>) s;
               s = (if panic = None then mail_onStop a (event_onStop a x s) else s)
           in s\<lparr>sys_wg := sys_wg s - 1\<rparr>))"

text \<open>The start of \<open>run\<close>: initialise, and on failure stop before the failure is reported.\<close>

definition run_start :: "nat \<Rightarrow> ('v, 'h) System \<Rightarrow> ('v, 'h) System" where
  "run_start a s =
     (case initialize a s of
        (Some err, s') \<Rightarrow> upd_actor a (\<lambda>x. x\<lparr>a_initDone := Some (Some err)\<rparr>) (onStop a s')
      | (None, s') \<Rightarrow> upd_actor a (\<lambda>x. x\<lparr>a_initDone := Some None\<rparr>) s')"

text \<open>
  \<open>CreateActor\<close> up to the \<open>go\<close> statement, and the whole call: the actor's goroutine initialises while
  the creator waits on \<open>initDone\<close>. In between the actor is already in the map and accepts messages.
\<close>

definition CreateActor_begin ::
  "string \<Rightarrow> ('v, 'h) IActorHandler \<Rightarrow> ('v, 'h) System \<Rightarrow> (actor_error + nat \<times> bool) \<times> ('v, 'h) System" where
  "CreateActor_begin i handler s =
     (if trim_is_empty i then (Inl ErrActorIDIsNil, s)
      else case GetActor s i of
        Some a \<Rightarrow> (Inr (a, False), s)
      | None \<Rightarrow>
          (case newActor i [] handler s of
             Inl e \<Rightarrow> (Inl e, s)
           | Inr x \<Rightarrow>
               (let (a, s) = alloc_actor x s in
                (Inr (a, True), s\<lparr>sys_actorMap := AList.update i a (sys_actorMap s), sys_wg := sys_wg s + 1\<rparr>))))"

definition init_outcome :: "nat \<Rightarrow> ('v, 'h) System \<Rightarrow> actor_error + nat" where
  "init_outcome a s =
     (case sys_heap s a of
        None \<Rightarrow> Inr a
      | Some x \<Rightarrow> (case a_initDone x of Some (Some e) \<Rightarrow> Inl e | _ \<Rightarrow> Inr a))"

definition CreateActor ::
  "string \<Rightarrow> ('v, 'h) IActorHandler \<Rightarrow> ('v, 'h) System \<Rightarrow> (actor_error + nat) \<times> ('v, 'h) System" where
  "CreateActor i handler s =
     (case CreateActor_begin i handler s of
        (Inl e, s) \<Rightarrow> (Inl e, s)
      | (Inr (a, False), s) \<Rightarrow> (Inr a, s)
      | (Inr (a, True), s) \<Rightarrow> (let s = run_start a s in (init_outcome a s, s)))"

definition child_Create_begin ::
  "nat \<Rightarrow> string \<Rightarrow> ('v, 'h) IActorHandler \<Rightarrow> ('v, 'h) System \<Rightarrow>
   (actor_error + nat \<times> bool) \<times> ('v, 'h) System" where
  "child_Create_begin p childID handler s =
     (case sys_heap s p of
        None \<Rightarrow> (Inl ErrActorIDIsNil, s)
      | Some parent \<Rightarrow>
          if IsChild (Some (a_path parent)) then (Inl ErrForbiddenCreateChildActor, s)
          else if trim_is_empty childID then (Inl ErrActorIDIsNil, s)
          else case child_GetActor parent childID of
            Some c \<Rightarrow> (Inr (c, False), s)
          | None \<Rightarrow>
              (case newActor (actor_ActorID parent) childID handler s of
                 Inl e \<Rightarrow> (Inl e, s)
               | Inr x \<Rightarrow>
                   (let (c, s) = alloc_actor x s;
                        s = upd_actor p (\<lambda>y. y\<lparr>a_children := AList.update childID c (a_children y)\<rparr>) s
                    in (Inr (c, True), s\<lparr>sys_wg := sys_wg s + 1\<rparr>))))"

definition child_Create ::
  "nat \<Rightarrow> string \<Rightarrow> ('v, 'h) IActorHandler \<Rightarrow> ('v, 'h) System \<Rightarrow> (actor_error + nat) \<times> ('v, 'h) System" where
  "child_Create p childID handler s =
     (case child_Create_begin p childID handler s of
        (Inl e, s) \<Rightarrow> (Inl e, s)
      | (Inr (c, False), s) \<Rightarrow> (Inr c, s)
      | (Inr (c, True), s) \<Rightarrow> (let s = run_start c s in (init_outcome c s, s)))"

section \<open>The actor loop\<close>

text \<open>
  \<open>post\<close> of an actor. A push on a destroyed queue dereferences its nil head: nothing recovers that
  panic, so it ends the process.
\<close>

definition actor_post :: "nat \<Rightarrow> 'v Message \<Rightarrow> ('v, 'h) System \<Rightarrow> ('v, 'h) System" where
  "actor_post a m s =
     (case sys_heap s a of
        None \<Rightarrow> s\<lparr>sys_crashed := True\<rparr>
      | Some x \<Rightarrow> if a_destroyed x then s\<lparr>sys_crashed := True\<rparr> else upd_actor a (mail_Push (Some m)) s)"

definition finishTyped :: "'v Message \<Rightarrow> 'v InvokeResult \<Rightarrow> ('v, 'h) System \<Rightarrow> ('v, 'h) System" where
  "finishTyped m result s =
     (let s = (case ChanInvokeResult m of
                 None \<Rightarrow> s
               | Some ch \<Rightarrow> s\<lparr>sys_chans := (sys_chans s)(ch := sys_chans s ch @ [result])\<rparr>)
      in s\<lparr>sys_live := sys_live s - 1\<rparr>)"

definition findChildActor ::
  "nat \<Rightarrow> 'v Message \<Rightarrow> ('v, 'h) System \<Rightarrow> (go_panic + nat option) \<times> ('v, 'h) System" where
  "findChildActor a m s =
     (case sys_heap s a of
        None \<Rightarrow> (Inl NilDeref, s)
      | Some x \<Rightarrow>
          if IsChild (Some (a_path x)) then (Inr None, s)
          else case fst (TargetPath m) of
            None \<Rightarrow> (Inl NilDeref, s)
          | Some tp \<Rightarrow>
              (case child_GetActor x (ChildID tp) of
                 Some c \<Rightarrow> (Inr (Some c), s)
               | None \<Rightarrow>
                   (case OnFindChild (a_handler x) (a_priv x) m of
                      NotFound \<Rightarrow> (Inr None, s)
                    | FoundActor c \<Rightarrow> (Inr (Some c), s)
                    | FoundNew childID handler \<Rightarrow>
                        (case child_Create a childID handler s of
                           (Inl _, s) \<Rightarrow> (Inr None, s)
                         | (Inr c, s) \<Rightarrow> (Inr (Some c), s)))))"

text \<open>
  The call of the handler. A panic is recovered and becomes a result. The warning about slow handlers
  is only logged. A \<open>TypedInvoke\<close> made by \<open>AdaptHandler\<close> never answers nil.
\<close>

definition invoke_recovered ::
  "('v, 'h) methodEntry \<Rightarrow> 'h \<Rightarrow> RequestContext \<Rightarrow> 'v payload \<Rightarrow> 'h \<times> 'v InvokeResult" where
  "invoke_recovered entry h ctx p =
     (case me_invoke entry h (Some ctx) p of
        (h', Inl _) \<Rightarrow> (h', ErrorResult STATUS_INTERNAL ''actor method panic'')
      | (h', Inr result) \<Rightarrow> (h', result))"

text \<open>What one message does to its actor: the new private state and the result it answers.\<close>

definition handle_message ::
  "'v App option \<Rightarrow> int \<Rightarrow> ('v, 'h) Actor \<Rightarrow> 'v Message \<Rightarrow> 'h \<times> 'v InvokeResult" where
  "handle_message app now x m =
     (let ctx = (case msg_Context m of None \<Rightarrow> NewRequestContext None | Some c \<Rightarrow> c) in
      case ctx_Err now ctx of
        Some err \<Rightarrow> (a_priv x, contextFailure err ''actor invoke'')
      | None \<Rightarrow>
          (case getMethod x (MethodID m) of
             None \<Rightarrow> (a_priv x, ErrorResult STATUS_NOT_FOUND ''actor method not found'')
           | Some entry \<Rightarrow>
               (case decodePayload app (Some ctx) entry (msg_Payload m) of
                  Inl failure \<Rightarrow> (a_priv x, failure)
                | Inr p \<Rightarrow> invoke_recovered entry (a_priv x) ctx p)))"

definition invokeTyped :: "nat \<Rightarrow> 'v Message \<Rightarrow> ('v, 'h) System \<Rightarrow> ('v, 'h) System" where
  "invokeTyped a m s =
     (case sys_heap s a of
        None \<Rightarrow> s
      | Some x \<Rightarrow>
          (let (h, result) = handle_message (sys_app s) (sys_now s) x m in
           finishTyped m result (upd_actor a (\<lambda>x. x\<lparr>a_priv := h\<rparr>) s)))"

definition processTyped :: "nat \<Rightarrow> 'v Message \<Rightarrow> ('v, 'h) System \<Rightarrow> ('v, 'h) System" where
  "processTyped a m s =
     (case sys_heap s a of
        None \<Rightarrow> s
      | Some x \<Rightarrow>
          (let (tp, m) = TargetPath m in
           if IsChild tp \<and> \<not> IsChild (Some (a_path x)) then
             (case findChildActor a m s of
                (Inl _, s) \<Rightarrow> s\<lparr>sys_crashed := True\<rparr>
              | (Inr None, s) \<Rightarrow> finishTyped m (ErrorResult STATUS_NOT_FOUND ''actor child not found'') s
              | (Inr (Some c), s) \<Rightarrow> actor_post c m s)
           else invokeTyped a m s))"

definition processMail :: "nat \<Rightarrow> ('v, 'h) System \<Rightarrow> ('v, 'h) System" where
  "processMail a s =
     (case sys_heap s a of
        None \<Rightarrow> s
      | Some x \<Rightarrow>
          (case a_mail x of
             [] \<Rightarrow> s
           | m # rest \<Rightarrow>
               (let s = upd_actor a (\<lambda>x. x\<lparr>a_mail := rest, a_lastAt := sys_now s div 1000000000\<rparr>) s in
                if MethodID m = 0
                then finishTyped m (ErrorResult STATUS_INVALID_ARGUMENT ''method id is required'') s
                else processTyped a m s)))"

definition processEvent :: "nat \<Rightarrow> ('v, 'h) System \<Rightarrow> ('v, 'h) System" where
  "processEvent a s =
     (case sys_heap s a of
        None \<Rightarrow> s
      | Some x \<Rightarrow>
          (case a_events x of
             [] \<Rightarrow> s
           | data # rest \<Rightarrow>
               upd_actor a (\<lambda>x. event_invokeFunc data
                  (x\<lparr>a_events := rest, a_lastAt := sys_now s div 1000000000\<rparr>)) s))"

text \<open>
  One iteration of \<open>loop\<close> (with the \<open>break\<close> of \<open>run\<close>): the case its \<open>select\<close> takes is the argument.
  A case that is not ready leaves the goroutine waiting. The timer case is the subject of the timer
  component and changes nothing here.
\<close>

datatype sel = SelMail | SelEvent | SelTimer | SelClose

definition loop :: "sel \<Rightarrow> nat \<Rightarrow> ('v, 'h) System \<Rightarrow> bool \<times> ('v, 'h) System" where
  "loop sel a s =
     (case sys_heap s a of
        None \<Rightarrow> (True, s)
      | Some x \<Rightarrow>
          if a_state x = StopState \<and> length (a_mail x) < 1 \<and> length (a_events x) < 1 then (True, s)
          else
            (False,
             case sel of
               SelMail \<Rightarrow> processMail a s
             | SelEvent \<Rightarrow> processEvent a s
             | SelTimer \<Rightarrow> s
             | SelClose \<Rightarrow>
                 if a_close x then upd_actor a (\<lambda>x. x\<lparr>a_close := False, a_state := StopState\<rparr>) s
                 else s))"

definition run_iteration :: "sel \<Rightarrow> nat \<Rightarrow> ('v, 'h) System \<Rightarrow> ('v, 'h) System" where
  "run_iteration sel a s = (case loop sel a s of (True, s) \<Rightarrow> onStop a s | (False, s) \<Rightarrow> s)"

section \<open>Calls\<close>

text \<open>A new result channel, and a message drawn from the pool.\<close>

definition new_chan :: "('v, 'h) System \<Rightarrow> nat \<times> ('v, 'h) System" where
  "new_chan s = (sys_nextch s, s\<lparr>sys_nextch := Suc (sys_nextch s)\<rparr>)"

definition take_message :: "('v, 'h) System \<Rightarrow> ('v, 'h) System" where
  "take_message s = s\<lparr>sys_live := sys_live s + 1\<rparr>"

definition drop_message :: "('v, 'h) System \<Rightarrow> ('v, 'h) System" where
  "drop_message s = s\<lparr>sys_live := sys_live s - 1\<rparr>"

definition InvokeChild ::
  "nat \<Rightarrow> RequestContext option \<Rightarrow> string \<Rightarrow> u32 \<Rightarrow> 'v payload \<Rightarrow> ('v, 'h) System \<Rightarrow>
   'v call \<times> ('v, 'h) System" where
  "InvokeChild a ctx childID methodID p s =
     (if methodID = 0 then (Returned (ErrorResult STATUS_INVALID_ARGUMENT ''method id is required''), s)
      else if childID = [] then (Returned (ErrorResult STATUS_INVALID_ARGUMENT ''child id is required''), s)
      else case sys_heap s a of
        None \<Rightarrow> (CallPanic NilDeref, s)
      | Some x \<Rightarrow>
          (case ensureRequestContext (sys_app s) ctx of
             Inl c \<Rightarrow> (c, s)
           | Inr ctx \<Rightarrow>
               (case newInvokeContext s (Some ctx) of
                  Inl c \<Rightarrow> (c, s)
                | Inr invokeCtx \<Rightarrow>
                    (let target = NewChildPath (AnyString (NodeID (a_path x))) (AnyString (ActorID (a_path x))) (AnyString childID);
                         m = typedMessage invokeCtx target methodID p;
                         s = take_message s
                     in case findChildActor a m s of
                          (Inl p, s) \<Rightarrow> (CallPanic p, s)
                        | (Inr None, s) \<Rightarrow>
                            (Returned (ErrorResult STATUS_NOT_FOUND ''child actor not found''), drop_message s)
                        | (Inr (Some c), s) \<Rightarrow>
                            (let (ch, s) = new_chan s;
                                 m = snd (TargetPath m)\<lparr>ChanInvokeResult := Some ch\<rparr>
                             in (Await ch invokeCtx, actor_post c m s))))))"

definition NotifyChild ::
  "nat \<Rightarrow> RequestContext option \<Rightarrow> string \<Rightarrow> u32 \<Rightarrow> 'v payload \<Rightarrow> ('v, 'h) System \<Rightarrow>
   'v call \<times> ('v, 'h) System" where
  "NotifyChild a ctx childID methodID p s =
     (if methodID = 0 then (Returned (ErrorResult STATUS_INVALID_ARGUMENT ''method id is required''), s)
      else if childID = [] then (Returned (ErrorResult STATUS_INVALID_ARGUMENT ''child id is required''), s)
      else case sys_heap s a of
        None \<Rightarrow> (CallPanic NilDeref, s)
      | Some x \<Rightarrow>
          (case ensureRequestContext (sys_app s) ctx of
             Inl c \<Rightarrow> (c, s)
           | Inr ctx \<Rightarrow>
               (case newNotifyContext s (Some ctx) of
                  Inl c \<Rightarrow> (c, s)
                | Inr notifyCtx \<Rightarrow>
                    (let target = NewChildPath (AnyString (NodeID (a_path x))) (AnyString (ActorID (a_path x))) (AnyString childID);
                         m = (typedMessage notifyCtx target methodID p)\<lparr>Cancel := True\<rparr>;
                         s = take_message s
                     in case findChildActor a m s of
                          (Inl p, s) \<Rightarrow> (CallPanic p, s)
                        | (Inr None, s) \<Rightarrow>
                            (Returned (ErrorResult STATUS_NOT_FOUND ''child actor not found''), drop_message s)
                        | (Inr (Some c), s) \<Rightarrow> (Returned (OKResult PNil), actor_post c (snd (TargetPath m)) s)))))"

definition post :: "'v Message option \<Rightarrow> ('v, 'h) System \<Rightarrow> bool \<times> ('v, 'h) System" where
  "post m s =
     (case m of
        None \<Rightarrow> (False, s)
      | Some m \<Rightarrow>
          (case TargetPath m of
             (None, m) \<Rightarrow> (False, s)
           | (Some tp, m) \<Rightarrow>
               (case GetActor s (ActorID tp) of
                  None \<Rightarrow> (False, s)
                | Some a \<Rightarrow>
                    (case sys_heap s a of
                       None \<Rightarrow> (False, s)
                     | Some x \<Rightarrow>
                         if a_state x = InitState \<or> a_state x = WorkerState
                         then (True, actor_post a m s) else (False, s)))))"

definition methodTarget :: "('v, 'h) System \<Rightarrow> u32 \<Rightarrow> 'v InvokeResult + string" where
  "methodTarget s methodID =
     (if methodID = 0 then Inl (ErrorResult STATUS_INVALID_ARGUMENT ''method id is required'')
      else case (case sys_app s of None \<Rightarrow> None | Some app \<Rightarrow> app_Methods app) of
        None \<Rightarrow> Inl (ErrorResult STATUS_UNAVAILABLE ''method table is not initialized'')
      | Some t \<Rightarrow>
          (case tab_Target (Some t) methodID of
             None \<Rightarrow> Inl (ErrorResult STATUS_NOT_FOUND ''top-level actor method not found'')
           | Some target \<Rightarrow> Inr target))"

definition prepareTyped :: "string \<Rightarrow> u32 \<Rightarrow> 'v InvokeResult + ActorPath" where
  "prepareTyped target methodID =
     (if methodID = 0 then Inl (ErrorResult STATUS_INVALID_ARGUMENT ''method id is required'')
      else case ToActorPath target of
        Inl _ \<Rightarrow> Inl (ErrorResult STATUS_INVALID_ARGUMENT ''invalid actor target'')
      | Inr tp \<Rightarrow> Inr tp)"

definition encodeClusterPayload ::
  "'v App \<Rightarrow> RequestContext \<Rightarrow> 'v payload \<Rightarrow> codec_error + byte list" where
  "encodeClusterPayload app ctx p =
     (case p of PBytes body \<Rightarrow> Inr body | _ \<Rightarrow> reg_Marshal (app_BodyCodecs app) (Codec ctx) p)"

text \<open>\<open>UnixMilli\<close> of an instant in nanoseconds.\<close>

definition buildClusterMessage ::
  "RequestContext \<Rightarrow> string \<Rightarrow> u32 \<Rightarrow> MsgType \<Rightarrow> byte list \<Rightarrow> ('v, 'h) System \<Rightarrow>
   ClusterMessage \<times> ('v, 'h) System" where
  "buildClusterMessage ctx target methodID msgType body s =
     (let seq = sys_messageSeq s + 1 in
      (\<lparr>cm_MessageId = seq, cm_MsgType = msgType, cm_RequestId = RequestID ctx, cm_MethodId = methodID,
        cm_DeadlineUnixMs = (case rc_Deadline ctx of None \<Rightarrow> 0 | Some d \<Rightarrow> d div 1000000),
        cm_TargetPath = target, cm_Session = map_option clone_session (rc_Session ctx),
        cm_Metadata = cloneMetadata (Metadata ctx), cm_Codec = Codec ctx, cm_Payload = body,
        cm_Code = 0, cm_Message = []\<rparr>,
       s\<lparr>sys_messageSeq := seq\<rparr>))"

definition invokeRemote ::
  "RequestContext \<Rightarrow> string \<Rightarrow> string \<Rightarrow> u32 \<Rightarrow> 'v payload \<Rightarrow> ('v, 'h) System \<Rightarrow>
   'v call \<times> ('v, 'h) System" where
  "invokeRemote ctx target nodeID methodID p s =
     (case sys_app s of
        None \<Rightarrow> (CallPanic NilDeref, s)
      | Some app \<Rightarrow>
          (case app_Cluster app of
             None \<Rightarrow> (Returned (ErrorResult STATUS_UNAVAILABLE ''cluster is not configured''), s)
           | Some cluster \<Rightarrow>
               (case newInvokeContext s (Some ctx) of
                  Inl c \<Rightarrow> (c, s)
                | Inr ctx \<Rightarrow>
                    (case encodeClusterPayload app ctx p of
                       Inl _ \<Rightarrow> (Returned (ErrorResult STATUS_INTERNAL ''cluster request body encode failed''), s)
                     | Inr body \<Rightarrow>
                         (let (message, s) = buildClusterMessage ctx target methodID REQUEST body s;
                              timeout = (case rc_Deadline ctx of None \<Rightarrow> 0 | Some d \<Rightarrow> d) - sys_now s
                          in if timeout \<le> 0 then
                               (Returned (ErrorResult STATUS_DEADLINE_EXCEEDED ''cluster request deadline exceeded''), s)
                             else
                               (Returned
                                  (case cl_Request cluster nodeID message timeout of
                                     Inl err \<Rightarrow>
                                       (case ctx_Err (sys_now s) ctx of
                                          Some e \<Rightarrow> contextFailure e ''cluster request''
                                        | None \<Rightarrow> ErrorResult STATUS_UNAVAILABLE err)
                                   | Inr response \<Rightarrow>
                                       \<lparr>Payload = PBytes (cm_Payload response), Code = cm_Code response,
                                        Message = cm_Message response\<rparr>),
                                s\<lparr>sys_sent := sys_sent s @ [(nodeID, message)]\<rparr>))))))"

definition notifyRemote ::
  "RequestContext \<Rightarrow> string \<Rightarrow> string \<Rightarrow> u32 \<Rightarrow> 'v payload \<Rightarrow> ('v, 'h) System \<Rightarrow>
   'v call \<times> ('v, 'h) System" where
  "notifyRemote ctx target nodeID methodID p s =
     (case sys_app s of
        None \<Rightarrow> (CallPanic NilDeref, s)
      | Some app \<Rightarrow>
          (case app_Cluster app of
             None \<Rightarrow> (Returned (ErrorResult STATUS_UNAVAILABLE ''cluster is not configured''), s)
           | Some cluster \<Rightarrow>
               (case newNotifyContext s (Some ctx) of
                  Inl c \<Rightarrow> (c, s)
                | Inr ctx \<Rightarrow>
                    (case encodeClusterPayload app ctx p of
                       Inl _ \<Rightarrow> (Returned (ErrorResult STATUS_INTERNAL ''cluster notify body encode failed''), s)
                     | Inr body \<Rightarrow>
                         (let (message, s) = buildClusterMessage ctx target methodID NOTIFY body s in
                          (Returned
                             (case cl_Publish cluster nodeID message of
                                Some err \<Rightarrow> ErrorResult STATUS_UNAVAILABLE err
                              | None \<Rightarrow> OKResult PNil),
                           s\<lparr>sys_sent := sys_sent s @ [(nodeID, message)]\<rparr>))))))"

definition InvokeTarget :: "RequestContext option \<Rightarrow> string \<Rightarrow> u32 \<Rightarrow> 'v payload \<Rightarrow> ('v, 'h) System \<Rightarrow>
   'v call \<times> ('v, 'h) System" where
  "InvokeTarget ctx target methodID p s =
     (case prepareTyped target methodID of
        Inl failure \<Rightarrow> (Returned failure, s)
      | Inr tp \<Rightarrow>
          (case ensureRequestContext (sys_app s) ctx of
             Inl c \<Rightarrow> (c, s)
           | Inr ctx \<Rightarrow>
               if NodeID tp \<noteq> [] \<and> NodeID tp \<noteq> sys_NodeID s
               then invokeRemote ctx target (NodeID tp) methodID p s
               else if IsChild (Some tp) then
                 (case GetActor s (ActorID tp) of
                    None \<Rightarrow> (Returned (ErrorResult STATUS_NOT_FOUND ''actor not found''), s)
                  | Some parent \<Rightarrow> InvokeChild parent (Some ctx) (ChildID tp) methodID p s)
               else
                 (case newInvokeContext s (Some ctx) of
                    Inl c \<Rightarrow> (c, s)
                  | Inr invokeCtx \<Rightarrow>
                      (let (ch, s) = new_chan (take_message s);
                           m = (typedMessage invokeCtx target methodID p)\<lparr>ChanInvokeResult := Some ch\<rparr>
                       in case post (Some m) s of
                            (True, s) \<Rightarrow> (Await ch invokeCtx, s)
                          | (False, s) \<Rightarrow>
                              (Returned (ErrorResult STATUS_NOT_FOUND ''actor not found''), drop_message s)))))"

definition NotifyTarget :: "RequestContext option \<Rightarrow> string \<Rightarrow> u32 \<Rightarrow> 'v payload \<Rightarrow> ('v, 'h) System \<Rightarrow>
   'v call \<times> ('v, 'h) System" where
  "NotifyTarget ctx target methodID p s =
     (case prepareTyped target methodID of
        Inl failure \<Rightarrow> (Returned failure, s)
      | Inr tp \<Rightarrow>
          (case ensureRequestContext (sys_app s) ctx of
             Inl c \<Rightarrow> (c, s)
           | Inr ctx \<Rightarrow>
               if NodeID tp \<noteq> [] \<and> NodeID tp \<noteq> sys_NodeID s
               then notifyRemote ctx target (NodeID tp) methodID p s
               else if IsChild (Some tp) then
                 (case GetActor s (ActorID tp) of
                    None \<Rightarrow> (Returned (ErrorResult STATUS_NOT_FOUND ''actor not found''), s)
                  | Some parent \<Rightarrow> NotifyChild parent (Some ctx) (ChildID tp) methodID p s)
               else
                 (case newNotifyContext s (Some ctx) of
                    Inl c \<Rightarrow> (c, s)
                  | Inr notifyCtx \<Rightarrow>
                      (let s = take_message s;
                           m = (typedMessage notifyCtx target methodID p)\<lparr>Cancel := True\<rparr>
                       in case post (Some m) s of
                            (True, s) \<Rightarrow> (Returned (OKResult PNil), s)
                          | (False, s) \<Rightarrow>
                              (Returned (ErrorResult STATUS_NOT_FOUND ''actor not found''), drop_message s)))))"

definition Invoke :: "RequestContext option \<Rightarrow> u32 \<Rightarrow> 'v payload \<Rightarrow> ('v, 'h) System \<Rightarrow>
   'v call \<times> ('v, 'h) System" where
  "Invoke ctx methodID p s =
     (case methodTarget s methodID of
        Inl failure \<Rightarrow> (Returned failure, s)
      | Inr target \<Rightarrow> InvokeTarget ctx target methodID p s)"

definition Notify :: "RequestContext option \<Rightarrow> u32 \<Rightarrow> 'v payload \<Rightarrow> ('v, 'h) System \<Rightarrow>
   'v call \<times> ('v, 'h) System" where
  "Notify ctx methodID p s =
     (case methodTarget s methodID of
        Inl failure \<Rightarrow> (Returned failure, s)
      | Inr target \<Rightarrow> NotifyTarget ctx target methodID p s)"

definition InvokeNode :: "RequestContext option \<Rightarrow> string \<Rightarrow> u32 \<Rightarrow> 'v payload \<Rightarrow> ('v, 'h) System \<Rightarrow>
   'v call \<times> ('v, 'h) System" where
  "InvokeNode ctx nodeID methodID p s =
     (if methodID = 0 then (Returned (ErrorResult STATUS_INVALID_ARGUMENT ''method id is required''), s)
      else if nodeID = [] \<or> nodeID = sys_NodeID s then Invoke ctx methodID p s
      else case ensureRequestContext (sys_app s) ctx of
        Inl c \<Rightarrow> (c, s)
      | Inr ctx \<Rightarrow> invokeRemote ctx [] nodeID methodID p s)"

definition NotifyNode :: "RequestContext option \<Rightarrow> string \<Rightarrow> u32 \<Rightarrow> 'v payload \<Rightarrow> ('v, 'h) System \<Rightarrow>
   'v call \<times> ('v, 'h) System" where
  "NotifyNode ctx nodeID methodID p s =
     (if methodID = 0 then (Returned (ErrorResult STATUS_INVALID_ARGUMENT ''method id is required''), s)
      else if nodeID = [] \<or> nodeID = sys_NodeID s then Notify ctx methodID p s
      else case ensureRequestContext (sys_app s) ctx of
        Inl c \<Rightarrow> (c, s)
      | Inr ctx \<Rightarrow> notifyRemote ctx [] nodeID methodID p s)"

text \<open>\<open>Actor.Invoke\<close>: an actor cannot wait for itself.\<close>

definition actor_Invoke :: "nat \<Rightarrow> RequestContext option \<Rightarrow> u32 \<Rightarrow> 'v payload \<Rightarrow> ('v, 'h) System \<Rightarrow>
   'v call \<times> ('v, 'h) System" where
  "actor_Invoke a ctx methodID p s =
     (case methodTarget s methodID of
        Inl failure \<Rightarrow> (Returned failure, s)
      | Inr target \<Rightarrow>
          (case sys_heap s a of
             None \<Rightarrow> (CallPanic NilDeref, s)
           | Some x \<Rightarrow>
               if target = PathString x
               then (Returned (ErrorResult STATUS_FAILED_PRECONDITION ''actor cannot synchronously invoke itself''), s)
               else InvokeTarget ctx target methodID p s))"

definition actor_Notify :: "RequestContext option \<Rightarrow> u32 \<Rightarrow> 'v payload \<Rightarrow> ('v, 'h) System \<Rightarrow>
   'v call \<times> ('v, 'h) System" where
  "actor_Notify ctx methodID p s = Notify ctx methodID p s"

text \<open>
  The \<open>select\<close> at the end of an invocation: the result once it was sent, the failure of the context
  once that is done, and otherwise the caller still waits. When both are ready Go picks either.
\<close>

definition await_outcomes :: "nat \<Rightarrow> RequestContext \<Rightarrow> ('v, 'h) System \<Rightarrow> 'v InvokeResult set" where
  "await_outcomes ch ctx s =
     set (take 1 (sys_chans s ch)) \<union>
     (case ctx_Err (sys_now s) ctx of None \<Rightarrow> {} | Some e \<Rightarrow> {contextFailure e ''actor invoke''})"

text \<open>The deferred \<open>cancel\<close> of a caller that returned: a message still queued for it is cancelled.\<close>

definition cancel_message :: "nat \<Rightarrow> 'v Message \<Rightarrow> 'v Message" where
  "cancel_message ch m =
     (if ChanInvokeResult m = Some ch
      then m\<lparr>msg_Context := map_option (\<lambda>c. c\<lparr>Context := map_option cancel_ctx (Context c)\<rparr>) (msg_Context m)\<rparr>
      else m)"

definition cancel_call :: "nat \<Rightarrow> ('v, 'h) System \<Rightarrow> ('v, 'h) System" where
  "cancel_call ch s =
     s\<lparr>sys_heap := (\<lambda>a. map_option (\<lambda>x. x\<lparr>a_mail := map (cancel_message ch) (a_mail x)\<rparr>) (sys_heap s a))\<rparr>"

text \<open>\<open>Stop\<close> up to its wait: every top-level actor is asked to exit.\<close>

definition sys_Stop :: "('v, 'h) System \<Rightarrow> ('v, 'h) System" where
  "sys_Stop s = fold (\<lambda>(_, a). Exit a) (sys_actorMap s) s"

text \<open>\<open>Component.OnAfterInit\<close>: create the configured actors in order; the first failure panics.\<close>

fun OnAfterInit :: "('v, 'h) IActorHandler list \<Rightarrow> ('v, 'h) System \<Rightarrow> actor_error option \<times> ('v, 'h) System" where
  "OnAfterInit [] s = (None, s)"
| "OnAfterInit (h # hs) s =
     (case CreateActor (AliasID h) h s of
        (Inl e, s) \<Rightarrow> (Some e, s)
      | (Inr _, s) \<Rightarrow> OnAfterInit hs s)"

end
