(* ===== verification/Actor_Props.thy ===== *)
theory Actor_Props
  imports Actor_Model
begin

text \<open>
  Correctness of the actor runtime modelled in \<open>Actor_Model\<close>: every queued message is answered at most
  once and carries a deadline, messages are handled one at a time in the order of the mailbox, a
  panicking handler costs only its own message, creation is all or nothing for the routing table,
  an actor stops only after its queues are drained, and events reach their subscribers.
\<close>

section \<open>Messages in flight\<close>

definition mails :: "('v, 'h) System \<Rightarrow> nat \<Rightarrow> 'v Message list" where
  "mails s a = (case sys_heap s a of None \<Rightarrow> [] | Some x \<Rightarrow> a_mail x)"

definition carries :: "nat \<Rightarrow> 'v Message list \<Rightarrow> nat" where
  "carries ch ms = length (filter (\<lambda>m. ChanInvokeResult m = Some ch) ms)"

text \<open>How many queued messages will answer on a channel, and how many messages are queued.\<close>

definition owners :: "('v, 'h) System \<Rightarrow> nat \<Rightarrow> nat" where
  "owners s ch = (\<Sum>a < sys_next s. carries ch (mails s a))"

definition queued :: "('v, 'h) System \<Rightarrow> nat" where
  "queued s = (\<Sum>a < sys_next s. length (mails s a))"

definition heap_ok :: "('v, 'h) System \<Rightarrow> bool" where
  "heap_ok s \<longleftrightarrow> (\<forall>a. sys_heap s a \<noteq> None \<longrightarrow> a < sys_next s)"

text \<open>The context of queued work always has a deadline.\<close>

definition msg_ok :: "'v Message \<Rightarrow> bool" where
  "msg_ok m \<longleftrightarrow> (\<exists>c d. msg_Context m = Some c \<and> rc_Deadline c = Some d)"

text \<open>
  The invariant, with a list of messages in hand: drawn from the pool or popped, and not yet queued,
  answered or recycled.
\<close>

definition flight_inv :: "'v Message list \<Rightarrow> ('v, 'h) System \<Rightarrow> bool" where
  "flight_inv ms s \<longleftrightarrow>
     heap_ok s \<and>
     (\<forall>ch. owners s ch + carries ch ms + length (sys_chans s ch) \<le> (if ch < sys_nextch s then 1 else 0)) \<and>
     (\<forall>a. \<forall>m \<in> set (mails s a). msg_ok m) \<and> (\<forall>m \<in> set ms. msg_ok m) \<and>
     int (queued s) + int (length ms) \<le> sys_live s"

lemma carries_simps [simp]:
  "carries ch [] = 0"
  "carries ch (m # ms) = (if ChanInvokeResult m = Some ch then Suc (carries ch ms) else carries ch ms)"
  "carries ch (ms @ ns) = carries ch ms + carries ch ns"
  by (simp_all add: carries_def)

text \<open>Sums over the heap after the mailbox of one actor changed.\<close>

lemma sum_upd:
  fixes g :: "'b \<Rightarrow> nat" and n :: nat
  assumes "x < n"
  shows "(\<Sum>a < n. g ((f(x := y)) a)) + g (f x) = (\<Sum>a < n. g (f a)) + g y"
proof -
  have "(\<Sum>a < n. g ((f(x := y)) a)) = g y + (\<Sum>a \<in> {..<n} - {x}. g (f a))"
    using assms by (subst sum.remove [of _ x]) (auto intro: sum.cong)
  moreover have "(\<Sum>a < n. g (f a)) = g (f x) + (\<Sum>a \<in> {..<n} - {x}. g (f a))"
    using assms by (subst sum.remove [of _ x]) auto
  ultimately show ?thesis by simp
qed

lemma sum_extend:
  fixes g :: "'b list \<Rightarrow> nat" and n m :: nat
  assumes "n \<le> m" and "\<And>a. n \<le> a \<Longrightarrow> f a = []" and "g [] = 0"
  shows "(\<Sum>a < m. g (f a)) = (\<Sum>a < n. g (f a))"
  using assms by (intro sum.mono_neutral_right) auto

lemma mails_beyond: "heap_ok s \<Longrightarrow> sys_next s \<le> a \<Longrightarrow> mails s a = []"
  by (auto simp: heap_ok_def mails_def split: option.splits)

section \<open>Operations that touch no message\<close>

text \<open>
  \<open>calm s s'\<close>: the step sends no result, allocates no channel and queues nothing; it may destroy
  mailboxes and allocate actors with empty ones.
\<close>

definition calm :: "('v, 'h) System \<Rightarrow> ('v, 'h) System \<Rightarrow> bool" where
  "calm s s' \<longleftrightarrow>
     sys_chans s' = sys_chans s \<and> sys_nextch s' = sys_nextch s \<and> sys_live s' = sys_live s \<and>
     sys_next s \<le> sys_next s' \<and> (heap_ok s \<longrightarrow> heap_ok s') \<and>
     (\<forall>a. mails s' a = mails s a \<or> mails s' a = [])"

lemma calm_refl [simp, intro]: "calm s s"
  by (simp add: calm_def)

lemma calm_trans [trans]: "calm s s' \<Longrightarrow> calm s' s'' \<Longrightarrow> calm s s''"
  unfolding calm_def by (metis order_trans)

lemma calm_fold: "(\<And>x s. calm s (f x s)) \<Longrightarrow> calm s (fold f xs s)"
  by (induction xs arbitrary: s) (auto intro: calm_trans)

lemma calm_sum:
  fixes g :: "'v Message list \<Rightarrow> nat"
  assumes "calm s s'" "heap_ok s" "g [] = 0"
  shows "(\<Sum>a < sys_next s'. g (mails s' a)) \<le> (\<Sum>a < sys_next s. g (mails s a))"
proof -
  have "(\<Sum>a < sys_next s'. g (mails s' a)) \<le> (\<Sum>a < sys_next s'. g (mails s a))"
  proof (rule sum_mono)
    fix a
    have "mails s' a = mails s a \<or> mails s' a = []" using assms(1) by (simp add: calm_def)
    then show "g (mails s' a) \<le> g (mails s a)" using assms(3) by auto
  qed
  also have "\<dots> = (\<Sum>a < sys_next s. g (mails s a))"
    using assms by (intro sum_extend) (auto simp: calm_def mails_beyond)
  finally show ?thesis .
qed

lemma calm_flight:
  assumes "calm s s'" and "flight_inv ms s"
  shows "flight_inv ms s'"
proof -
  have h: "heap_ok s" using assms(2) by (simp add: flight_inv_def)
  have o: "owners s' ch \<le> owners s ch" for ch
    unfolding owners_def by (rule calm_sum [OF assms(1) h]) simp
  have q: "queued s' \<le> queued s"
    unfolding queued_def by (rule calm_sum [OF assms(1) h]) simp
  have sub: "set (mails s' a) \<subseteq> set (mails s a)" for a
  proof -
    have "mails s' a = mails s a \<or> mails s' a = []" using assms(1) by (simp add: calm_def)
    then show ?thesis by auto
  qed
  have "owners s' ch + carries ch ms + length (sys_chans s' ch) \<le> (if ch < sys_nextch s' then 1 else 0)" for ch
  proof -
    have "owners s ch + carries ch ms + length (sys_chans s ch) \<le> (if ch < sys_nextch s then 1 else 0)"
      using assms(2) unfolding flight_inv_def by blast
    with o [of ch] assms(1) show ?thesis by (simp add: calm_def)
  qed
  moreover have "int (queued s') + int (length ms) \<le> sys_live s'"
    using q assms by (simp add: calm_def flight_inv_def)
  ultimately show ?thesis
    using assms sub unfolding flight_inv_def calm_def by blast
qed

lemma calm_upd:
  assumes "\<And>x. a_mail (f x) = a_mail x \<or> a_mail (f x) = []"
  shows "calm s (upd_actor a f s)"
  using assms by (auto simp: calm_def upd_actor_def mails_def heap_ok_def split: option.splits)

lemma calm_then_upd:
  assumes "calm s t" and "\<And>x. a_mail (f x) = a_mail x"
  shows "calm s (upd_actor a f t)"
  by (rule calm_trans [OF assms(1) calm_upd]) (simp add: assms(2))

lemma calm_other:
  assumes "sys_chans s' = sys_chans s" "sys_nextch s' = sys_nextch s" "sys_live s' = sys_live s"
    "sys_next s' = sys_next s" "sys_heap s' = sys_heap s"
  shows "calm s s'"
  using assms by (auto simp: calm_def mails_def heap_ok_def)

lemma calm_alloc: "a_mail x = [] \<Longrightarrow> calm s (snd (alloc_actor x s))"
  by (auto simp: alloc_actor_def calm_def mails_def heap_ok_def split: option.splits
      intro: less_SucI)

lemma calm_removeActorEvent: "calm s (removeActorEvent p ns s)"
proof (induction p ns s rule: removeActorEvent.induct)
  case (2 p n ns s)
  have "calm s (case map_of (sys_actorEventMap s) n of None \<Rightarrow> s
        | Some m \<Rightarrow> s\<lparr>sys_actorEventMap := AList.update n (AList.delete p m) (sys_actorEventMap s)\<rparr>)"
    by (auto intro: calm_other split: option.splits)
  with 2 show ?case by (auto intro: calm_trans)
qed simp

lemma calm_event_Register: "calm s (event_Register a n f u s)"
proof -
  have "calm s (addActorEvent p n u s)" for p
    by (rule calm_other) (simp_all add: addActorEvent_def Let_def)
  then show ?thesis
    by (auto simp: event_Register_def intro!: calm_then_upd split: option.splits)
qed

lemma calm_Unregister: "calm s (Unregister a n s)"
  by (auto simp: Unregister_def intro!: calm_then_upd calm_removeActorEvent
      simp del: removeActorEvent.simps split: option.splits)

lemma calm_mail_Register: "mail_Register a m h s = Inr s' \<Longrightarrow> calm s s'"
  by (auto simp: mail_Register_def Let_def split: option.splits if_splits sum.splits
      intro!: calm_upd intro: calm_trans [OF calm_other calm_upd])

lemma calm_run_OnInit: "calm s (snd (run_OnInit a cs s))"
proof (induction a cs s rule: run_OnInit.induct)
  case (2 a c cs s)
  then show ?case
    by (cases c)
       (auto split: sum.splits intro: calm_trans calm_mail_Register calm_event_Register calm_Unregister)
qed simp

lemma calm_initialize: "calm s (snd (initialize a s))"
proof (cases "sys_heap s a")
  case (Some x)
  obtain r s1 where r: "run_OnInit a (OnInit (a_handler x)) s = (r, s1)" by force
  with calm_run_OnInit [of s a "OnInit (a_handler x)"] have "calm s s1" by simp
  moreover have "calm s1 (upd_actor a (\<lambda>x. x\<lparr>a_state := WorkerState\<rparr>) s1)" by (rule calm_upd) simp
  ultimately show ?thesis
    using r Some by (auto simp: initialize_def intro: calm_trans split: option.splits)
qed (simp add: initialize_def)

lemma calm_Exit: "calm s (Exit a s)"
  unfolding Exit_def by (rule calm_upd) simp

lemma calm_leave: "calm s (leave_maps x s)"
proof -
  have "calm s (removeActor i s)" for i :: string and s :: "('a, 'b) System"
    by (rule calm_other) (simp_all add: removeActor_def)
  moreover have "calm s (child_onStop x s)" for s :: "('a, 'b) System"
    unfolding child_onStop_def by (rule calm_fold) (auto intro: calm_Exit)
  ultimately show ?thesis
    by (auto simp: leave_maps_def intro: calm_trans calm_upd split: option.splits)
qed

lemma calm_withdraw: "calm s (withdraw_routes x s)"
  by (auto simp: withdraw_routes_def intro: calm_other split: option.splits)

lemma calm_stop_queues: "calm s (mail_onStop a (event_onStop a x s))"
proof -
  have "calm s (event_onStop a x s)"
    unfolding event_onStop_def by (rule calm_trans [OF calm_removeActorEvent calm_upd]) simp
  then show ?thesis
    unfolding mail_onStop_def by (rule calm_trans [OF _ calm_upd]) simp
qed

lemma calm_onStop: "calm s (onStop a s)"
proof (cases "sys_heap s a")
  case (Some x)
  obtain h p where h: "OnStop (a_handler x) (a_priv x) = (h, p)" by force
  let ?s1 = "leave_maps x (withdraw_routes x s)"
  let ?s2 = "upd_actor a (\<lambda>y. y\<lparr>a_priv := h, a_exited := True\<rparr>) ?s1"
  let ?s3 = "if p = None then mail_onStop a (event_onStop a x ?s2) else ?s2"
  have "calm s ?s1" by (rule calm_trans [OF calm_withdraw calm_leave])
  also have "calm ?s1 ?s2" by (rule calm_upd) simp
  also have "calm ?s2 ?s3" using calm_stop_queues by auto
  also have "calm ?s3 (?s3\<lparr>sys_wg := sys_wg ?s3 - 1\<rparr>)" by (rule calm_other) simp_all
  finally show ?thesis using Some h by (simp add: onStop_def Let_def)
qed (simp add: onStop_def)

lemma calm_run_start: "calm s (run_start a s)"
proof -
  obtain r s1 where r: "initialize a s = (r, s1)" by force
  with calm_initialize [of s a] have "calm s s1" by simp
  then show ?thesis
    using r by (auto simp: run_start_def intro!: calm_then_upd intro: calm_trans [OF _ calm_onStop]
        split: option.splits)
qed

lemma newActor_mail: "newActor i c h s = Inr x \<Longrightarrow> a_mail x = []"
  by (auto simp: newActor_def split: if_splits)

lemma calm_wg: "calm s (s\<lparr>sys_actorMap := m, sys_wg := w\<rparr>)" "calm s (s\<lparr>sys_wg := w\<rparr>)"
  by (rule calm_other; simp)+

lemma calm_CreateActor_begin: "calm s (snd (CreateActor_begin i h s))"
proof -
  have "calm s (snd (alloc_actor x s)\<lparr>sys_actorMap := m, sys_wg := w\<rparr>)" if "newActor i [] h s = Inr x" for x m w
    by (rule calm_trans [OF calm_alloc calm_wg(1)]) (rule newActor_mail [OF that])
  then show ?thesis
    by (auto simp: CreateActor_begin_def Let_def split_beta split: option.splits sum.splits)
qed

lemma calm_child_Create_begin: "calm s (snd (child_Create_begin p c h s))"
proof -
  have "calm s ((upd_actor p f (snd (alloc_actor x s)))\<lparr>sys_wg := w\<rparr>)"
    if "newActor i c h s = Inr x" "\<And>x. a_mail (f x) = a_mail x" for i x w f
    by (rule calm_trans [OF calm_trans [OF calm_alloc calm_upd] calm_wg(2)])
       (use that in \<open>auto dest: newActor_mail\<close>)
  then show ?thesis
    by (auto simp: child_Create_begin_def Let_def split_beta split: option.splits sum.splits)
qed

lemma calm_child_Create: "calm s (snd (child_Create p c h s))"
proof -
  obtain r s1 where r: "child_Create_begin p c h s = (r, s1)" by force
  with calm_child_Create_begin [of s p c h] have "calm s s1" by simp
  with r show ?thesis
    by (auto simp: child_Create_def Let_def intro: calm_trans calm_run_start split: sum.splits bool.splits)
qed

lemma calm_findChildActor: "calm s (snd (findChildActor a m s))"
  using calm_child_Create [of s a]
  by (auto simp: findChildActor_def split: option.splits found.splits prod.splits sum.splits)
     (metis snd_conv)+

lemma calm_PostEvent: "calm s (PostEvent d s)"
proof -
  have "calm s (deliver_event data sub s)" for data and sub and s :: "('a, 'b) System"
    by (auto simp: deliver_event_def event_Push_def intro: calm_upd split: option.splits)
  then show ?thesis
    by (auto simp: PostEvent_def intro: calm_fold split: option.splits)
qed

section \<open>Operations that move messages\<close>

lemma mails_upd:
  "sys_heap s a = Some x \<Longrightarrow> mails (upd_actor a f s) = (mails s)(a := a_mail (f x))"
  by (auto simp: mails_def upd_actor_def fun_eq_iff)

lemma upd_actor_same [simp]:
  "sys_chans (upd_actor a f s) = sys_chans s" "sys_nextch (upd_actor a f s) = sys_nextch s"
  "sys_live (upd_actor a f s) = sys_live s" "sys_next (upd_actor a f s) = sys_next s"
  "sys_app (upd_actor a f s) = sys_app s" "sys_now (upd_actor a f s) = sys_now s"
  "sys_actorMap (upd_actor a f s) = sys_actorMap s" "sys_crashed (upd_actor a f s) = sys_crashed s"
  "sys_actorEventMap (upd_actor a f s) = sys_actorEventMap s" "sys_wg (upd_actor a f s) = sys_wg s"
  by (auto simp: upd_actor_def split: option.splits)

lemma upd_actor_heap:
  "sys_heap (upd_actor a f s) b = (if a = b then map_option f (sys_heap s b) else sys_heap s b)"
  by (auto simp: upd_actor_def split: option.splits)

text \<open>Popping the head of a mailbox takes it in hand; posting puts it back into some mailbox.\<close>

lemma sum_mails_upd:
  fixes g :: "'v Message list \<Rightarrow> nat"
  assumes "heap_ok s" "sys_heap s a = Some x"
  shows "(\<Sum>b < sys_next s. g (mails (upd_actor a f s) b)) + g (a_mail x) =
    (\<Sum>b < sys_next s. g (mails s b)) + g (a_mail (f x))"
proof -
  have "a < sys_next s" using assms by (auto simp: heap_ok_def)
  from sum_upd [OF this, of g "mails s" "a_mail (f x)"] assms(2) show ?thesis
    by (simp add: mails_upd) (simp add: mails_def)
qed

lemma heap_ok_upd: "heap_ok s \<Longrightarrow> heap_ok (upd_actor a f s)"
  by (auto simp: heap_ok_def upd_actor_heap split: if_splits)

lemma owners_upd:
  "heap_ok s \<Longrightarrow> sys_heap s a = Some x \<Longrightarrow>
   owners (upd_actor a f s) ch + carries ch (a_mail x) = owners s ch + carries ch (a_mail (f x))"
  unfolding owners_def by (simp add: sum_mails_upd)

lemma queued_upd:
  "heap_ok s \<Longrightarrow> sys_heap s a = Some x \<Longrightarrow>
   queued (upd_actor a f s) + length (a_mail x) = queued s + length (a_mail (f x))"
  unfolding queued_def by (simp add: sum_mails_upd)

lemma flight_inv_bound:
  "flight_inv ms s \<Longrightarrow>
   owners s ch + carries ch ms + length (sys_chans s ch) \<le> (if ch < sys_nextch s then 1 else 0)"
  unfolding flight_inv_def by blast

lemma flight_msgs: "flight_inv ms s \<Longrightarrow> sys_heap s a = Some x \<Longrightarrow> m \<in> set (a_mail x) \<Longrightarrow> msg_ok m"
  unfolding flight_inv_def mails_def by (metis option.simps(5))

lemma flight_pop:
  assumes I: "flight_inv [] s" and x: "sys_heap s a = Some x" "a_mail x = m # rest"
    and f: "a_mail (f x) = rest"
  shows "flight_inv [m] (upd_actor a f s)"
proof -
  have h: "heap_ok s" using I by (simp add: flight_inv_def)
  have ok: "\<forall>k \<in> set (m # rest). msg_ok k" "\<forall>b. \<forall>k \<in> set (mails s b). msg_ok k"
    using I x flight_msgs [OF I x(1)] by (simp_all add: flight_inv_def)
  have o: "owners (upd_actor a f s) ch + carries ch [m] = owners s ch" for ch
    using owners_upd [OF h x(1), of f ch] x f by (simp split: if_splits)
  have q: "queued (upd_actor a f s) + 1 = queued s"
    using queued_upd [OF h x(1), of f] x f by simp
  have "owners (upd_actor a f s) ch + carries ch [m] + length (sys_chans s ch)
      \<le> (if ch < sys_nextch s then 1 else 0)" for ch
    unfolding o using flight_inv_bound [OF I, of ch] by simp
  moreover have "int (queued (upd_actor a f s)) + 1 \<le> sys_live s"
    using I q by (simp add: flight_inv_def)
  ultimately show ?thesis
    using h ok x f by (simp add: flight_inv_def heap_ok_upd mails_upd)
qed

lemma flight_push:
  assumes I: "flight_inv [m] s" and x: "sys_heap s a = Some x" and f: "a_mail (f x) = a_mail x @ [m]"
  shows "flight_inv [] (upd_actor a f s)"
proof -
  have h: "heap_ok s" and ok: "msg_ok m" "\<forall>b. \<forall>k \<in> set (mails s b). msg_ok k"
    using I by (simp_all add: flight_inv_def)
  have o: "owners (upd_actor a f s) ch = owners s ch + carries ch [m]" for ch
    using owners_upd [OF h x(1), of f ch] x f by (simp split: if_splits)
  have q: "queued (upd_actor a f s) = queued s + 1"
    using queued_upd [OF h x(1), of f] x f by simp
  have "owners (upd_actor a f s) ch + length (sys_chans s ch) \<le> (if ch < sys_nextch s then 1 else 0)" for ch
    unfolding o using flight_inv_bound [OF I, of ch] by simp
  moreover have "int (queued (upd_actor a f s)) \<le> sys_live s"
    using I q by (simp add: flight_inv_def)
  moreover have "\<forall>k \<in> set (a_mail x). msg_ok k" using flight_msgs [OF I x(1)] by blast
  ultimately show ?thesis
    using h ok x f by (simp add: flight_inv_def heap_ok_upd mails_upd)
qed

text \<open>A change of the fields that count results, and of fields no count depends on.\<close>

lemma flight_crash:
  assumes "flight_inv (m # ms) s"
  shows "flight_inv ms s"
proof -
  have "carries ch ms \<le> carries ch (m # ms)" for ch by simp
  then have "owners s ch + carries ch ms + length (sys_chans s ch) \<le> (if ch < sys_nextch s then 1 else 0)" for ch
    using flight_inv_bound [OF assms, of ch] by (meson add_le_mono le_refl order_trans)
  with assms show ?thesis by (simp add: flight_inv_def)
qed

lemma counts_same:
  assumes "sys_heap s' = sys_heap s" "sys_next s' = sys_next s"
  shows "owners s' = owners s" "queued s' = queued s" "mails s' = mails s" "heap_ok s' = heap_ok s"
proof -
  show m: "mails s' = mails s" using assms by (simp add: mails_def fun_eq_iff)
  show "owners s' = owners s" "queued s' = queued s" "heap_ok s' = heap_ok s"
    using assms by (simp_all add: owners_def queued_def m heap_ok_def fun_eq_iff)
qed

lemma flight_other:
  assumes "flight_inv ms s" "sys_heap s' = sys_heap s" "sys_next s' = sys_next s"
    "sys_chans s' = sys_chans s" "sys_nextch s' = sys_nextch s" "sys_live s' = sys_live s"
  shows "flight_inv ms s'"
  using assms(1,4-6) counts_same [OF assms(2,3)] unfolding flight_inv_def by simp

lemma flight_actor_post: "flight_inv [m] s \<Longrightarrow> flight_inv [] (actor_post c m s)"
  by (auto simp: actor_post_def mail_Push_def split: option.splits
      intro: flight_push flight_other [OF flight_crash])

lemma flight_finish:
  assumes "flight_inv [m] s"
  shows "flight_inv [] (finishTyped m r s)"
proof -
  let ?s = "finishTyped m r s"
  have heap: "sys_heap ?s = sys_heap s" "sys_next ?s = sys_next s" "sys_nextch ?s = sys_nextch s"
    by (auto simp: finishTyped_def Let_def split: option.splits)
  have c: "length (sys_chans ?s ch) = length (sys_chans s ch) + carries ch [m]" for ch
    by (auto simp: finishTyped_def Let_def split: option.splits)
  have l: "sys_live ?s = sys_live s - 1"
    by (auto simp: finishTyped_def Let_def split: option.splits)
  have "owners ?s ch + length (sys_chans ?s ch) \<le> (if ch < sys_nextch ?s then 1 else 0)" for ch
    unfolding c counts_same(1) [OF heap(1,2)] heap(3) using flight_inv_bound [OF assms, of ch] by simp
  then show ?thesis
    using assms l counts_same [OF heap(1,2)] by (simp add: flight_inv_def)
qed

lemma flight_take:
  assumes "flight_inv [] s" "msg_ok m" "ChanInvokeResult m = None"
  shows "flight_inv [m] (take_message s)"
  using assms counts_same [of "take_message s" s]
  by (simp add: flight_inv_def take_message_def)

lemma flight_drop: "flight_inv [m] s \<Longrightarrow> flight_inv [] (drop_message s)"
  using counts_same [of "drop_message s" s] flight_crash [of m "[]" s]
  by (simp add: flight_inv_def drop_message_def)

lemma flight_new_chan:
  assumes "flight_inv [m] s" "ChanInvokeResult m = None" "new_chan s = (ch, s')"
  shows "flight_inv [m\<lparr>ChanInvokeResult := Some ch\<rparr>] s'"
proof -
  have s': "s' = s\<lparr>sys_nextch := Suc (sys_nextch s)\<rparr>" and ch: "ch = sys_nextch s"
    using assms(3) by (auto simp: new_chan_def)
  have c: "owners s' = owners s" "queued s' = queued s" "mails s' = mails s" "heap_ok s' = heap_ok s"
    unfolding s' by (rule counts_same; simp)+
  have b: "owners s k + length (sys_chans s k) \<le> (if k < sys_nextch s then 1 else 0)" for k
    using flight_inv_bound [OF assms(1), of k] assms(2) by simp
  have "owners s k + carries k [m\<lparr>ChanInvokeResult := Some ch\<rparr>] + length (sys_chans s k)
      \<le> (if k < Suc (sys_nextch s) then 1 else 0)" for k
    using b [of k] ch by (auto split: if_splits)
  then show ?thesis
    using assms(1) c s' by (simp add: flight_inv_def msg_ok_def)
qed

lemma TargetPath_same:
  "ChanInvokeResult (snd (TargetPath m)) = ChanInvokeResult m" "msg_ok (snd (TargetPath m)) = msg_ok m"
  "MethodID (snd (TargetPath m)) = MethodID m" "msg_Payload (snd (TargetPath m)) = msg_Payload m"
  "msg_Context (snd (TargetPath m)) = msg_Context m"
  by (auto simp: TargetPath_def msg_ok_def Let_def split: option.splits)

lemma flight_same:
  assumes "flight_inv [m] s" "ChanInvokeResult m' = ChanInvokeResult m" "msg_ok m' = msg_ok m"
  shows "flight_inv [m'] s"
  using assms unfolding flight_inv_def by simp

section \<open>Deadlines of queued work\<close>

lemma rc_Deadline_Clone: "rc_Deadline (rc_Clone (Some c) (Some p)) = cx_deadline p"
  by (simp add: rc_Deadline_def)

lemma ensure_Context: "ensureRequestContext app ctx = Inr c \<Longrightarrow> Context c \<noteq> None"
  by (auto simp: ensureRequestContext_def Let_def NewRequestContext_def split: option.splits if_splits)

lemma newInvokeContext_deadline:
  assumes "newInvokeContext s source = Inr c"
  shows "\<exists>d. rc_Deadline c = Some d"
  using assms WithDeadline_deadline
  by (auto simp: newInvokeContext_def rc_Deadline_Clone WithCancel_def WithTimeout_def ctx_of_def
      rc_Deadline_def split: sum.splits option.splits if_splits) (metis option.simps)+

lemma newNotifyContext_deadline:
  assumes "newNotifyContext s source = Inr c"
  shows "\<exists>d. rc_Deadline c = Some d"
  using assms WithDeadline_deadline
  by (auto simp: newNotifyContext_def rc_Deadline_Clone WithTimeout_def Let_def
      split: sum.splits option.splits) metis+

lemma msg_ok_typed: "rc_Deadline c = Some d \<Longrightarrow> msg_ok (typedMessage c t m p)"
  by (simp add: msg_ok_def typedMessage_def)

lemma typedMessage_chan [simp]: "ChanInvokeResult (typedMessage c t m p) = None"
  by (simp add: typedMessage_def GetMessage_def)

lemma msg_ok_updates [simp]:
  "msg_ok (m\<lparr>ChanInvokeResult := c\<rparr>) = msg_ok m" "msg_ok (m\<lparr>Cancel := b\<rparr>) = msg_ok m"
  by (simp_all add: msg_ok_def)

section \<open>Every operation keeps the invariant\<close>

lemma flight_invokeTyped: "flight_inv [m] s \<Longrightarrow> flight_inv [] (invokeTyped a m s) \<or> sys_heap s a = None"
proof (cases "sys_heap s a")
  case (Some x)
  assume I: "flight_inv [m] s"
  obtain h r where h: "handle_message (sys_app s) (sys_now s) x m = (h, r)" by force
  have "calm s (upd_actor a (\<lambda>x. x\<lparr>a_priv := h\<rparr>) s)" by (rule calm_upd) simp
  from flight_finish [OF calm_flight [OF this I]] Some h show ?thesis
    by (simp add: invokeTyped_def)
qed simp

lemma flight_processTyped:
  assumes I: "flight_inv [m] s" and x: "sys_heap s a = Some x"
  shows "flight_inv [] (processTyped a m s)"
proof -
  obtain tp m' where tp: "TargetPath m = (tp, m')" by force
  then have I': "flight_inv [m'] s"
    using flight_same [OF I] TargetPath_same [of m] by (metis snd_conv)
  obtain r s' where f: "findChildActor a m' s = (r, s')" by force
  with calm_findChildActor [of s a m'] calm_flight I' have Is: "flight_inv [m'] s'" by auto
  show ?thesis
    using tp f x flight_invokeTyped [OF I', of a] flight_finish [OF Is] flight_actor_post [OF Is]
      flight_other [OF flight_crash [OF Is], of "s'\<lparr>sys_crashed := True\<rparr>"]
    by (auto simp: processTyped_def split: option.splits sum.splits)
qed

lemma flight_processMail:
  assumes I: "flight_inv [] s"
  shows "flight_inv [] (processMail a s)"
proof (cases "sys_heap s a")
  case (Some x)
  show ?thesis
  proof (cases "a_mail x")
    case (Cons m rest)
    let ?f = "\<lambda>x. x\<lparr>a_mail := rest, a_lastAt := sys_now s div 1000000000\<rparr>"
    have P: "flight_inv [m] (upd_actor a ?f s)" by (rule flight_pop [OF I Some Cons]) simp
    have "sys_heap (upd_actor a ?f s) a = Some (?f x)" using Some by (simp add: upd_actor_heap)
    from flight_processTyped [OF P this] flight_finish [OF P] show ?thesis
      using Some Cons by (simp add: processMail_def Let_def)
  qed (use I Some in \<open>simp add: processMail_def\<close>)
qed (use I in \<open>simp add: processMail_def\<close>)

lemma calm_processEvent: "calm s (processEvent a s)"
proof -
  have "a_mail (event_invokeFunc d x) = a_mail x" for d and x :: "('a, 'b) Actor"
    by (auto simp: event_invokeFunc_def split: option.splits)
  then show ?thesis by (auto simp: processEvent_def intro: calm_upd split: option.splits list.splits)
qed

lemma flight_run_iteration:
  assumes I: "flight_inv [] s"
  shows "flight_inv [] (run_iteration sel a s)"
proof -
  obtain b t where l: "loop sel a s = (b, t)" by force
  have "calm s (upd_actor a (\<lambda>x. x\<lparr>a_close := False, a_state := StopState\<rparr>) s)" by (rule calm_upd) simp
  with l I have "flight_inv [] t"
    by (auto simp: loop_def split: option.splits if_splits sel.splits
        intro: flight_processMail calm_flight [OF calm_processEvent] calm_flight)
  with l calm_flight [OF calm_onStop] show ?thesis
    by (auto simp: run_iteration_def split: bool.splits)
qed

lemma flight_InvokeChild:
  assumes I: "flight_inv [] s"
  shows "flight_inv [] (snd (InvokeChild a ctx c mid p s))"
proof -
  have "flight_inv [] (snd (case findChildActor a m (take_message s) of
            (Inl p, s) \<Rightarrow> (CallPanic p, s)
          | (Inr None, s) \<Rightarrow>
              (Returned (ErrorResult STATUS_NOT_FOUND ''child actor not found''), drop_message s)
          | (Inr (Some c), s) \<Rightarrow>
              (let (ch, s) = new_chan s; m = snd (TargetPath m)\<lparr>ChanInvokeResult := Some ch\<rparr>
               in (Await ch ic, actor_post c m s))))" (is "flight_inv [] (snd ?r)")
    if m: "m = typedMessage ic t mid p" and ic: "newInvokeContext s sc = Inr ic" for m ic t sc
  proof -
    obtain d where "rc_Deadline ic = Some d" using newInvokeContext_deadline [OF ic] by blast
    then have ok: "msg_ok m" by (simp add: m msg_ok_typed)
    have T: "flight_inv [m] (take_message s)" by (rule flight_take [OF I ok]) (simp add: m)
    obtain r s1 where f: "findChildActor a m (take_message s) = (r, s1)" by force
    with calm_flight [OF calm_findChildActor [of "take_message s" a m] T] have F: "flight_inv [m] s1" by simp
    obtain ch s2 where n: "new_chan s1 = (ch, s2)" by force
    from flight_same [OF F, of "snd (TargetPath m)"] have "flight_inv [snd (TargetPath m)] s1"
      by (simp add: TargetPath_same)
    from flight_new_chan [OF this _ n] have N: "flight_inv [snd (TargetPath m)\<lparr>ChanInvokeResult := Some ch\<rparr>] s2"
      by (simp add: TargetPath_same m)
    from f n flight_drop [OF F] flight_crash [OF F] flight_actor_post [OF N] show ?thesis
      by (auto split: sum.splits option.splits)
  qed
  with I show ?thesis
    unfolding InvokeChild_def Let_def by (auto split: option.splits sum.splits)
qed

lemma flight_NotifyChild:
  assumes I: "flight_inv [] s"
  shows "flight_inv [] (snd (NotifyChild a ctx c mid p s))"
proof -
  have "flight_inv [] (snd (case findChildActor a m (take_message s) of
            (Inl p, s) \<Rightarrow> (CallPanic p, s)
          | (Inr None, s) \<Rightarrow>
              (Returned (ErrorResult STATUS_NOT_FOUND ''child actor not found''), drop_message s)
          | (Inr (Some c), s) \<Rightarrow> (Returned (OKResult PNil), actor_post c (snd (TargetPath m)) s)))"
    if m: "m = (typedMessage ic t mid p)\<lparr>Cancel := True\<rparr>" and ic: "newNotifyContext s sc = Inr ic" for m ic t sc
  proof -
    obtain d where "rc_Deadline ic = Some d" using newNotifyContext_deadline [OF ic] by blast
    then have ok: "msg_ok m" by (simp add: m msg_ok_typed)
    have T: "flight_inv [m] (take_message s)" by (rule flight_take [OF I ok]) (simp add: m)
    obtain r s1 where f: "findChildActor a m (take_message s) = (r, s1)" by force
    with calm_flight [OF calm_findChildActor [of "take_message s" a m] T] have F: "flight_inv [m] s1" by simp
    from flight_same [OF F, of "snd (TargetPath m)"] have N: "flight_inv [snd (TargetPath m)] s1"
      by (simp add: TargetPath_same)
    from f flight_drop [OF F] flight_crash [OF F] flight_actor_post [OF N] show ?thesis
      by (auto split: sum.splits option.splits)
  qed
  with I show ?thesis
    unfolding NotifyChild_def Let_def by (auto split: option.splits sum.splits)
qed

lemma flight_post:
  assumes "flight_inv [m] s" "post (Some m) s = (b, s')"
  shows "if b then flight_inv [] s' else s' = s"
proof -
  obtain tp m' where tp: "TargetPath m = (tp, m')" by force
  then have "flight_inv [m'] s"
    using flight_same [OF assms(1)] TargetPath_same [of m] by (metis snd_conv)
  with assms(2) tp flight_actor_post show ?thesis
    by (auto simp: post_def split: option.splits if_splits)
qed

lemma calm_remote:
  "calm s (snd (invokeRemote ctx t n m p s))" "calm s (snd (notifyRemote ctx t n m p s))"
  by (auto simp: invokeRemote_def notifyRemote_def buildClusterMessage_def Let_def
      split: option.splits sum.splits intro: calm_other)

lemma flight_InvokeTarget:
  assumes I: "flight_inv [] s"
  shows "flight_inv [] (snd (InvokeTarget ctx t mid p s))"
proof -
  have "flight_inv [] (snd (let (ch, s) = new_chan (take_message s);
               m = (typedMessage ic t mid p)\<lparr>ChanInvokeResult := Some ch\<rparr>
           in case post (Some m) s of
                (True, s) \<Rightarrow> (Await ch ic, s)
              | (False, s) \<Rightarrow>
                  (Returned (ErrorResult STATUS_NOT_FOUND ''actor not found''), drop_message s)))"
    if ic: "newInvokeContext s sc = Inr ic" for ic sc
  proof -
    let ?m = "typedMessage ic t mid p"
    obtain d where "rc_Deadline ic = Some d" using newInvokeContext_deadline [OF ic] by blast
    then have T: "flight_inv [?m] (take_message s)" by (intro flight_take [OF I]) (simp_all add: msg_ok_typed)
    obtain ch s1 where n: "new_chan (take_message s) = (ch, s1)" by force
    have N: "flight_inv [?m\<lparr>ChanInvokeResult := Some ch\<rparr>] s1" by (rule flight_new_chan [OF T _ n]) simp
    obtain b s2 where b: "post (Some (?m\<lparr>ChanInvokeResult := Some ch\<rparr>)) s1 = (b, s2)" by force
    from n b flight_post [OF N b] flight_drop [OF N] show ?thesis by (cases b) auto
  qed
  with I flight_InvokeChild [OF I] calm_flight [OF calm_remote(1) I] show ?thesis
    unfolding InvokeTarget_def by (auto split: option.splits sum.splits)
qed

lemma flight_NotifyTarget:
  assumes I: "flight_inv [] s"
  shows "flight_inv [] (snd (NotifyTarget ctx t mid p s))"
proof -
  have "flight_inv [] (snd (let s = take_message s; m = (typedMessage ic t mid p)\<lparr>Cancel := True\<rparr>
           in case post (Some m) s of
                (True, s) \<Rightarrow> (Returned (OKResult PNil), s)
              | (False, s) \<Rightarrow>
                  (Returned (ErrorResult STATUS_NOT_FOUND ''actor not found''), drop_message s)))"
    if ic: "newNotifyContext s sc = Inr ic" for ic sc
  proof -
    let ?m = "(typedMessage ic t mid p)\<lparr>Cancel := True\<rparr>"
    obtain d where "rc_Deadline ic = Some d" using newNotifyContext_deadline [OF ic] by blast
    then have T: "flight_inv [?m] (take_message s)" by (intro flight_take [OF I]) (simp_all add: msg_ok_typed)
    obtain b s2 where b: "post (Some ?m) (take_message s) = (b, s2)" by force
    from b flight_post [OF T b] flight_drop [OF T] show ?thesis by (cases b) auto
  qed
  with I flight_NotifyChild [OF I] calm_flight [OF calm_remote(2) I] show ?thesis
    unfolding NotifyTarget_def Let_def by (auto split: option.splits sum.splits)
qed

lemma rc_Deadline_cancel:
  "rc_Deadline (c\<lparr>Context := map_option cancel_ctx (Context c)\<rparr>) = rc_Deadline c"
  by (cases "Context c") (simp_all add: rc_Deadline_def cancel_ctx_def split: option.splits)

lemma flight_cancel_call:
  assumes "flight_inv [] s"
  shows "flight_inv [] (cancel_call ch s)"
proof -
  have m: "mails (cancel_call ch s) a = map (cancel_message ch) (mails s a)" for a
    by (simp add: cancel_call_def mails_def split: option.splits)
  have "carries k (map (cancel_message ch) ms) = carries k ms" for k and ms :: "'a Message list"
    by (induction ms) (auto simp: cancel_message_def)
  then have "owners (cancel_call ch s) = owners s" "queued (cancel_call ch s) = queued s"
    by (simp_all add: owners_def queued_def m fun_eq_iff) (simp_all add: cancel_call_def)
  moreover have "msg_ok (cancel_message ch m) = msg_ok m" for m :: "'a Message"
    by (cases "msg_Context m") (simp_all add: cancel_message_def msg_ok_def rc_Deadline_cancel)
  moreover have "sys_chans (cancel_call ch s) = sys_chans s" "sys_nextch (cancel_call ch s) = sys_nextch s"
    "sys_live (cancel_call ch s) = sys_live s" "heap_ok (cancel_call ch s) = heap_ok s"
    by (simp_all add: cancel_call_def heap_ok_def)
  ultimately show ?thesis
    using assms unfolding flight_inv_def by (simp add: m)
qed

section \<open>Runs of the system\<close>

text \<open>
  A run interleaves the calls of the environment (transports, handlers, timers) with the iterations
  of the actor goroutines. Each call is one step: the look-up of an actor and the push to its mailbox
  happen without an iteration of that actor in between. The clock moves forward between steps, and the
  application may change its codecs and its cluster, but not forget its table.
\<close>

inductive astep :: "('v, 'h) System \<Rightarrow> ('v, 'h) System \<Rightarrow> bool" where
  create: "astep s (snd (CreateActor_begin i h s))"
| create_child: "astep s (snd (child_Create_begin p c h s))"
| start: "sys_heap s a = Some x \<Longrightarrow> a_initDone x = None \<Longrightarrow> astep s (run_start a s)"
| iterate: "sys_heap s a = Some x \<Longrightarrow> a_initDone x = Some None \<Longrightarrow> \<not> a_exited x \<Longrightarrow>
    astep s (run_iteration sel a s)"
| invoke: "astep s (snd (Invoke ctx m p s))"
| invoke_node: "astep s (snd (InvokeNode ctx n m p s))"
| invoke_target: "astep s (snd (InvokeTarget ctx t m p s))"
| invoke_child: "astep s (snd (InvokeChild a ctx c m p s))"
| notify: "astep s (snd (Notify ctx m p s))"
| notify_node: "astep s (snd (NotifyNode ctx n m p s))"
| notify_target: "astep s (snd (NotifyTarget ctx t m p s))"
| notify_child: "astep s (snd (NotifyChild a ctx c m p s))"
| event: "astep s (PostEvent d s)"
| subscribe: "astep s (event_Register a n f u s)"
| unsubscribe: "astep s (Unregister a n s)"
| exit: "astep s (Exit a s)"
| stop: "astep s (sys_Stop s)"
| cancel: "astep s (cancel_call ch s)"
| tick: "sys_now s \<le> t \<Longrightarrow> astep s (s\<lparr>sys_now := t\<rparr>)"
| timeout: "astep s (SetCallTimeout d s)"

inductive areach :: "('v, 'h) System \<Rightarrow> bool" where
  init: "areach (SetApp app NewSystem)"
| step: "areach s \<Longrightarrow> astep s s' \<Longrightarrow> areach s'"

inductive_cases astepE: "astep s s'"

lemma flight_calls:
  assumes "flight_inv [] s"
  shows "flight_inv [] (snd (Invoke ctx m p s))" "flight_inv [] (snd (Notify ctx m p s))"
    "flight_inv [] (snd (InvokeNode ctx n m p s))" "flight_inv [] (snd (NotifyNode ctx n m p s))"
  using assms flight_InvokeTarget [OF assms] flight_NotifyTarget [OF assms]
    calm_flight [OF calm_remote(1) assms] calm_flight [OF calm_remote(2) assms]
  by (auto simp: Invoke_def Notify_def InvokeNode_def NotifyNode_def split: sum.splits)

lemma astep_flight: "astep s s' \<Longrightarrow> flight_inv [] s \<Longrightarrow> flight_inv [] s'"
proof (induction rule: astep.induct)
  case (stop s)
  then show ?case unfolding sys_Stop_def
    by (intro calm_flight [OF calm_fold]) (auto intro: calm_Exit)
next
  case (tick s t)
  then show ?case by (auto intro: flight_other)
next
  case (timeout s d)
  then show ?case by (auto intro: flight_other simp: SetCallTimeout_def)
qed (auto intro: flight_calls flight_InvokeTarget flight_NotifyTarget flight_InvokeChild flight_NotifyChild
    flight_run_iteration flight_cancel_call calm_flight [OF calm_CreateActor_begin]
    calm_flight [OF calm_child_Create_begin] calm_flight [OF calm_run_start] calm_flight [OF calm_PostEvent]
    calm_flight [OF calm_event_Register] calm_flight [OF calm_Unregister] calm_flight [OF calm_Exit])

lemma areach_flight: "areach s \<Longrightarrow> flight_inv [] s"
proof (induction rule: areach.induct)
  case (init app)
  show ?case
    by (simp add: flight_inv_def heap_ok_def owners_def queued_def mails_def SetApp_def NewSystem_def)
qed (rule astep_flight)

lemma owners_member:
  assumes "heap_ok s" "m \<in> set (mails s a)" "ChanInvokeResult m = Some ch"
  shows "carries ch (mails s a) \<ge> 1" "carries ch (mails s a) \<le> owners s ch" "a < sys_next s"
proof -
  show c: "carries ch (mails s a) \<ge> 1"
    using assms(2,3) by (auto simp: carries_def Suc_le_eq filter_empty_conv)
  show a: "a < sys_next s" using assms(1,2) mails_beyond [of s a] by (cases "a < sys_next s") auto
  then show "carries ch (mails s a) \<le> owners s ch"
    unfolding owners_def by (intro member_le_sum) auto
qed

lemma owners_two:
  assumes "heap_ok s" "a \<noteq> b" "m \<in> set (mails s a)" "ChanInvokeResult m = Some ch"
    "k \<in> set (mails s b)" "ChanInvokeResult k = Some ch"
  shows "owners s ch \<ge> 2"
proof -
  have "a < sys_next s" "b < sys_next s" using owners_member assms by blast+
  then have "(\<Sum>i \<in> {a, b}. carries ch (mails s i)) \<le> owners s ch"
    unfolding owners_def by (intro sum_mono2) auto
  moreover have "carries ch (mails s a) \<ge> 1" "carries ch (mails s b) \<ge> 1"
    using owners_member assms by blast+
  ultimately show ?thesis using assms(2) by simp
qed

text \<open>
  A concrete node for evaluation: actor \<open>echo\<close> on node \<open>n\<close> counts its calls in its private state and
  answers the request; method 10 is a request, method 11 panics.
\<close>

definition echo_fn :: "(byte list, nat) handler_fn" where
  "echo_fn = \<lparr>hf_func = True, hf_in = [TRequestContext, TPtr 1 True], hf_out = [TPtr 1 True, TError],
     hf_call = (\<lambda>n ctx v. (Suc n, BizReturn (Some (TPtr 1 True, v)) None))\<rparr>"

definition panic_fn :: "(byte list, nat) handler_fn" where
  "panic_fn = echo_fn\<lparr>hf_call := (\<lambda>n ctx v. (n, BizPanic NilDeref))\<rparr>"

definition echo_handler :: "(byte list, nat) IActorHandler" where
  "echo_handler = Handler ''echo'' [InitRegister 10 (Some echo_fn), InitRegister 11 (Some panic_fn)]
     (\<lambda>_ _. NotFound) (\<lambda>h. (h, None)) 0"

definition demo_app :: "byte list App" where
  "demo_app = \<lparr>app_NodeID = ''n'', app_Methods = Some (NewTable True),
     app_BodyCodecs = app_registry identity_codecs, app_Cluster = None\<rparr>"

definition demo_created :: "(byte list, nat) System" where
  "demo_created = snd (CreateActor_begin ''echo'' echo_handler (SetApp (Some demo_app) NewSystem))"

definition demo_ready :: "(byte list, nat) System" where
  "demo_ready = run_start 0 demo_created"

definition demo_called :: "(byte list, nat) System" where
  "demo_called = snd (Invoke None 10 (PBytes [7]) demo_ready)"

lemma demo_created_reach: "areach demo_created"
  unfolding demo_created_def by (rule areach.step [OF areach.init astep.create])

lemma demo_created_actor: "\<exists>x. sys_heap demo_created 0 = Some x \<and> a_initDone x = None"
proof -
  have "map_option a_initDone (sys_heap demo_created 0) = Some None" by code_simp
  then show ?thesis by auto
qed

lemma demo_ready_reach: "areach demo_ready"
  unfolding demo_ready_def
  using demo_created_actor by (auto intro: areach.step [OF demo_created_reach] astep.start)

lemma demo_ready_app: "\<exists>app. sys_app demo_ready = Some app"
proof -
  have "sys_app demo_ready \<noteq> None" by code_simp
  then show ?thesis by blast
qed

lemma demo_called_reach: "areach demo_called"
  unfolding demo_called_def by (rule areach.step [OF demo_ready_reach astep.invoke])

text \<open>
  C1. Replies. In every reachable state a result channel holds at most one result, so the send in
  \<open>finishTyped\<close> never blocks an actor; while a queued message still carries a channel, nothing was sent
  on it and no other queued message carries it; every queued message has a deadline; and the pool never
  gets back a message that is still queued.
\<close>

theorem reply_at_most_once:
  assumes "areach s"
  shows "(\<forall>ch. length (sys_chans s ch) \<le> 1) \<and>
    (\<forall>a m ch. m \<in> set (mails s a) \<and> ChanInvokeResult m = Some ch \<longrightarrow>
       sys_chans s ch = [] \<and> carries ch (mails s a) = 1 \<and> (\<forall>b. b \<noteq> a \<longrightarrow> carries ch (mails s b) = 0)) \<and>
    (\<forall>a. \<forall>m \<in> set (mails s a). \<exists>c d. msg_Context m = Some c \<and> rc_Deadline c = Some d) \<and>
    int (queued s) \<le> sys_live s"
proof (intro conjI allI impI)
  have I: "flight_inv [] s" using assms by (rule areach_flight)
  then have h: "heap_ok s" by (simp add: flight_inv_def)
  have b: "owners s ch + length (sys_chans s ch) \<le> 1" for ch
    using flight_inv_bound [OF I, of ch] by (simp split: if_splits)
  show "length (sys_chans s ch) \<le> 1" for ch using b [of ch] by simp
  fix a m ch assume m: "m \<in> set (mails s a) \<and> ChanInvokeResult m = Some ch"
  then have "carries ch (mails s a) \<ge> 1" "carries ch (mails s a) \<le> owners s ch"
    using owners_member [OF h] by blast+
  with b [of ch] have "length (sys_chans s ch) = 0" "carries ch (mails s a) = 1" by linarith+
  then show "sys_chans s ch = []" "carries ch (mails s a) = 1" by simp_all
  fix c assume "c \<noteq> a"
  show "carries ch (mails s c) = 0"
  proof (rule ccontr)
    assume "carries ch (mails s c) \<noteq> 0"
    then obtain k where "k \<in> set (mails s c)" "ChanInvokeResult k = Some ch"
      by (auto simp: carries_def filter_empty_conv)
    with owners_two [OF h \<open>c \<noteq> a\<close> [symmetric]] m b [of ch] show False by fastforce
  qed
qed (use areach_flight [OF assms] in \<open>auto simp: flight_inv_def msg_ok_def\<close>)

theorem reply_at_most_once_witness:
  "areach demo_called \<and> map ChanInvokeResult (mails demo_called 0) = [Some 0] \<and>
   sys_chans demo_called 0 = []"
proof -
  have m: "map ChanInvokeResult (mails demo_called 0) = [Some 0]" by code_simp
  then obtain k where k: "mails demo_called 0 = [k]" "ChanInvokeResult k = Some 0" by auto
  then have "k \<in> set (mails demo_called 0) \<and> ChanInvokeResult k = Some 0" by simp
  with reply_at_most_once [OF demo_called_reach] have "sys_chans demo_called 0 = []" by blast
  with m demo_called_reach show ?thesis by blast
qed

section \<open>One message at a time\<close>

text \<open>
  The specification of an actor: it handles its messages one by one, in the order of the mailbox; each
  one sees the private state its predecessors left and is answered once.
\<close>

definition answer :: "'v App option \<Rightarrow> int \<Rightarrow> ('v, 'h) Actor \<Rightarrow> 'v Message \<Rightarrow> 'h \<times> 'v InvokeResult" where
  "answer app now x m =
     (if MethodID m = 0 then (a_priv x, ErrorResult STATUS_INVALID_ARGUMENT ''method id is required'')
      else handle_message app now x m)"

fun serve :: "'v App option \<Rightarrow> int \<Rightarrow> ('v, 'h) Actor \<Rightarrow> 'v Message list \<Rightarrow>
    'h \<times> ('v Message \<times> 'v InvokeResult) list" where
  "serve app now x [] = (a_priv x, [])"
| "serve app now x (m # ms) =
     (let (h, r) = answer app now x m; (h', rs) = serve app now (x\<lparr>a_priv := h\<rparr>) ms
      in (h', (m, r) # rs))"

definition send_replies ::
  "('v Message \<times> 'v InvokeResult) list \<Rightarrow> (nat \<Rightarrow> 'v InvokeResult list) \<Rightarrow> nat \<Rightarrow> 'v InvokeResult list" where
  "send_replies rs chans =
     fold (\<lambda>(m, r) c. case ChanInvokeResult m of None \<Rightarrow> c | Some ch \<Rightarrow> c(ch := c ch @ [r])) rs chans"

text \<open>A message this actor handles itself: it does not name a child of a top-level actor.\<close>

definition own_message :: "('v, 'h) Actor \<Rightarrow> 'v Message \<Rightarrow> bool" where
  "own_message x m \<longleftrightarrow> IsChild (Some (a_path x)) \<or> \<not> IsChild (fst (TargetPath m))"

lemma handle_message_cong:
  "MethodID m' = MethodID m \<Longrightarrow> msg_Context m' = msg_Context m \<Longrightarrow> msg_Payload m' = msg_Payload m \<Longrightarrow>
   a_priv x' = a_priv x \<Longrightarrow> a_methodMap x' = a_methodMap x \<Longrightarrow>
   handle_message app now x' m' = handle_message app now x m"
  by (simp add: handle_message_def getMethod_def Let_def cong: option.case_cong sum.case_cong)

lemma serve_cong:
  "a_priv x' = a_priv x \<Longrightarrow> a_methodMap x' = a_methodMap x \<Longrightarrow> serve app now x' ms = serve app now x ms"
proof (induction ms arbitrary: x x')
  case (Cons m ms)
  have "answer app now x' m = answer app now x m"
    using Cons.prems by (simp add: answer_def handle_message_cong [of m m x' x])
  moreover have "serve app now (x'\<lparr>a_priv := h\<rparr>) ms = serve app now (x\<lparr>a_priv := h\<rparr>) ms" for h
    by (rule Cons.IH) (simp_all add: Cons.prems)
  ultimately show ?case by simp
qed simp

lemma finishTyped_same [simp]:
  "sys_heap (finishTyped m r s) = sys_heap s" "sys_app (finishTyped m r s) = sys_app s"
  "sys_now (finishTyped m r s) = sys_now s"
  by (auto simp: finishTyped_def Let_def split: option.splits)

lemma finishTyped_chans: "sys_chans (finishTyped m r s) = send_replies [(m, r)] (sys_chans s)"
  by (auto simp: finishTyped_def send_replies_def Let_def split: option.splits)

text \<open>One iteration on a message of its own.\<close>

lemma iteration_own:
  assumes x: "sys_heap s a = Some x" "a_mail x = m # rest" and own: "own_message x m"
    and ans: "answer (sys_app s) (sys_now s) x m = (h, r)"
  shows "\<exists>s'. run_iteration SelMail a s = s' \<and>
    sys_heap s' a = Some (x\<lparr>a_mail := rest, a_lastAt := sys_now s div 1000000000, a_priv := h\<rparr>) \<and>
    sys_chans s' = send_replies [(m, r)] (sys_chans s) \<and> sys_app s' = sys_app s \<and>
    sys_now s' = sys_now s \<and> (\<forall>b. b \<noteq> a \<longrightarrow> sys_heap s' b = sys_heap s b)"
proof -
  let ?f = "\<lambda>x. x\<lparr>a_mail := rest, a_lastAt := sys_now s div 1000000000\<rparr>"
  let ?s = "upd_actor a ?f s"
  have heap: "sys_heap ?s a = Some (?f x)" using x by (simp add: upd_actor_heap)
  have run: "run_iteration SelMail a s = processMail a s"
    using x by (simp add: run_iteration_def loop_def)
  show ?thesis
  proof (cases "MethodID m = 0")
    case True
    with x run ans heap show ?thesis
      by (auto simp: processMail_def answer_def finishTyped_chans upd_actor_heap Let_def)
  next
    case False
    obtain tp m' where tp: "TargetPath m = (tp, m')" by force
    have m': "ChanInvokeResult m' = ChanInvokeResult m" "MethodID m' = MethodID m"
      "msg_Context m' = msg_Context m" "msg_Payload m' = msg_Payload m"
      using TargetPath_same [of m] tp by simp_all
    have hm: "handle_message (sys_app s) (sys_now s) (?f x) m' = (h, r)"
      using ans False m' handle_message_cong [of m' m "?f x" x] by (simp add: answer_def)
    have "processTyped a m ?s = finishTyped m' r (upd_actor a (\<lambda>x. x\<lparr>a_priv := h\<rparr>) ?s)"
      using heap tp own hm by (auto simp: processTyped_def invokeTyped_def own_message_def)
    moreover have "send_replies [(m', r)] c = send_replies [(m, r)] c" for c
      by (simp add: send_replies_def m')
    ultimately show ?thesis
      using False x run by (auto simp: processMail_def finishTyped_chans upd_actor_heap Let_def)
  qed
qed

text \<open>
  C3. Serial handling. Iterating an actor over the messages at the front of its mailbox does exactly
  what the specification says: messages are handled in order, one at a time, each on the state the
  previous ones left, each reply goes to the channel of its own message, the rest of the mailbox and
  every other actor are untouched.
\<close>

theorem mailbox_serial:
  assumes "sys_heap s a = Some x" and "a_mail x = ms @ rest" and "\<forall>m \<in> set ms. own_message x m"
    and "serve (sys_app s) (sys_now s) x ms = (h, rs)"
  shows "\<exists>x'. sys_heap ((run_iteration SelMail a ^^ length ms) s) a = Some x' \<and>
    a_priv x' = h \<and> a_mail x' = rest \<and> a_state x' = a_state x \<and> a_methodMap x' = a_methodMap x \<and>
    map fst rs = ms \<and>
    sys_chans ((run_iteration SelMail a ^^ length ms) s) = send_replies rs (sys_chans s) \<and>
    (\<forall>b. b \<noteq> a \<longrightarrow> sys_heap ((run_iteration SelMail a ^^ length ms) s) b = sys_heap s b)"
  using assms
proof (induction ms arbitrary: s x h rs)
  case (Cons m ms)
  obtain h1 r where ans: "answer (sys_app s) (sys_now s) x m = (h1, r)" by force
  obtain rs' where rs: "serve (sys_app s) (sys_now s) (x\<lparr>a_priv := h1\<rparr>) ms = (h, rs')" "rs = (m, r) # rs'"
    using Cons.prems(4) ans by (auto simp: Let_def split: prod.splits)
  let ?x = "x\<lparr>a_mail := ms @ rest, a_lastAt := sys_now s div 1000000000, a_priv := h1\<rparr>"
  let ?s = "run_iteration SelMail a s"
  have one: "sys_heap ?s a = Some ?x" "sys_chans ?s = send_replies [(m, r)] (sys_chans s)"
    "sys_app ?s = sys_app s" "sys_now ?s = sys_now s" "\<forall>b. b \<noteq> a \<longrightarrow> sys_heap ?s b = sys_heap s b"
    using iteration_own [OF Cons.prems(1), of m "ms @ rest" h1 r] Cons.prems(2,3) ans by simp_all
  have "serve (sys_app ?s) (sys_now ?s) ?x ms = (h, rs')"
    using rs(1) one serve_cong [of ?x "x\<lparr>a_priv := h1\<rparr>"] by simp
  moreover have "\<forall>k \<in> set ms. own_message ?x k" using Cons.prems(3) by (auto simp: own_message_def)
  ultimately obtain x' where x': "sys_heap ((run_iteration SelMail a ^^ length ms) ?s) a = Some x'"
    "a_priv x' = h" "a_mail x' = rest" "a_state x' = a_state ?x" "a_methodMap x' = a_methodMap ?x"
    "map fst rs' = ms"
    "sys_chans ((run_iteration SelMail a ^^ length ms) ?s) = send_replies rs' (sys_chans ?s)"
    "\<forall>b. b \<noteq> a \<longrightarrow> sys_heap ((run_iteration SelMail a ^^ length ms) ?s) b = sys_heap ?s b"
    using Cons.IH [OF one(1)] by auto
  have "send_replies rs' (sys_chans ?s) = send_replies rs (sys_chans s)"
    using one(2) rs(2) by (simp add: send_replies_def)
  then show ?case using x' one(5) rs(2) by (simp add: funpow_swap1)
qed (simp add: send_replies_def)

theorem mailbox_serial_witness:
  "\<exists>x x'. sys_heap demo_called 0 = Some x \<and> a_priv x = 0 \<and>
     sys_heap (run_iteration SelMail 0 demo_called) 0 = Some x' \<and> a_priv x' = 1 \<and> a_mail x' = [] \<and>
     sys_chans (run_iteration SelMail 0 demo_called) 0 = [OKResult (PVal (TPtr 1 True) [7])]"
proof -
  have m: "map_option (\<lambda>x. (length (a_mail x), list_all (own_message x) (a_mail x), a_priv x))
      (sys_heap demo_called 0) = Some (1, True, 0)" by code_simp
  then obtain x where x: "sys_heap demo_called 0 = Some x" "length (a_mail x) = 1"
    "\<forall>m \<in> set (a_mail x). own_message x m" "a_priv x = 0" by (auto simp: list_all_iff)
  have sv: "map_option (\<lambda>x. (\<lambda>(h, rs). (h, map snd rs))
      (serve (sys_app demo_called) (sys_now demo_called) x (a_mail x))) (sys_heap demo_called 0) =
      Some (1, [OKResult (PVal (TPtr 1 True) [7])])" by code_simp
  obtain h rs where s: "serve (sys_app demo_called) (sys_now demo_called) x (a_mail x) = (h, rs)" by force
  with sv x have h: "h = 1" and rs: "map snd rs = [OKResult (PVal (TPtr 1 True) [7])]" by auto
  from mailbox_serial [OF x(1), of "a_mail x" "[]", OF _ x(3) s] x(2) h
  obtain x' where x': "sys_heap (run_iteration SelMail 0 demo_called) 0 = Some x'" "a_priv x' = 1" "a_mail x' = []"
    "map fst rs = a_mail x"
    "sys_chans (run_iteration SelMail 0 demo_called) = send_replies rs (sys_chans demo_called)"
    by auto
  have "mails demo_called 0 = a_mail x" using x by (simp add: mails_def)
  moreover have "map ChanInvokeResult (mails demo_called 0) = [Some 0]" by code_simp
  ultimately obtain k where k: "a_mail x = [k]" "ChanInvokeResult k = Some 0" by auto
  have e: "sys_chans demo_called 0 = []" by code_simp
  from rs x'(4) k have "rs = [(k, OKResult (PVal (TPtr 1 True) [7]))]" by (auto simp: prod_eq_iff)
  with x' k e have "sys_chans (run_iteration SelMail 0 demo_called) 0 = [OKResult (PVal (TPtr 1 True) [7])]"
    by (simp add: send_replies_def)
  with x x' show ?thesis by blast
qed

section \<open>Panics\<close>

text \<open>
  C33. A panic in a handler costs only its own message: the caller gets \<open>STATUS_INTERNAL\<close>, the actor
  keeps its lifecycle state, its methods and the rest of its mailbox, and no other actor changes.
\<close>

theorem panic_isolated:
  assumes x: "sys_heap s a = Some x" "a_mail x = m # rest" and "own_message x m" and "MethodID m \<noteq> 0"
    and "msg_Context m = Some ctx" and "ctx_Err (sys_now s) ctx = None"
    and "getMethod x (MethodID m) = Some entry"
    and "decodePayload (sys_app s) (Some ctx) entry (msg_Payload m) = Inr p"
    and "me_invoke entry (a_priv x) (Some ctx) p = (h, Inl e)"
  shows "\<exists>x'. sys_heap (run_iteration SelMail a s) a = Some x' \<and> a_state x' = a_state x \<and>
    a_mail x' = rest \<and> a_methodMap x' = a_methodMap x \<and> a_priv x' = h \<and>
    sys_chans (run_iteration SelMail a s) =
      send_replies [(m, ErrorResult STATUS_INTERNAL ''actor method panic'')] (sys_chans s) \<and>
    (\<forall>b. b \<noteq> a \<longrightarrow> sys_heap (run_iteration SelMail a s) b = sys_heap s b)"
proof -
  have "answer (sys_app s) (sys_now s) x m = (h, ErrorResult STATUS_INTERNAL ''actor method panic'')"
    using assms(4-) by (simp add: answer_def handle_message_def invoke_recovered_def)
  from iteration_own [OF x assms(3) this] show ?thesis by auto
qed

definition demo_panicking :: "(byte list, nat) System" where
  "demo_panicking = snd (Invoke None 11 (PBytes [7]) demo_ready)"

theorem panic_isolated_witness:
  "\<exists>x'. sys_heap (run_iteration SelMail 0 demo_panicking) 0 = Some x' \<and> a_state x' = WorkerState \<and>
     a_mail x' = [] \<and>
     sys_chans (run_iteration SelMail 0 demo_panicking) 0 = [ErrorResult STATUS_INTERNAL ''actor method panic'']"
proof -
  let ?s = demo_panicking
  have "map_option (\<lambda>x. (a_state x, length (a_mail x))) (sys_heap ?s 0) = Some (WorkerState, 1)" by code_simp
  then obtain x m where x: "sys_heap ?s 0 = Some x" "a_mail x = [m]" "a_state x = WorkerState"
    by (auto simp: length_Suc_conv)
  have "map_option (\<lambda>x. list_all (\<lambda>m. own_message x m \<and> MethodID m = 11 \<and> ChanInvokeResult m = Some 0) (a_mail x))
      (sys_heap ?s 0) = Some True" by code_simp
  with x have m: "own_message x m" "MethodID m \<noteq> 0" "ChanInvokeResult m = Some 0" by auto
  have "map_option (\<lambda>x. list_all (\<lambda>m. case msg_Context m of None \<Rightarrow> False | Some c \<Rightarrow>
      ctx_Err (sys_now ?s) c = None \<and> (case getMethod x (MethodID m) of None \<Rightarrow> False | Some e \<Rightarrow>
       (case decodePayload (sys_app ?s) (Some c) e (msg_Payload m) of Inl _ \<Rightarrow> False | Inr p \<Rightarrow>
         (case me_invoke e (a_priv x) (Some c) p of (h, r) \<Rightarrow> \<not> isl r \<longrightarrow> False)))) (a_mail x))
      (sys_heap ?s 0) = Some True" by code_simp
  with x obtain c e p h r where "msg_Context m = Some c" "ctx_Err (sys_now ?s) c = None"
    "getMethod x (MethodID m) = Some e" "decodePayload (sys_app ?s) (Some c) e (msg_Payload m) = Inr p"
    "me_invoke e (a_priv x) (Some c) p = (h, Inl r)"
    by (auto simp: isl_def split: option.splits sum.splits prod.splits)
  from panic_isolated [OF x(1,2) m(1,2) this] obtain x' where x':
    "sys_heap (run_iteration SelMail 0 ?s) 0 = Some x'" "a_state x' = WorkerState" "a_mail x' = []"
    "sys_chans (run_iteration SelMail 0 ?s) =
      send_replies [(m, ErrorResult STATUS_INTERNAL ''actor method panic'')] (sys_chans ?s)"
    using x(3) by auto
  moreover have "sys_chans ?s 0 = []" by code_simp
  ultimately show ?thesis using m(3) by (auto simp: send_replies_def)
qed

section \<open>Creation\<close>

definition app_table :: "('v, 'h) System \<Rightarrow> Table option" where
  "app_table s = (case sys_app s of None \<Rightarrow> None | Some app \<Rightarrow> app_Methods app)"

text \<open>
  While \<open>OnInit\<close> of a top-level actor runs, the routes of the table are those from before plus one for
  each method of the actor's mailbox.
\<close>

definition init_sync :: "Table \<Rightarrow> ActorPath \<Rightarrow> (string, nat) gomap \<Rightarrow> nat \<Rightarrow> ('v, 'h) System \<Rightarrow> bool" where
  "init_sync t0 p amap a s \<longleftrightarrow>
     (\<exists>x t. sys_heap s a = Some x \<and> a_path x = p \<and> a_state x = InitState \<and> a_initDone x = None \<and>
        a_children x = [] \<and> app_table s = Some t \<and> sys_actorMap s = amap \<and>
        (\<forall>m. table_route t m =
           (if a_methodMap x m \<noteq> None then Some (path_String p) else table_route t0 m)) \<and>
        (\<forall>m. a_methodMap x m \<noteq> None \<longrightarrow> table_route t0 m = None))"

lemma app_table_upd [simp]: "app_table (upd_actor a f s) = app_table s"
  by (simp add: app_table_def)

lemma removeActorEvent_same [simp]:
  "sys_heap (removeActorEvent p ns s) = sys_heap s" "sys_app (removeActorEvent p ns s) = sys_app s"
  "sys_actorMap (removeActorEvent p ns s) = sys_actorMap s"
  by (induction p ns s rule: removeActorEvent.induct) (auto split: option.splits)

lemma init_sync_upd:
  assumes "init_sync t0 p amap a s" "sys_heap s' = sys_heap s" "sys_app s' = sys_app s"
    "sys_actorMap s' = sys_actorMap s"
    "\<And>x. a_path (f x) = a_path x \<and> a_state (f x) = a_state x \<and> a_initDone (f x) = a_initDone x \<and>
      a_children (f x) = a_children x \<and> a_methodMap (f x) = a_methodMap x"
  shows "init_sync t0 p amap a (upd_actor a f s')"
proof -
  obtain x t where "sys_heap s a = Some x" "a_path x = p" "a_state x = InitState" "a_initDone x = None"
    "a_children x = []" "app_table s = Some t" "sys_actorMap s = amap"
    "\<forall>m. table_route t m = (if a_methodMap x m \<noteq> None then Some (path_String p) else table_route t0 m)"
    "\<forall>m. a_methodMap x m \<noteq> None \<longrightarrow> table_route t0 m = None"
    using assms(1) by (auto simp: init_sync_def)
  then show ?thesis
    unfolding init_sync_def using assms(2-5)
    by (intro exI [of _ "f x"] exI [of _ t]) (simp add: upd_actor_heap app_table_def)
qed

lemma init_sync_Register:
  assumes I: "init_sync t0 p amap a s" and par: "ChildID p = []" and R: "mail_Register a m h s = Inr s'"
  shows "init_sync t0 p amap a s'"
proof -
  obtain x t where x: "sys_heap s a = Some x" "a_path x = p" "a_state x = InitState" "a_initDone x = None"
    "a_children x = []" "app_table s = Some t" "sys_actorMap s = amap"
    and r: "\<forall>m. table_route t m = (if a_methodMap x m \<noteq> None then Some (path_String p) else table_route t0 m)"
    "\<forall>m. a_methodMap x m \<noteq> None \<longrightarrow> table_route t0 m = None"
    using I by (auto simp: init_sync_def)
  obtain app where app: "sys_app s = Some app" "app_Methods app = Some t"
    using x(6) by (auto simp: app_table_def split: option.splits)
  have isp: "IsParent (Some p)" using par by (simp add: IsParent_def)
  from R x app obtain ad where ad: "AdaptHandler h = Inr ad" and free: "a_methodMap x m = None"
    by (auto simp: mail_Register_def split: if_splits sum.splits)
  define e where "e = \<lparr>me_invoke = ah_invoke ad, me_requestGoType = ah_requestGoType ad,
    me_supportsProtobuf = ah_protobuf ad\<rparr>"
  from R x app isp ad obtain t' where
    t': "table_register t m (path_String p) (ah_msgType ad) = Inr t'"
    and s': "s' = upd_actor a (\<lambda>x. x\<lparr>a_methodMap := (a_methodMap x)(m \<mapsto> e)\<rparr>)
      (s\<lparr>sys_app := Some (app\<lparr>app_Methods := Some t'\<rparr>)\<rparr>)"
    by (auto simp: mail_Register_def Let_def PathString_def table_register_def e_def split: if_splits sum.splits)
  have routes: "table_route t' = (table_route t)(m \<mapsto> path_String p)" "table_route t m = None"
    using table.register_route [OF t'] table.register_fresh [OF t'] by simp_all
  let ?x = "x\<lparr>a_methodMap := (a_methodMap x)(m \<mapsto> e)\<rparr>"
  have "sys_heap s' a = Some ?x" "app_table s' = Some t'" "sys_actorMap s' = amap"
    using x by (simp_all add: s' upd_actor_heap app_table_def)
  moreover have "\<forall>k. table_route t' k = (if a_methodMap ?x k \<noteq> None then Some (path_String p) else table_route t0 k)"
    using r routes free by auto
  moreover have "\<forall>k. a_methodMap ?x k \<noteq> None \<longrightarrow> table_route t0 k = None"
    using r routes free by auto
  ultimately show ?thesis using x unfolding init_sync_def by force
qed

lemma init_sync_run:
  "init_sync t0 p amap a s \<Longrightarrow> ChildID p = [] \<Longrightarrow> init_sync t0 p amap a (snd (run_OnInit a cs s))"
proof (induction a cs s rule: run_OnInit.induct)
  case (2 a c cs s)
  obtain x where x: "sys_heap s a = Some x" using 2(4) by (auto simp: init_sync_def)
  have ev: "init_sync t0 p amap a (event_Register a n f u s)" for n f u
    unfolding event_Register_def x option.simps
    by (rule init_sync_upd [OF 2(4)]) (simp_all add: addActorEvent_def Let_def)
  have un: "init_sync t0 p amap a (Unregister a n s)" for n
    unfolding Unregister_def x option.simps
    by (rule init_sync_upd [OF 2(4)]) (simp_all del: removeActorEvent.simps)
  show ?case
    using 2 ev un init_sync_Register [OF 2(4,5)] by (cases c) (auto split: sum.splits)
qed simp

lemma Exit_same [simp]:
  "sys_app (Exit a s) = sys_app s" "sys_actorMap (Exit a s) = sys_actorMap s"
  by (simp_all add: Exit_def)

text \<open>What \<open>onStop\<close> of a top-level actor without children does to the maps and the table.\<close>

lemma onStop_parent:
  assumes x: "sys_heap s a = Some x" "ChildID (a_path x) = []" "a_children x = []" and t: "app_table s = Some t"
  shows "app_table (onStop a s) = Some (UnregisterTarget t (PathString x)) \<and>
    sys_actorMap (onStop a s) = AList.delete (ActorID (a_path x)) (sys_actorMap s)"
proof -
  obtain app where app: "sys_app s = Some app" "app_Methods app = Some t"
    using t by (auto simp: app_table_def split: option.splits)
  obtain h p where h: "OnStop (a_handler x) (a_priv x) = (h, p)" by force
  show ?thesis
    using x app h
    by (simp add: onStop_def Let_def leave_maps_def withdraw_routes_def IsParent_def IsChild_def
        actor_ActorID_def child_onStop_def removeActor_def mail_onStop_def event_onStop_def app_table_def)
qed

text \<open>Stopping frees no actor: the heap keeps its domain.\<close>

lemma upd_actor_None [simp]: "sys_heap (upd_actor a f s) b = None \<longleftrightarrow> sys_heap s b = None"
  by (simp add: upd_actor_heap)

lemma fold_Exit_None: "sys_heap (fold (\<lambda>(_, c). Exit c) cs s) b = None \<longleftrightarrow> sys_heap s b = None"
  by (induction cs arbitrary: s) (auto simp: Exit_def)

lemma onStop_heap: "sys_heap (onStop a s) b = None \<longleftrightarrow> sys_heap s b = None"
proof -
  have "sys_heap (withdraw_routes x s) = sys_heap s" for x and s :: "('a, 'b) System"
    by (auto simp: withdraw_routes_def split: option.splits)
  then have "sys_heap (leave_maps x (withdraw_routes x s)) b = None \<longleftrightarrow> sys_heap s b = None" for x
    by (auto simp: leave_maps_def child_onStop_def fold_Exit_None removeActor_def split: option.splits)
  then show ?thesis
    by (auto simp: onStop_def Let_def mail_onStop_def event_onStop_def split_beta split: option.splits)
qed

text \<open>
  C24. Creating a top-level actor is all or nothing for its callers. When creation fails, the actor is in
  no map and the routing table answers exactly what it answered before, whatever part of its methods
  was already registered. When it succeeds, the actor is in the map, works, and the table has a route
  to it for exactly the methods of its mailbox, all other routes unchanged.
\<close>

theorem CreateActor_all_or_nothing:
  assumes new: "GetActor s i = None" and t0: "app_table s = Some t0"
    and fresh: "\<forall>m. table_route t0 m \<noteq> Some (path_String \<lparr>NodeID = sys_NodeID s, ActorID = i, ChildID = []\<rparr>)"
    and C: "CreateActor i h s = (r, s')"
  shows "(case r of
      Inl e \<Rightarrow> GetActor s' i = None \<and>
        (\<exists>t'. app_table s' = Some t' \<and> (\<forall>m. table_route t' m = table_route t0 m))
    | Inr a \<Rightarrow> GetActor s' i = Some a \<and>
        (\<exists>x t'. sys_heap s' a = Some x \<and> a_state x = WorkerState \<and> app_table s' = Some t' \<and>
          (\<forall>m. table_route t' m = (if getMethod x m \<noteq> None then Some (PathString x) else table_route t0 m))))"
proof (cases "trim_is_empty i")
  case True
  with C new t0 show ?thesis by (auto simp: CreateActor_def CreateActor_begin_def)
next
  case False
  let ?p = "\<lparr>NodeID = sys_NodeID s, ActorID = i, ChildID = []\<rparr>"
  let ?a = "sys_next s" and ?amap = "AList.update i (sys_next s) (sys_actorMap s)"
  obtain s1 where b: "CreateActor_begin i h s = (Inr (?a, True), s1)"
    using False new by (auto simp: CreateActor_begin_def newActor_def alloc_actor_def)
  then have I1: "init_sync t0 ?p ?amap ?a s1"
    using False new t0
    by (auto simp: CreateActor_begin_def newActor_def alloc_actor_def init_sync_def app_table_def)
  obtain x1 where x1: "sys_heap s1 ?a = Some x1" "a_path x1 = ?p" using I1 by (auto simp: init_sync_def)
  obtain pn s2 where run: "run_OnInit ?a (OnInit (a_handler x1)) s1 = (pn, s2)" by force
  with init_sync_run [OF I1, of "OnInit (a_handler x1)"] have I2: "init_sync t0 ?p ?amap ?a s2" by simp
  then obtain x2 t2 where x2: "sys_heap s2 ?a = Some x2" "a_path x2 = ?p" "a_children x2 = []"
    "app_table s2 = Some t2" "sys_actorMap s2 = ?amap"
    and r2: "\<forall>m. table_route t2 m = (if a_methodMap x2 m \<noteq> None then Some (path_String ?p) else table_route t0 m)"
    "\<forall>m. a_methodMap x2 m \<noteq> None \<longrightarrow> table_route t0 m = None"
    by (auto simp: init_sync_def)
  show ?thesis
  proof (cases pn)
    case None
    let ?g = "\<lambda>x. x\<lparr>a_initDone := Some None\<rparr>" and ?w = "\<lambda>x. x\<lparr>a_state := WorkerState\<rparr>"
    have s': "run_start ?a s1 = upd_actor ?a ?g (upd_actor ?a ?w s2)"
      using None run x1 by (simp add: run_start_def initialize_def)
    have heap: "sys_heap (run_start ?a s1) ?a = Some (?g (?w x2))"
      unfolding s' using x2 by (simp add: upd_actor_heap)
    have "r = Inr ?a" "s' = run_start ?a s1"
      using C b heap by (auto simp: CreateActor_def init_outcome_def Let_def)
    moreover have "app_table (run_start ?a s1) = Some t2" "sys_actorMap (run_start ?a s1) = ?amap"
      unfolding s' using x2 by simp_all
    ultimately show ?thesis
      using heap r2 x2 by (auto simp: GetActor_def getMethod_def PathString_def map_of_update_same)
  next
    case (Some p)
    have on: "app_table (onStop ?a s2) = Some (UnregisterTarget t2 (path_String ?p))"
      "sys_actorMap (onStop ?a s2) = AList.delete i ?amap"
      using onStop_parent [OF x2(1) _ x2(3,4)] x2 by (simp_all add: PathString_def)
    have s': "run_start ?a s1 = upd_actor ?a (\<lambda>x. x\<lparr>a_initDone := Some (Some (InitializationFailed (PathString x1) p))\<rparr>) (onStop ?a s2)"
      using Some run x1 by (simp add: run_start_def initialize_def)
    have "sys_heap (onStop ?a s2) ?a \<noteq> None"
      using x2 by (auto simp: onStop_heap)
    then obtain e where "init_outcome ?a (run_start ?a s1) = Inl e"
      unfolding s' by (auto simp: init_outcome_def upd_actor_heap)
    then have "r = Inl e" "s' = run_start ?a s1" using C b by (auto simp: CreateActor_def Let_def)
    moreover have "table_route (UnregisterTarget t2 (path_String ?p)) m = table_route t0 m" for m
      using r2 fresh by (simp add: table.withdraw_route)
    ultimately show ?thesis
      using on by (simp add: s' GetActor_def map_of_delete_same)
  qed
qed

text \<open>An actor whose second registration names a reserved method.\<close>

definition broken_handler :: "(byte list, nat) IActorHandler" where
  "broken_handler = Handler ''broken'' [InitRegister 20 (Some echo_fn), InitRegister 1 (Some echo_fn)]
     (\<lambda>_ _. NotFound) (\<lambda>h. (h, None)) 0"

theorem CreateActor_all_or_nothing_witness:
  "let s = SetApp (Some demo_app) NewSystem in
   GetActor s ''broken'' = None \<and> isl (fst (CreateActor ''broken'' broken_handler s)) \<and>
   GetActor (snd (CreateActor ''broken'' broken_handler s)) ''broken'' = None \<and>
   (\<exists>t'. app_table (snd (CreateActor ''broken'' broken_handler s)) = Some t' \<and> table_route t' 20 = None)"
proof -
  let ?s = "SetApp (Some demo_app) NewSystem :: (byte list, nat) System"
  obtain r s' where C: "CreateActor ''broken'' broken_handler ?s = (r, s')" by force
  have new: "GetActor ?s ''broken'' = None" by (simp add: GetActor_def SetApp_def NewSystem_def)
  have t0: "app_table ?s = Some (NewTable True)" by (simp add: app_table_def SetApp_def demo_app_def)
  have route: "table_route (NewTable True) m = None" for m
    by (simp add: table_route_def tab_Target_def tab_lookup_def NewTable_def)
  have l: "isl (fst (CreateActor ''broken'' broken_handler ?s))" by code_simp
  with C obtain e where "r = Inl e" by (auto simp: isl_def)
  with CreateActor_all_or_nothing [OF new t0 _ C] route
  have "GetActor s' ''broken'' = None \<and> (\<exists>t'. app_table s' = Some t' \<and> table_route t' 20 = None)" by auto
  with new l C show ?thesis by (simp add: Let_def)
qed

section \<open>Stopping\<close>

lemma run_iteration_exit:
  "sys_heap s a = Some x \<Longrightarrow> a_state x = StopState \<Longrightarrow> a_mail x = [] \<Longrightarrow> a_events x = [] \<Longrightarrow>
   run_iteration sel a s = onStop a s"
  by (simp add: run_iteration_def loop_def)

lemma own_exited:
  assumes x: "sys_heap s a = Some x"
  shows "\<exists>y. sys_heap (onStop a s) a = Some y \<and> a_exited y"
proof -
  obtain h p where h: "OnStop (a_handler x) (a_priv x) = (h, p)" by force
  let ?s = "upd_actor a (\<lambda>y. y\<lparr>a_priv := h, a_exited := True\<rparr>) (leave_maps x (withdraw_routes x s))"
  have "sys_heap (onStop a s) a \<noteq> None" using x onStop_heap [of a s a] by simp
  then obtain z where "sys_heap (leave_maps x (withdraw_routes x s)) a = Some z"
    using x h by (fastforce simp: onStop_def Let_def mail_onStop_def event_onStop_def upd_actor_heap split: if_splits)
  then show ?thesis
    using x h by (auto simp: onStop_def Let_def mail_onStop_def event_onStop_def upd_actor_heap)
qed

text \<open>An iteration that handles an event.\<close>

lemma iteration_event:
  assumes x: "sys_heap s a = Some x" "a_events x = d # rest"
  shows "\<exists>x'. sys_heap (run_iteration SelEvent a s) a = Some x' \<and> a_events x' = rest \<and>
    a_mail x' = a_mail x \<and> a_state x' = a_state x"
  using x by (auto simp: run_iteration_def loop_def processEvent_def upd_actor_heap event_invokeFunc_def
      split: option.splits)

lemma drain_events:
  "sys_heap s a = Some x \<Longrightarrow> length (a_events x) = n \<Longrightarrow>
   \<exists>x'. sys_heap ((run_iteration SelEvent a ^^ n) s) a = Some x' \<and> a_events x' = [] \<and>
     a_mail x' = a_mail x \<and> a_state x' = a_state x"
proof (induction n arbitrary: s x)
  case (Suc n)
  then obtain d rest where d: "a_events x = d # rest" by (cases "a_events x") auto
  obtain x' where "sys_heap (run_iteration SelEvent a s) a = Some x'" "a_events x' = rest"
    "a_mail x' = a_mail x" "a_state x' = a_state x"
    using iteration_event [OF Suc.prems(1) d] by blast
  with Suc.IH [of "run_iteration SelEvent a s" x'] Suc.prems(2) d show ?case
    by (auto simp: funpow_swap1)
qed simp

lemma drain_mail:
  assumes x: "sys_heap s a = Some x" and own: "\<forall>m \<in> set (a_mail x). own_message x m"
  shows "\<exists>x'. sys_heap ((run_iteration SelMail a ^^ length (a_mail x)) s) a = Some x' \<and>
    a_mail x' = [] \<and> a_events x' = a_events x \<and> a_state x' = a_state x"
  using assms
proof (induction "a_mail x" arbitrary: s x)
  case Nil
  then show ?case by auto
next
  case (Cons m ms)
  obtain h r where ans: "answer (sys_app s) (sys_now s) x m = (h, r)" by force
  let ?x = "x\<lparr>a_mail := ms, a_lastAt := sys_now s div 1000000000, a_priv := h\<rparr>"
  have "own_message x m" using Cons by (metis list.set_intros(1))
  from iteration_own [OF Cons.prems(1) Cons.hyps(2) [symmetric] this ans]
  have one: "sys_heap (run_iteration SelMail a s) a = Some ?x" by simp
  moreover have "\<forall>k \<in> set (a_mail ?x). own_message ?x k"
    using Cons.prems(2) Cons.hyps(2) [symmetric] by (auto simp: own_message_def)
  ultimately show ?case
    using Cons.hyps(1) [of ?x "run_iteration SelMail a s"] Cons.hyps(2) [symmetric] by (auto simp: funpow_swap1)
qed


definition demo_stopping :: "(byte list, nat) System" where
  "demo_stopping = run_iteration SelClose 0 (Exit 0 demo_called)"


section \<open>Calls\<close>

lemma ensure_no_await: "ensureRequestContext app ctx \<noteq> Inl (Await ch ic)"
  by (simp add: ensureRequestContext_def Let_def split: option.splits)

lemma no_await:
  "newInvokeContext s sc \<noteq> Inl (Await ch ic)" "newNotifyContext s sc \<noteq> Inl (Await ch ic)"
  using ensure_no_await [of "sys_app s" sc]
  by (auto simp: newInvokeContext_def newNotifyContext_def Let_def split: sum.splits option.splits)

lemma ensure_app: "\<exists>e. ensureRequestContext (Some app) ctx = Inr e"
  by (simp add: ensureRequestContext_def Let_def)

lemma InvokeChild_Await:
  assumes "InvokeChild a ctx c mid p s = (Await ch ic, s')"
  shows "\<exists>sc. newInvokeContext s sc = Inr ic"
proof -
  obtain x e where x: "sys_heap s a = Some x" "ensureRequestContext (sys_app s) ctx = Inr e"
    using assms ensure_no_await [of "sys_app s" ctx ch ic]
    by (auto simp: InvokeChild_def split: if_splits option.splits sum.splits)
  obtain i where i: "newInvokeContext s (Some e) = Inr i"
    using assms x no_await(1) [of s "Some e" ch ic] by (auto simp: InvokeChild_def split: if_splits sum.splits)
  from assms x i have "ic = i"
    by (auto simp: InvokeChild_def Let_def split_beta split: if_splits sum.splits option.splits prod.splits)
  with i show ?thesis by blast
qed

lemma remote_Await: "fst (invokeRemote ctx t n m p s) \<noteq> Await ch ic"
  using no_await(1) [of s "Some ctx" ch ic]
  by (auto simp: invokeRemote_def Let_def split_beta split: option.splits sum.splits)

lemma InvokeTarget_Await:
  fixes s :: "('v, 'h) System"
  assumes "InvokeTarget ctx t mid p s = (Await ch ic, s')"
  shows "\<exists>sc. newInvokeContext s sc = Inr ic"
proof -
  obtain tp where tp: "(prepareTyped t mid :: 'v InvokeResult + ActorPath) = Inr tp"
    using assms by (cases "prepareTyped t mid :: 'v InvokeResult + ActorPath") (auto simp: InvokeTarget_def)
  obtain c where c: "ensureRequestContext (sys_app s) ctx = Inr c"
    using assms tp ensure_no_await [of "sys_app s" ctx ch ic]
    by (cases "ensureRequestContext (sys_app s) ctx") (auto simp: InvokeTarget_def)
  show ?thesis
  proof (cases "NodeID tp \<noteq> [] \<and> NodeID tp \<noteq> sys_NodeID s")
    case True
    with assms tp c remote_Await [of c t "NodeID tp" mid p s ch ic] show ?thesis
      by (simp add: InvokeTarget_def)
  next
    case False
    show ?thesis
    proof (cases "IsChild (Some tp)")
      case True
      with False assms tp c obtain a where "InvokeChild a (Some c) (ChildID tp) mid p s = (Await ch ic, s')"
        by (auto simp: InvokeTarget_def split: option.splits)
      then show ?thesis by (rule InvokeChild_Await)
    next
      case nc: False
      with False assms tp c obtain i where i: "newInvokeContext s (Some c) = Inr i"
        using no_await(1) [of s "Some c" ch ic] by (cases "newInvokeContext s (Some c)") (auto simp: InvokeTarget_def)
      with False nc assms tp c have "ic = i"
        by (auto simp: InvokeTarget_def Let_def split_beta split: prod.splits bool.splits)
      with i show ?thesis by blast
    qed
  qed
qed

text \<open>
  C25. No caller waits for ever. Whenever an invocation leaves its caller waiting on a result channel,
  the context it waits under has a deadline, and from that deadline on the wait has an outcome: the
  result, or the failure of the context.
\<close>

theorem await_bounded:
  fixes s :: "('v, 'h) System"
  assumes "InvokeTarget ctx t mid p s = (Await ch ic, s')"
  shows "\<exists>d. rc_Deadline ic = Some d \<and> (\<forall>s'' :: ('v, 'h) System. d \<le> sys_now s'' \<longrightarrow> await_outcomes ch ic s'' \<noteq> {})"
proof -
  from InvokeTarget_Await [OF assms] newInvokeContext_deadline
  obtain d where d: "rc_Deadline ic = Some d" by blast
  then have "await_outcomes ch ic s'' \<noteq> {}" if "d \<le> sys_now s''" for s'' :: "('v, 'h) System"
    using that by (auto simp: await_outcomes_def ctx_Err_def split: option.splits)
  with d show ?thesis by blast
qed

theorem await_bounded_witness:
  "\<exists>ch ic s' d. InvokeTarget None ''n.echo'' 10 (PBytes [7]) demo_ready = (Await ch ic, s') \<and>
     rc_Deadline ic = Some d \<and> await_outcomes ch ic (s'\<lparr>sys_now := d\<rparr>) \<noteq> {}"
proof -
  obtain r s' where r: "InvokeTarget None ''n.echo'' 10 (PBytes [7]) demo_ready = (r, s')" by force
  have "(case fst (InvokeTarget None ''n.echo'' 10 (PBytes [7]) demo_ready) of Await _ _ \<Rightarrow> True | _ \<Rightarrow> False)"
    by code_simp
  with r obtain ch ic where a: "InvokeTarget None ''n.echo'' 10 (PBytes [7]) demo_ready = (Await ch ic, s')"
    by (auto split: call.splits)
  from await_bounded [OF this] obtain d where
    "rc_Deadline ic = Some d" "await_outcomes ch ic (s'\<lparr>sys_now := d\<rparr>) \<noteq> {}" by auto
  with a show ?thesis by blast
qed

text \<open>
  The contexts of queued work. An invocation keeps an earlier deadline of its caller and is cancelled
  with it; a notification keeps the deadline but not the cancellation; without a deadline both get the
  default call timeout. Request number, session and metadata are carried along, and a missing codec is
  replaced by the default codec.
\<close>

lemma ensure_fields:
  assumes "ensureRequestContext (Some app) (Some c) = Inr e" "Context c = Some g"
  shows "Context e = Some g \<and> RequestID e = RequestID c \<and> rc_Session e = rc_Session c \<and>
    Metadata e = Metadata c \<and> Transport e = Transport c \<and>
    Codec e = (if Codec c = 0 then reg_Default (app_BodyCodecs app) else Codec c)"
  using assms by (auto simp: ensureRequestContext_def Let_def split: if_splits)

text \<open>
  What crosses the mailbox boundary: for a caller context that is still live, the context of a queued
  invocation has the caller's deadline when there is one and otherwise now plus the call timeout; the
  context of a queued notification has the same deadline and is never cancelled with its caller; both
  carry the request number, transport, session and metadata of the caller, and a codec is always set
  when the application has a default. A context that is already done is refused with its status.
\<close>

theorem queued_context:
  assumes "sys_app s = Some app" and "Context c = Some g"
  shows "(case ctx_Err (sys_now s) c of
      Some e \<Rightarrow>
        newInvokeContext s (Some c) = Inl (Returned (contextFailure e ''actor invoke'')) \<and>
        newNotifyContext s (Some c) = Inl (Returned (contextFailure e ''actor notify''))
    | None \<Rightarrow>
        (\<exists>i n. newInvokeContext s (Some c) = Inr i \<and> newNotifyContext s (Some c) = Inr n \<and>
          (\<forall>q \<in> {i, n}.
             rc_Deadline q = Some (case rc_Deadline c of Some d \<Rightarrow> d | None \<Rightarrow> sys_now s + sys_callTimeout s) \<and>
             RequestID q = RequestID c \<and> Transport q = Transport c \<and> rc_Session q = rc_Session c \<and>
             Metadata q = cloneMetadata (Metadata c) \<and>
             Codec q = (if Codec c = 0 then reg_Default (app_BodyCodecs app) else Codec c)) \<and>
          (rc_Deadline c \<noteq> None \<or> sys_callTimeout s > 0 \<longrightarrow> rc_Err i = None \<and> rc_Err n = None)))"
proof -
  obtain e where e: "ensureRequestContext (Some app) (Some c) = Inr e" using ensure_app by blast
  note f = ensure_fields [OF e assms(2)]
  have err: "ctx_Err (sys_now s) e = ctx_Err (sys_now s) c" and dl: "rc_Deadline e = rc_Deadline c"
    and ce: "ctx_of e = g"
    using f assms(2)
    by (simp_all add: ctx_Err_def rc_Err_def rc_Deadline_def ctx_of_def cong: option.case_cong)
  show ?thesis
    using f err dl ce e assms
    by (auto simp: newInvokeContext_def newNotifyContext_def Let_def rc_Deadline_Clone WithCancel_def
        WithTimeout_def WithDeadline_def WithoutCancel_def rc_Err_def rc_Deadline_def ctx_Err_def
        split: option.splits if_splits)
qed

theorem queued_context_witness:
  "let c = \<lparr>Context = Some Background, RequestID = 9, Transport = TransportAGP, Codec = 0,
            rc_Session = None, Metadata = None\<rparr> in
   \<exists>i. newInvokeContext demo_ready (Some c) = Inr i \<and> rc_Deadline i = Some 3000000000 \<and> Codec i = 1"
proof -
  let ?c = "\<lparr>Context = Some Background, RequestID = 9, Transport = TransportAGP, Codec = 0,
            rc_Session = None, Metadata = None\<rparr>"
  have "sys_app demo_ready \<noteq> None" "map_option (reg_Default \<circ> app_BodyCodecs) (sys_app demo_ready) = Some 1"
    "sys_now demo_ready = 0" "sys_callTimeout demo_ready = 3000000000" by code_simp+
  then obtain app where app: "sys_app demo_ready = Some app" "reg_Default (app_BodyCodecs app) = 1"
    "sys_now demo_ready = 0" "sys_callTimeout demo_ready = 3000000000" by auto
  have e: "ctx_Err (sys_now demo_ready) ?c = None" "rc_Deadline ?c = None"
    by (simp_all add: ctx_Err_def rc_Err_def rc_Deadline_def Background_def)
  have "Context ?c = Some Background" by simp
  from queued_context [OF app(1) this] e app obtain i where
    "newInvokeContext demo_ready (Some ?c) = Inr i" "rc_Deadline i = Some 3000000000" "Codec i = 1"
    by fastforce
  then show ?thesis by (simp add: Let_def)
qed

lemma ctx_Err_cong: "Context a = Context b \<Longrightarrow> ctx_Err now a = ctx_Err now b"
  by (simp add: ctx_Err_def rc_Err_def rc_Deadline_def cong: option.case_cong)

lemma newInvokeContext_ok:
  assumes "sys_app s = Some app" "Context c = Some g" "ctx_Err (sys_now s) c = None"
  shows "\<exists>i. newInvokeContext s (Some c) = Inr i"
proof -
  obtain e where e: "ensureRequestContext (Some app) (Some c) = Inr e" using ensure_app by blast
  with assms ensure_fields [OF e assms(2)] ctx_Err_cong [of e c] have "ctx_Err (sys_now s) e = None" by simp
  with e assms(1) show ?thesis by (simp add: newInvokeContext_def)
qed

lemma prepareTyped_refuses:
  "mid = 0 \<or> (\<nexists>tp. ToActorPath t = Inr tp) \<Longrightarrow>
   \<exists>msg. prepareTyped t mid = Inl (ErrorResult STATUS_INVALID_ARGUMENT msg)"
  by (cases "ToActorPath t") (auto simp: prepareTyped_def)

text \<open>A call to a top-level actor of this node is a \<open>post\<close> of one message.\<close>

lemma InvokeTarget_posts:
  fixes s :: "('v, 'h) System"
  assumes app: "sys_app s = Some app" and ctx: "Context c = Some g" "ctx_Err (sys_now s) c = None"
    and tp: "mid \<noteq> 0" "ToActorPath t = Inr tp" "NodeID tp \<in> {[], sys_NodeID s}" "ChildID tp = []"
  shows "\<exists>i m. TargetPath m = (Some tp, m\<lparr>targetPath := Some tp\<rparr>) \<and> MethodID m = mid \<and> msg_Payload m = p \<and>
    ChanInvokeResult m = Some (sys_nextch s) \<and> msg_Context m = Some i \<and>
    InvokeTarget (Some c) t mid p s =
      (case post (Some m) ((take_message s)\<lparr>sys_nextch := Suc (sys_nextch s)\<rparr>) of
         (True, u) \<Rightarrow> (Await (sys_nextch s) i, u)
       | (False, u) \<Rightarrow> (Returned (ErrorResult STATUS_NOT_FOUND ''actor not found''), drop_message u))"
proof -
  have pr: "(prepareTyped t mid :: 'v InvokeResult + ActorPath) = Inr tp" using tp by (simp add: prepareTyped_def)
  obtain e where e: "ensureRequestContext (sys_app s) (Some c) = Inr e" using ensure_app app by metis
  have f: "Context e = Some g" using ensure_fields [of app c e g] e app ctx by simp
  have dl: "ctx_Err (sys_now s) e = None"
    using f ctx ctx_Err_cong [of e c] by simp
  obtain i where i: "newInvokeContext s (Some e) = Inr i" using newInvokeContext_ok [OF app f dl] by blast
  let ?m = "(typedMessage i t mid p)\<lparr>ChanInvokeResult := Some (sys_nextch s)\<rparr>"
  have "TargetPath ?m = (Some tp, ?m\<lparr>targetPath := Some tp\<rparr>)" "MethodID ?m = mid" "msg_Payload ?m = p"
    "msg_Context ?m = Some i"
    using tp by (simp_all add: TargetPath_def typedMessage_def GetMessage_def Let_def)
  moreover have "InvokeTarget (Some c) t mid p s =
      (case post (Some ?m) ((take_message s)\<lparr>sys_nextch := Suc (sys_nextch s)\<rparr>) of
         (True, u) \<Rightarrow> (Await (sys_nextch s) i, u)
       | (False, u) \<Rightarrow> (Returned (ErrorResult STATUS_NOT_FOUND ''actor not found''), drop_message u))"
  proof -
    have "\<not> (NodeID tp \<noteq> [] \<and> NodeID tp \<noteq> sys_NodeID s)" "\<not> IsChild (Some tp)"
      using tp by (auto simp: IsChild_def)
    moreover have "new_chan (take_message s) = (sys_nextch s, (take_message s)\<lparr>sys_nextch := Suc (sys_nextch s)\<rparr>)"
      by (simp add: new_chan_def take_message_def)
    ultimately show ?thesis using pr e i by (auto simp: InvokeTarget_def Let_def)
  qed
  ultimately show ?thesis by (intro exI [of _ i] exI [of _ ?m]) simp
qed

definition target_actor :: "('v, 'h) System \<Rightarrow> ActorPath \<Rightarrow> ('v, 'h) Actor option" where
  "target_actor s tp = (case GetActor s (ActorID tp) of None \<Rightarrow> None | Some a \<Rightarrow> sys_heap s a)"

lemma post_refuses:
  assumes "TargetPath m = (Some tp, m')"
    and "case target_actor s tp of None \<Rightarrow> True | Some x \<Rightarrow> a_state x = StopState"
  shows "post (Some m) s = (False, s)"
  using assms by (auto simp: post_def target_actor_def split: option.splits)

lemma post_accepts:
  assumes "TargetPath m = (Some tp, m')" "GetActor s (ActorID tp) = Some a" "sys_heap s a = Some x"
    "a_state x \<noteq> StopState" "\<not> a_destroyed x"
  shows "post (Some m) s = (True, upd_actor a (mail_Push (Some m')) s) \<and>
    mails (upd_actor a (mail_Push (Some m')) s) = (mails s)(a := mails s a @ [m'])"
proof -
  have "a_state x = InitState \<or> a_state x = WorkerState" using assms(4) by (cases "a_state x") auto
  with assms mails_upd [OF assms(3), of "mail_Push (Some m')"] show ?thesis
    by (auto simp: post_def actor_post_def mail_Push_def mails_def)
qed



section \<open>Events\<close>

definition subscribed :: "('v, 'h) System \<Rightarrow> 'v EventData \<Rightarrow> nat \<Rightarrow> string \<times> int option \<Rightarrow> bool" where
  "subscribed s data a sub \<longleftrightarrow> GetActorWithPath s (fst sub) = Some a \<and> event_wanted (snd sub) data"

lemma GetActorWithPath_push: "GetActorWithPath (upd_actor a (event_Push d) s) p = GetActorWithPath s p"
proof -
  have "child_GetActor (event_Push d x) c = child_GetActor x c" for x :: "('a, 'b) Actor" and c
    by (simp add: child_GetActor_def event_Push_def)
  then show ?thesis
    by (auto simp: GetActorWithPath_def GetChildActor_def GetActor_def upd_actor_heap split: sum.splits option.splits)
qed

lemma deliver_fold:
  assumes "sys_heap s a = Some x"
  shows "sys_heap (fold (deliver_event d) subs s) a =
    Some (x\<lparr>a_events := a_events x @
      replicate (length (filter (subscribed s d a) (if a_state x = WorkerState then subs else []))) d\<rparr>)"
  using assms
proof (induction subs arbitrary: s x)
  case (Cons sub subs)
  let ?s = "deliver_event d sub s"
  have look: "GetActorWithPath ?s p = GetActorWithPath s p" for p
    by (simp add: deliver_event_def GetActorWithPath_push split: option.splits)
  have sub: "subscribed ?s d a = subscribed s d a" by (auto simp: subscribed_def look)
  let ?hit = "subscribed s d a sub \<and> a_state x = WorkerState"
  have x: "sys_heap ?s a = Some (if ?hit then event_Push d x else x)"
    using Cons.prems
    by (auto simp: deliver_event_def subscribed_def upd_actor_heap split: option.splits)
  show ?case
    using Cons.IH [OF x] sub by (auto simp: event_Push_def)
qed simp

text \<open>
  Event delivery. \<open>PostEvent\<close> appends the event to the event queue of a working actor once for each
  subscription under the event's name that resolves to it and whose unique number, if set, matches;
  actors that are not working, mailboxes, result channels, routes and subscriptions are untouched, and
  an event without a name reaches nobody.
\<close>

theorem PostEvent_delivers:
  assumes "sys_heap s a = Some x"
  shows "sys_heap (PostEvent (Some d) s) a =
    Some (x\<lparr>a_events := a_events x @
      replicate (if ev_Name d \<noteq> [] \<and> a_state x = WorkerState
                 then length (filter (subscribed s d a)
                        (case map_of (sys_actorEventMap s) (ev_Name d) of None \<Rightarrow> [] | Some subs \<Rightarrow> subs))
                 else 0) d\<rparr>)"
  using deliver_fold [OF assms, of d] assms
  by (auto simp: PostEvent_def split: option.splits)

text \<open>The \<open>echo\<close> node with a subscription to event \<open>login\<close> for the unique number 5.\<close>

definition demo_subscribed :: "(byte list, nat) System" where
  "demo_subscribed = event_Register 0 ''login'' (\<lambda>h _. (h, None)) (Some 5) demo_ready"

theorem PostEvent_delivers_witness:
  "\<exists>x y z. sys_heap demo_subscribed 0 = Some x \<and> a_events x = [] \<and>
     sys_heap (PostEvent (Some \<lparr>ev_Name = ''login'', ev_UniqueID = 5, ev_Value = [1]\<rparr>) demo_subscribed) 0 = Some y \<and>
     a_events y = [\<lparr>ev_Name = ''login'', ev_UniqueID = 5, ev_Value = [1]\<rparr>] \<and>
     sys_heap (PostEvent (Some \<lparr>ev_Name = ''login'', ev_UniqueID = 6, ev_Value = [1]\<rparr>) demo_subscribed) 0 = Some z \<and>
     a_events z = []"
proof -
  let ?d = "\<lparr>ev_Name = ''login'', ev_UniqueID = 5, ev_Value = [1]\<rparr> :: byte list EventData"
  let ?e = "\<lparr>ev_Name = ''login'', ev_UniqueID = 6, ev_Value = [1]\<rparr> :: byte list EventData"
  have "map_option (\<lambda>x. (a_state x, a_events x)) (sys_heap demo_subscribed 0) = Some (WorkerState, [])" by code_simp
  then obtain x where x: "sys_heap demo_subscribed 0 = Some x" "a_state x = WorkerState" "a_events x = []" by auto
  have subs: "map_of (sys_actorEventMap demo_subscribed) ''login'' = Some [(''n.echo'', Some 5)]"
    "GetActorWithPath demo_subscribed ''n.echo'' = Some 0" by code_simp+
  have "subscribed demo_subscribed ?d 0 (''n.echo'', Some 5)" "\<not> subscribed demo_subscribed ?e 0 (''n.echo'', Some 5)"
    using subs by (simp_all add: subscribed_def event_wanted_def)
  with PostEvent_delivers [OF x(1), of ?d] PostEvent_delivers [OF x(1), of ?e] x subs show ?thesis by simp
qed

end
