(* ===== verification/Node_Id.thy ===== *)
theory Node_Id
  imports Actor_Path
begin

text \<open>
  The node number codec of \<open>src/facade/uid.go\<close>: a 64-bit number packs a 10-bit world group, an 18-bit
  world, an 18-bit process type and an 18-bit process instance. \<open>GenNodeIdByStr\<close> reads the dotted
  text with \<open>fmt.Sscanf\<close>, modelled here for the verb \<open>%d\<close> and literal dots.
\<close>

definition BigWorldIdMask :: u64 where "BigWorldIdMask = 0x3FF"
definition CommonMask :: u64 where "CommonMask = 0x3FFFF"

definition GenNodeId :: "u32 \<Rightarrow> u32 \<Rightarrow> u32 \<Rightarrow> u32 \<Rightarrow> u64" where
  "GenNodeId bigworldId worldId nodeType nodeInst =
     push_bit 54 (ucast bigworldId AND BigWorldIdMask) OR
     push_bit 36 (ucast worldId AND CommonMask) OR
     push_bit 18 (ucast nodeType AND CommonMask) OR
     push_bit 0 (ucast nodeInst AND CommonMask)"

definition GetBigWorldId :: "u64 \<Rightarrow> u32" where
  "GetBigWorldId nodeId = ucast (drop_bit 54 nodeId AND BigWorldIdMask)"

definition GetWorldId :: "u64 \<Rightarrow> u32" where
  "GetWorldId nodeId = ucast (drop_bit 36 nodeId AND CommonMask)"

definition GetNodeType :: "u64 \<Rightarrow> u32" where
  "GetNodeType nodeId = ucast (drop_bit 18 nodeId AND CommonMask)"

definition GetNodeInst :: "u64 \<Rightarrow> u32" where
  "GetNodeInst nodeId = ucast (drop_bit 0 nodeId AND CommonMask)"

definition ToNodeIdStr :: "u64 \<Rightarrow> string" where
  "ToNodeIdStr nodeId = join_with DOT
     [fmt_nat 10 (unat (GetBigWorldId nodeId)), fmt_nat 10 (unat (GetWorldId nodeId)),
      fmt_nat 10 (unat (GetNodeType nodeId)), fmt_nat 10 (unat (GetNodeInst nodeId))]"

text \<open>
  \<open>fmt.Sscanf\<close>, verb \<open>%d\<close> into an \<open>int\<close>: blanks other than a newline are skipped, then an optional
  sign and at least one decimal digit; the number has to fit 64 bits.
\<close>

definition is_digit :: "char \<Rightarrow> bool" where
  "is_digit c \<longleftrightarrow> (let n = of_char c :: nat in 48 \<le> n \<and> n \<le> 57)"

definition scan_d :: "string \<Rightarrow> (int \<times> string) option" where
  "scan_d s =
     (let s1 = dropWhile (\<lambda>c. is_space c \<and> c \<noteq> CHR 0x0A) s;
          signed = (s1 \<noteq> [] \<and> (hd s1 = CHR ''-'' \<or> hd s1 = CHR ''+''));
          sg = (if signed then [hd s1] else []);
          s2 = (if signed then tl s1 else s1);
          ds = takeWhile is_digit s2
      in if ds = [] then None
         else case parse_int 10 64 (sg @ ds) of
                None \<Rightarrow> None
              | Some i \<Rightarrow> Some (i, dropWhile is_digit s2))"

fun scan_dot :: "string \<Rightarrow> string option" where
  "scan_dot (c # s) = (if c = DOT then Some s else None)"
| "scan_dot [] = None"

definition sscanf4 :: "string \<Rightarrow> (int \<times> int \<times> int \<times> int) option" where
  "sscanf4 s =
     do { (a, s) \<leftarrow> scan_d s; s \<leftarrow> scan_dot s;
          (b, s) \<leftarrow> scan_d s; s \<leftarrow> scan_dot s;
          (c, s) \<leftarrow> scan_d s; s \<leftarrow> scan_dot s;
          (d, s) \<leftarrow> scan_d s;
          Some (a, b, c, d) }"

datatype node_error = NodeIdParseErr string

definition GenNodeIdByStr :: "string \<Rightarrow> node_error + u64" where
  "GenNodeIdByStr nodeIdStr =
     (case sscanf4 nodeIdStr of
        None \<Rightarrow> Inl (NodeIdParseErr nodeIdStr)
      | Some (bigworldId, worldId, nodeType, nodeInst) \<Rightarrow>
          Inr (GenNodeId (word_of_int bigworldId) (word_of_int worldId)
                         (word_of_int nodeType) (word_of_int nodeInst)))"

section \<open>Fields and number\<close>

lemma masks: "BigWorldIdMask = mask 10" "CommonMask = mask 18"
  by (simp_all add: BigWorldIdMask_def CommonMask_def mask_eq_exp_minus_1)

lemmas node_id_defs [go_defs] =
  GenNodeId_def GetBigWorldId_def GetWorldId_def GetNodeType_def GetNodeInst_def masks

lemmas node_bits = bit_or_iff bit_and_iff bit_mask_iff bit_push_bit_iff bit_drop_bit_eq bit_unsigned_iff

lemma GetBigWorldId_Gen: "GetBigWorldId (GenNodeId a b c d) = take_bit 10 a"
  by (rule bit_word_eqI) (auto simp: node_id_defs node_bits bit_take_bit_iff)

lemma GetWorldId_Gen: "GetWorldId (GenNodeId a b c d) = take_bit 18 b"
  by (rule bit_word_eqI) (auto simp: node_id_defs node_bits bit_take_bit_iff)

lemma GetNodeType_Gen: "GetNodeType (GenNodeId a b c d) = take_bit 18 c"
  by (rule bit_word_eqI) (auto simp: node_id_defs node_bits bit_take_bit_iff)

lemma GetNodeInst_Gen: "GetNodeInst (GenNodeId a b c d) = take_bit 18 d"
  by (rule bit_word_eqI) (auto simp: node_id_defs node_bits bit_take_bit_iff)

lemma GenNodeId_fields:
  "GenNodeId (GetBigWorldId w) (GetWorldId w) (GetNodeType w) (GetNodeInst w) = w"
proof (rule bit_word_eqI)
  fix n assume "n < LENGTH(64)"
  then consider "n < 18" | "18 \<le> n" "n < 36" | "36 \<le> n" "n < 54" | "54 \<le> n" "n < 64"
    by fastforce
  then show "bit (GenNodeId (GetBigWorldId w) (GetWorldId w) (GetNodeType w) (GetNodeInst w)) n
      = bit w n"
    by cases (auto simp: node_id_defs node_bits)
qed

section \<open>Printing and scanning\<close>

lemma char_neqI: "(of_char a :: nat) \<noteq> of_char b \<Longrightarrow> a \<noteq> b"
  by auto

lemma digit_char_props:
  assumes "d < 10"
  shows "is_digit (digit_char d)" "\<not> is_space (digit_char d)"
    "digit_char d \<noteq> CHR ''-''" "digit_char d \<noteq> CHR ''+''" "digit_char d \<noteq> DOT"
proof -
  have n: "of_char (digit_char d) = 48 + d" using assms by (simp add: digit_char_def)
  then show "is_digit (digit_char d)" "\<not> is_space (digit_char d)"
    using assms by (auto simp: is_digit_def is_space_def)
  show "digit_char d \<noteq> CHR ''-''" "digit_char d \<noteq> CHR ''+''" "digit_char d \<noteq> DOT"
    by (rule char_neqI, simp add: n DOT_def)+
qed

lemma fmt10_chars: "c \<in> set (fmt_nat 10 n) \<Longrightarrow> \<exists>d < 10. c = digit_char d"
  using fmt_nat_chars [of 10 c n] by simp

lemma fmt10_no_dot: "DOT \<notin> set (fmt_nat 10 n)"
  by (metis fmt10_chars digit_char_props(5))

lemma scan_d_fmt:
  assumes "n < 2 ^ 63" and "rest = [] \<or> \<not> is_digit (hd rest)"
  shows "scan_d (fmt_nat 10 n @ rest) = Some (int n, rest)"
proof -
  let ?f = "fmt_nat 10 n"
  have digits: "\<forall>c \<in> set ?f. is_digit c"
    using fmt10_chars digit_char_props(1) by blast
  obtain c cs where f: "?f = c # cs" by (cases ?f) auto
  then obtain d where "d < 10" "c = digit_char d" using fmt10_chars [of c n] by auto
  then have c: "\<not> is_space c" "c \<noteq> CHR ''-''" "c \<noteq> CHR ''+''" using digit_char_props by auto
  have tw: "takeWhile is_digit (?f @ rest) = ?f"
    using digits assms(2) by (cases rest) (auto simp: takeWhile_append2)
  have dw: "dropWhile is_digit (?f @ rest) = rest"
    using digits assms(2) by (cases rest) (auto simp: dropWhile_append2)
  have "parse_int 10 64 ?f = Some (int n)"
    using parse_int_fmt_int [of 10 64 "int n"] assms(1) by (simp add: fmt_int_def)
  then show ?thesis
    using f c tw dw by (simp add: scan_d_def Let_def)
qed

lemma DOT_not_digit: "\<not> is_digit DOT"
  by (simp add: is_digit_def DOT_def)

lemma sscanf4_fmt:
  assumes "a < 2 ^ 63" "b < 2 ^ 63" "c < 2 ^ 63" "d < 2 ^ 63"
  shows "sscanf4 (join_with DOT [fmt_nat 10 a, fmt_nat 10 b, fmt_nat 10 c, fmt_nat 10 d]) =
    Some (int a, int b, int c, int d)"
  using scan_d_fmt [OF assms(4), of "[]"] assms
  by (simp add: sscanf4_def scan_d_fmt DOT_not_digit)

lemma unat_u32_small: "unat (w :: u32) < 2 ^ 63"
proof -
  have "unat w < 2 ^ 32" using unsigned_less [of w, where ?'a = nat] by simp
  then show ?thesis by simp
qed

lemma GenNodeIdByStr_ToNodeIdStr: "GenNodeIdByStr (ToNodeIdStr w) = Inr w"
  unfolding GenNodeIdByStr_def ToNodeIdStr_def
    sscanf4_fmt [OF unat_u32_small unat_u32_small unat_u32_small unat_u32_small]
  by (simp add: GenNodeId_fields)

text \<open>The dotted text has exactly four segments, so it is a node name \<^const>\<open>path_wf\<close> admits.\<close>

lemma split_ToNodeIdStr: "length (split_on DOT (ToNodeIdStr w)) = 4"
  unfolding ToNodeIdStr_def by (subst split_on_join) (auto simp: fmt10_no_dot)

lemma path_wf_node_id:
  "DOT \<notin> set a \<Longrightarrow> DOT \<notin> set c \<Longrightarrow> path_wf \<lparr>NodeID = ToNodeIdStr w, ActorID = a, ChildID = c\<rparr>"
  by (simp add: path_wf_def split_ToNodeIdStr)

section \<open>The property\<close>

text \<open>
  Node numbers: the number is determined by its four fields and each field reads back what was
  packed, truncated to its width (10, 18, 18 and 18 bits); the dotted text of a number scans back to
  the number, and an actor path on that node parses back from its text.
\<close>

theorem node_id_roundtrip:
  "GenNodeIdByStr (ToNodeIdStr w) = Inr w \<and>
   GenNodeId (GetBigWorldId w) (GetWorldId w) (GetNodeType w) (GetNodeInst w) = w \<and>
   GetBigWorldId (GenNodeId a b c d) = take_bit 10 a \<and> GetWorldId (GenNodeId a b c d) = take_bit 18 b \<and>
   GetNodeType (GenNodeId a b c d) = take_bit 18 c \<and> GetNodeInst (GenNodeId a b c d) = take_bit 18 d \<and>
   (\<forall>actor child. DOT \<notin> set actor \<and> DOT \<notin> set child \<longrightarrow>
      ToActorPath (path_String \<lparr>NodeID = ToNodeIdStr w, ActorID = actor, ChildID = child\<rparr>) =
        Inr \<lparr>NodeID = ToNodeIdStr w, ActorID = actor, ChildID = child\<rparr>)"
  by (auto simp: GenNodeIdByStr_ToNodeIdStr GenNodeId_fields GetBigWorldId_Gen GetWorldId_Gen
      GetNodeType_Gen GetNodeInst_Gen intro!: ToActorPath_path_String path_wf_node_id)

theorem node_id_roundtrip_witness:
  "let p = \<lparr>NodeID = ToNodeIdStr 5, ActorID = ''room'', ChildID = ''7''\<rparr> in
   DOT \<notin> set (ActorID p) \<and> ToActorPath (path_String p) = Inr p"
proof -
  have no: "DOT \<notin> set ''room''" "DOT \<notin> set ''7''" by (simp_all add: DOT_def)
  with node_id_roundtrip [of 5] show ?thesis by (simp add: Let_def)
qed

end
