(* ===== verification/Agp_Packet.thy ===== *)
theory Agp_Packet
  imports Method_Table "HOL-Library.Multiset"
begin

text \<open>
  The AGP wire protocol: packet limits and validation (\<open>src/net/proto/agp_validator.go\<close>), the packet
  codec (\<open>src/net/proto/agp_codec.go\<close>), the TCP framer (\<open>src/net/parser/tcp_packet_framer.go\<close>) and the
  packet transports (\<open>src/net/parser/packet_transport.go\<close>). The protobuf encoding of a packet is a
  parameter of the codec. A connection is read as the bytes it still delivers, and written through a
  writer that may accept only a part of each write.
\<close>

section \<open>Packets and limits\<close>

record Request =
  rq_RequestId :: u32
  rq_MethodId :: u32
  rq_TimeoutMs :: u32
  rq_Body :: "byte list"

record Response =
  rs_RequestId :: u32
  rs_Code :: int
  rs_Message :: string
  rs_Body :: "byte list"

record Notification =
  nt_MethodId :: u32
  nt_Body :: "byte list"

datatype kind =
    Packet_Request "Request option" | Packet_Response "Response option"
  | Packet_Notify "Notification option"

record Packet =
  Kind :: "kind option"
  pk_Metadata :: "(string, byte list) gomap"
  pk_Codec :: int

record Limits =
  MaxPacketSize :: int
  MaxBodySize :: int
  MaxMetadataKeys :: int
  MaxMetadataKey :: int
  MaxMetadataValue :: int
  MaxMetadataSize :: int

definition DefaultMaxPacketSize :: int where
  "DefaultMaxPacketSize = 4194304"

definition DefaultLimits :: Limits where
  "DefaultLimits = \<lparr>MaxPacketSize = DefaultMaxPacketSize, MaxBodySize = DefaultMaxPacketSize - 1024,
     MaxMetadataKeys = 32, MaxMetadataKey = 64, MaxMetadataValue = 1024, MaxMetadataSize = 8192\<rparr>"

definition NormalizeLimits :: "Limits \<Rightarrow> Limits" where
  "NormalizeLimits l =
     (let l = (if MaxPacketSize l \<le> 0 then l\<lparr>MaxPacketSize := MaxPacketSize DefaultLimits\<rparr> else l);
          l = (if MaxBodySize l \<le> 0 then l\<lparr>MaxBodySize := MaxBodySize DefaultLimits\<rparr> else l);
          l = (if MaxBodySize l > MaxPacketSize l then l\<lparr>MaxBodySize := MaxPacketSize l\<rparr> else l);
          l = (if MaxMetadataKeys l \<le> 0 then l\<lparr>MaxMetadataKeys := MaxMetadataKeys DefaultLimits\<rparr> else l);
          l = (if MaxMetadataKey l \<le> 0 then l\<lparr>MaxMetadataKey := MaxMetadataKey DefaultLimits\<rparr> else l);
          l = (if MaxMetadataValue l \<le> 0 then l\<lparr>MaxMetadataValue := MaxMetadataValue DefaultLimits\<rparr> else l)
      in if MaxMetadataSize l \<le> 0 then l\<lparr>MaxMetadataSize := MaxMetadataSize DefaultLimits\<rparr> else l)"

datatype agp_error =
    PacketNil | KindMissing | UnsupportedCodec int | RequestIdsZero | ResponseIdZero | NotifyIdZero
  | BodyTooLarge int | TooManyMetadata | MetadataKeyLength | MetadataValueTooLarge string
  | MetadataTooLarge int | MarshalFailed string | UnmarshalFailed string | EncodedTooLarge int
  | InvalidPacketSize int

text \<open>The loop over the metadata map, in the order Go visits it: the total size, or the first error.\<close>

fun metadata_size :: "Limits \<Rightarrow> (string, byte list) gomap \<Rightarrow> int \<Rightarrow> agp_error + int" where
  "metadata_size l [] tot = Inr tot"
| "metadata_size l ((key, value) # rest) tot =
     (if length key = 0 \<or> int (length key) > MaxMetadataKey l then Inl MetadataKeyLength
      else if int (length value) > MaxMetadataValue l then Inl (MetadataValueTooLarge key)
      else metadata_size l rest (tot + int (length key) + int (length value)))"

definition kind_body :: "kind \<Rightarrow> agp_error + byte list" where
  "kind_body k =
     (case k of
        Packet_Request r \<Rightarrow>
          (case r of
             None \<Rightarrow> Inl RequestIdsZero
           | Some r \<Rightarrow> if rq_RequestId r = 0 \<or> rq_MethodId r = 0 then Inl RequestIdsZero else Inr (rq_Body r))
      | Packet_Response r \<Rightarrow>
          (case r of
             None \<Rightarrow> Inl ResponseIdZero
           | Some r \<Rightarrow> if rs_RequestId r = 0 then Inl ResponseIdZero else Inr (rs_Body r))
      | Packet_Notify n \<Rightarrow>
          (case n of
             None \<Rightarrow> Inl NotifyIdZero
           | Some n \<Rightarrow> if nt_MethodId n = 0 then Inl NotifyIdZero else Inr (nt_Body n)))"

definition ValidatePacket :: "Packet option \<Rightarrow> Limits \<Rightarrow> agp_error option" where
  "ValidatePacket packet limits =
     (case packet of
        None \<Rightarrow> Some PacketNil
      | Some packet \<Rightarrow>
          (let limits = NormalizeLimits limits in
           case Kind packet of
             None \<Rightarrow> Some KindMissing
           | Some k \<Rightarrow>
               if pk_Codec packet \<noteq> CodecProtobuf \<and> pk_Codec packet \<noteq> CodecJSON
               then Some (UnsupportedCodec (pk_Codec packet))
               else case kind_body k of
                 Inl e \<Rightarrow> Some e
               | Inr body \<Rightarrow>
                   if int (length body) > MaxBodySize limits then Some (BodyTooLarge (MaxBodySize limits))
                   else if int (length (pk_Metadata packet)) > MaxMetadataKeys limits then Some TooManyMetadata
                   else case metadata_size limits (pk_Metadata packet) 0 of
                     Inl e \<Rightarrow> Some e
                   | Inr tot \<Rightarrow>
                       if tot > MaxMetadataSize limits then Some (MetadataTooLarge (MaxMetadataSize limits))
                       else None))"

section \<open>The packet codec\<close>

text \<open>The third-party protobuf encoding of the packet envelope.\<close>

record packet_wire =
  wire_Marshal :: "Packet \<Rightarrow> string + byte list"
  wire_Unmarshal :: "byte list \<Rightarrow> string + Packet"

definition NewPacketCodec :: "Limits \<Rightarrow> Limits" where
  "NewPacketCodec limits = NormalizeLimits limits"

definition codec_Encode :: "packet_wire \<Rightarrow> Limits \<Rightarrow> Packet \<Rightarrow> agp_error + byte list" where
  "codec_Encode w limits packet =
     (case ValidatePacket (Some packet) limits of
        Some e \<Rightarrow> Inl e
      | None \<Rightarrow>
          (case wire_Marshal w packet of
             Inl e \<Rightarrow> Inl (MarshalFailed e)
           | Inr data \<Rightarrow>
               if int (length data) > MaxPacketSize limits then Inl (EncodedTooLarge (MaxPacketSize limits))
               else Inr data))"

definition codec_Decode :: "packet_wire \<Rightarrow> Limits \<Rightarrow> byte list \<Rightarrow> agp_error + Packet" where
  "codec_Decode w limits data =
     (if length data = 0 \<or> int (length data) > MaxPacketSize limits
      then Inl (InvalidPacketSize (int (length data)))
      else case wire_Unmarshal w data of
        Inl e \<Rightarrow> Inl (UnmarshalFailed e)
      | Inr packet \<Rightarrow>
          (case ValidatePacket (Some packet) limits of Some e \<Rightarrow> Inl e | None \<Rightarrow> Inr packet))"

section \<open>The TCP framer\<close>

datatype io_error = EOF | ErrUnexpectedEOF | ErrShortWrite | WriterError string
datatype frame_error = ReadLength io_error | InvalidLength nat | ReadPayload io_error
  | WriteLength io_error | WritePayload io_error

definition NewTCPPacketFramer :: "u32 \<Rightarrow> u32" where
  "NewTCPPacketFramer maxPacketSize =
     (if maxPacketSize = 0 then word_of_int DefaultMaxPacketSize else maxPacketSize)"

text \<open>\<open>io.ReadFull\<close> of \<open>n\<close> bytes.\<close>

definition ReadFull :: "nat \<Rightarrow> byte list \<Rightarrow> (io_error + byte list) \<times> byte list" where
  "ReadFull n stream =
     (if n \<le> length stream then (Inr (take n stream), drop n stream)
      else (Inl (if stream = [] then EOF else ErrUnexpectedEOF), []))"

definition ReadPacketBytes :: "u32 \<Rightarrow> byte list \<Rightarrow> (frame_error + byte list) \<times> byte list" where
  "ReadPacketBytes maxSize stream =
     (case ReadFull 4 stream of
        (Inl e, stream) \<Rightarrow> (Inl (ReadLength e), stream)
      | (Inr prefix, stream) \<Rightarrow>
          (let len = get_uint32 prefix in
           if len = 0 \<or> len > maxSize then (Inl (InvalidLength (unat len)), stream)
           else case ReadFull (unat len) stream of
             (Inl e, stream) \<Rightarrow> (Inl (ReadPayload e), stream)
           | (Inr packet, stream) \<Rightarrow> (Inr packet, stream)))"

text \<open>
  A writer: the bytes it took so far and what its next calls do, an error or the most bytes it takes.
  When the script is used up it takes everything.
\<close>

record writer =
  w_out :: "byte list"
  w_script :: "(string + nat) list"

definition w_Write :: "byte list \<Rightarrow> writer \<Rightarrow> (string + nat) \<times> writer" where
  "w_Write data w =
     (case w_script w of
        [] \<Rightarrow> (Inr (length data), w\<lparr>w_out := w_out w @ data\<rparr>)
      | Inl e # rest \<Rightarrow> (Inl e, w\<lparr>w_script := rest\<rparr>)
      | Inr n # rest \<Rightarrow>
          (Inr (min n (length data)), w\<lparr>w_out := w_out w @ take n data, w_script := rest\<rparr>))"

function writeFull :: "byte list \<Rightarrow> writer \<Rightarrow> io_error option \<times> writer" where
  "writeFull data w =
     (if length data = 0 then (None, w)
      else case w_Write data w of
        (Inl e, w') \<Rightarrow> (Some (WriterError e), w')
      | (Inr n, w') \<Rightarrow> if n = 0 then (Some ErrShortWrite, w') else writeFull (drop n data) w')"
  by pat_completeness auto
termination
  by (relation "measure (\<lambda>(data, w). length data)") auto

declare writeFull.simps [simp del]

definition WritePacketBytes :: "u32 \<Rightarrow> byte list \<Rightarrow> writer \<Rightarrow> frame_error option \<times> writer" where
  "WritePacketBytes maxSize packet w =
     (if length packet = 0 \<or> length packet > unat maxSize then (Some (InvalidLength (length packet)), w)
      else case writeFull (put_uint32 (of_nat (length packet))) w of
        (Some e, w) \<Rightarrow> (Some (WriteLength e), w)
      | (None, w) \<Rightarrow>
          (case writeFull packet w of
             (Some e, w) \<Rightarrow> (Some (WritePayload e), w)
           | (None, w) \<Rightarrow> (None, w)))"

section \<open>Transports\<close>

text \<open>
  \<open>newPacketTransport\<close> picks the framing; the TCP limit is converted to 32 bits. A WebSocket message
  carries one packet and must be binary (type 2).
\<close>

datatype transport = TcpTransport u32 | WebsocketTransport int

definition newPacketTransport :: "bool \<Rightarrow> Limits \<Rightarrow> transport" where
  "newPacketTransport is_websocket limits =
     (let limits = NormalizeLimits limits in
      if is_websocket then WebsocketTransport (MaxPacketSize limits)
      else TcpTransport (NewTCPPacketFramer (word_of_int (MaxPacketSize limits))))"

datatype ws_error = WsConn string | WsNotBinary | WsLength nat

definition ws_ReadPacketBytes :: "int \<Rightarrow> (string + nat \<times> byte list) \<Rightarrow> ws_error + byte list" where
  "ws_ReadPacketBytes maxSize message =
     (case message of
        Inl e \<Rightarrow> Inl (WsConn e)
      | Inr (typ, data) \<Rightarrow>
          if typ \<noteq> 2 then Inl WsNotBinary
          else if length data = 0 \<or> int (length data) > maxSize then Inl (WsLength (length data))
          else Inr data)"

definition ws_WritePacketBytes :: "int \<Rightarrow> byte list \<Rightarrow> ws_error + nat \<times> byte list" where
  "ws_WritePacketBytes maxSize data =
     (if length data = 0 \<or> int (length data) > maxSize then Inl (WsLength (length data))
      else Inr (2, data))"

section \<open>Limits and validation\<close>

lemma NormalizeLimits_fields:
  "MaxPacketSize (NormalizeLimits l) = (if MaxPacketSize l \<le> 0 then 4194304 else MaxPacketSize l)"
  "MaxBodySize (NormalizeLimits l) =
     min (if MaxBodySize l \<le> 0 then 4193280 else MaxBodySize l) (MaxPacketSize (NormalizeLimits l))"
  "MaxMetadataKeys (NormalizeLimits l) = (if MaxMetadataKeys l \<le> 0 then 32 else MaxMetadataKeys l)"
  "MaxMetadataKey (NormalizeLimits l) = (if MaxMetadataKey l \<le> 0 then 64 else MaxMetadataKey l)"
  "MaxMetadataValue (NormalizeLimits l) = (if MaxMetadataValue l \<le> 0 then 1024 else MaxMetadataValue l)"
  "MaxMetadataSize (NormalizeLimits l) = (if MaxMetadataSize l \<le> 0 then 8192 else MaxMetadataSize l)"
  by (simp_all add: NormalizeLimits_def DefaultLimits_def DefaultMaxPacketSize_def Let_def)

lemma Limits_eqI:
  "MaxPacketSize a = MaxPacketSize b \<Longrightarrow> MaxBodySize a = MaxBodySize b \<Longrightarrow>
   MaxMetadataKeys a = MaxMetadataKeys b \<Longrightarrow> MaxMetadataKey a = MaxMetadataKey b \<Longrightarrow>
   MaxMetadataValue a = MaxMetadataValue b \<Longrightarrow> MaxMetadataSize a = MaxMetadataSize b \<Longrightarrow> a = (b :: Limits)"
  by (cases a; cases b) simp

lemma NormalizeLimits_idem [simp]: "NormalizeLimits (NormalizeLimits l) = NormalizeLimits l"
  by (rule Limits_eqI) (auto simp: NormalizeLimits_fields min_def)

text \<open>A packet the protocol admits, stated without an order of checks.\<close>

definition meta_total :: "(string, byte list) gomap \<Rightarrow> nat" where
  "meta_total md = sum_list (map (\<lambda>(k, v). length k + length v) md)"

definition packet_valid :: "Limits \<Rightarrow> Packet \<Rightarrow> bool" where
  "packet_valid l p \<longleftrightarrow>
     pk_Codec p \<in> {1, 2} \<and>
     (\<exists>k body. Kind p = Some k \<and> kind_body k = Inr body \<and> int (length body) \<le> MaxBodySize l) \<and>
     int (length (pk_Metadata p)) \<le> MaxMetadataKeys l \<and>
     (\<forall>(k, v) \<in> set (pk_Metadata p). k \<noteq> [] \<and> int (length k) \<le> MaxMetadataKey l \<and>
        int (length v) \<le> MaxMetadataValue l) \<and>
     int (meta_total (pk_Metadata p)) \<le> MaxMetadataSize l"

lemma metadata_size_Inr:
  "metadata_size l md n = Inr r \<longleftrightarrow>
   (\<forall>(k, v) \<in> set md. k \<noteq> [] \<and> int (length k) \<le> MaxMetadataKey l \<and> int (length v) \<le> MaxMetadataValue l) \<and>
   r = n + int (meta_total md)"
  by (induction l md n rule: metadata_size.induct) (auto simp: meta_total_def)

lemma ValidatePacket_iff: "ValidatePacket (Some p) l = None \<longleftrightarrow> packet_valid (NormalizeLimits l) p"
proof -
  let ?l = "NormalizeLimits l"
  have "ValidatePacket (Some p) l = None \<longleftrightarrow>
      (\<exists>k body tot. Kind p = Some k \<and> pk_Codec p \<in> {CodecProtobuf, CodecJSON} \<and> kind_body k = Inr body \<and>
        int (length body) \<le> MaxBodySize ?l \<and> int (length (pk_Metadata p)) \<le> MaxMetadataKeys ?l \<and>
        metadata_size ?l (pk_Metadata p) 0 = Inr tot \<and> tot \<le> MaxMetadataSize ?l)"
    by (auto simp: ValidatePacket_def Let_def not_less split: option.splits sum.splits)
  then show ?thesis
    unfolding packet_valid_def metadata_size_Inr CodecProtobuf_def CodecJSON_def by auto
qed

text \<open>
  Validation accepts exactly the packets the protocol admits under the normalised limits, in
  whatever order Go iterates the metadata map; normalised limits are positive, keep the body within the
  packet, and are their own normal form.
\<close>

theorem ValidatePacket_exact:
  "(ValidatePacket (Some p) l = None \<longleftrightarrow> packet_valid (NormalizeLimits l) p) \<and>
   ValidatePacket None l \<noteq> None \<and>
   (\<forall>md. mset md = mset (pk_Metadata p) \<longrightarrow>
      (ValidatePacket (Some (p\<lparr>pk_Metadata := md\<rparr>)) l = None) = (ValidatePacket (Some p) l = None)) \<and>
   0 < MaxBodySize (NormalizeLimits l) \<and> MaxBodySize (NormalizeLimits l) \<le> MaxPacketSize (NormalizeLimits l) \<and>
   NormalizeLimits (NormalizeLimits l) = NormalizeLimits l"
proof (intro conjI allI impI)
  fix md :: "(string \<times> byte list) list" assume md: "mset md = mset (pk_Metadata p)"
  then have "set md = set (pk_Metadata p)" "length md = length (pk_Metadata p)" "meta_total md = meta_total (pk_Metadata p)"
    using mset_eq_setD mset_eq_length unfolding meta_total_def
    by (auto simp: sum_mset_sum_list [symmetric])
  then show "(ValidatePacket (Some (p\<lparr>pk_Metadata := md\<rparr>)) l = None) = (ValidatePacket (Some p) l = None)"
    unfolding ValidatePacket_iff packet_valid_def by simp
qed (auto simp: ValidatePacket_iff NormalizeLimits_fields, simp add: ValidatePacket_def)

theorem ValidatePacket_exact_witness:
  "let p = \<lparr>Kind = Some (Packet_Notify (Some \<lparr>nt_MethodId = 10, nt_Body = [1, 2]\<rparr>)),
            pk_Metadata = [(''a'', [1]), (''b'', [2])], pk_Codec = 1\<rparr> in
   ValidatePacket (Some p) DefaultLimits = None \<and>
   ValidatePacket (Some (p\<lparr>pk_Metadata := rev (pk_Metadata p)\<rparr>)) DefaultLimits = None"
proof -
  let ?p = "\<lparr>Kind = Some (Packet_Notify (Some \<lparr>nt_MethodId = 10, nt_Body = [1, 2]\<rparr>)),
            pk_Metadata = [(''a'', [1]), (''b'', [2])], pk_Codec = 1\<rparr>"
  have v: "ValidatePacket (Some ?p) DefaultLimits = None" by code_simp
  have "mset (rev (pk_Metadata ?p)) = mset (pk_Metadata ?p)" by (rule mset_rev)
  with ValidatePacket_exact [of ?p DefaultLimits] v
  have "ValidatePacket (Some (?p\<lparr>pk_Metadata := rev (pk_Metadata ?p)\<rparr>)) DefaultLimits = None" by blast
  with v show ?thesis by (simp add: Let_def)
qed

section \<open>Framing\<close>

definition frame :: "byte list \<Rightarrow> byte list" where
  "frame packet = put_uint32 (of_nat (length packet)) @ packet"

definition healthy :: "writer \<Rightarrow> bool" where
  "healthy w \<longleftrightarrow> (\<forall>r \<in> set (w_script w). \<exists>n > 0. r = Inr n)"

lemma writeFull_healthy:
  "healthy w \<Longrightarrow> \<exists>w'. writeFull data w = (None, w') \<and> w_out w' = w_out w @ data \<and> healthy w'"
proof (induction data w rule: writeFull.induct)
  case (1 data w)
  show ?case
  proof (cases "length data = 0")
    case True
    with 1(2) show ?thesis by (subst writeFull.simps) auto
  next
    case False
    obtain n w1 where w: "w_Write data w = (Inr n, w1)" "n > 0" "n \<le> length data"
      "w_out w1 = w_out w @ take n data" "healthy w1"
      using 1(2) False by (cases "w_script w") (auto simp: w_Write_def healthy_def min_def)
    have "\<exists>w'. writeFull (drop n data) w1 = (None, w') \<and> w_out w' = w_out w1 @ drop n data \<and> healthy w'"
      using "1.IH" [OF False] w by auto
    with False w show ?thesis by (subst writeFull.simps) auto
  qed
qed

text \<open>An error leaves a prefix of the data written, never bytes out of order.\<close>

lemma writeFull_prefix: "\<exists>k. w_out (snd (writeFull data w)) = w_out w @ take k data"
proof (induction data w rule: writeFull.induct)
  case (1 data w)
  show ?case
  proof (cases "w_Write data w")
    case (Pair r w1)
    show ?thesis
    proof (cases "length data = 0 \<or> isl r \<or> r = Inr 0")
      case True
      have "w_out w1 = w_out w" if "isl r \<or> r = Inr 0" "data \<noteq> []"
        using Pair that by (auto simp: w_Write_def min_def split: list.splits sum.splits if_splits)
      with True Pair show ?thesis
        by (subst writeFull.simps) (auto intro!: exI [of _ 0] split: sum.splits)
    next
      case False
      then obtain n where n: "r = Inr n" "n > 0" by (cases r) auto
      have out: "w_out w1 = w_out w @ take n data"
        using Pair n by (auto simp: w_Write_def min_def split: list.splits sum.splits if_splits)
      obtain k where "w_out (snd (writeFull (drop n data) w1)) = w_out w1 @ take k (drop n data)"
        using "1.IH" [of r w1 n] False Pair n by auto
      moreover have "take n data @ take k (drop n data) = take (n + k) data" by (simp add: take_add)
      ultimately show ?thesis
        using False Pair n out by (subst writeFull.simps) auto
    qed
  qed
qed

lemma WritePacketBytes_healthy:
  assumes "healthy w" "packet \<noteq> []" "length packet \<le> unat mx"
  shows "\<exists>w'. WritePacketBytes mx packet w = (None, w') \<and> w_out w' = w_out w @ frame packet \<and> healthy w'"
proof -
  let ?pre = "put_uint32 (of_nat (length packet))"
  obtain w1 where w1: "writeFull ?pre w = (None, w1)" "w_out w1 = w_out w @ ?pre" "healthy w1"
    using writeFull_healthy [OF assms(1)] by blast
  obtain w2 where w2: "writeFull packet w1 = (None, w2)" "w_out w2 = w_out w1 @ packet" "healthy w2"
    using writeFull_healthy [OF w1(3)] by blast
  show ?thesis using w1 w2 assms by (auto simp: WritePacketBytes_def frame_def)
qed

lemma u32_of_length: "length p \<le> unat (mx :: u32) \<Longrightarrow> unat (of_nat (length p) :: u32) = length p"
proof -
  assume "length p \<le> unat mx"
  moreover have "unat mx < 2 ^ 32" using unsigned_less [of mx, where ?'a = nat] by simp
  ultimately show ?thesis by (simp add: unat_of_nat take_bit_nat_eq_self)
qed

lemma ReadPacketBytes_frame:
  assumes "packet \<noteq> []" "length packet \<le> unat mx"
  shows "ReadPacketBytes mx (frame packet @ rest) = (Inr packet, rest)"
proof -
  have u: "unat (of_nat (length packet) :: u32) = length packet" by (rule u32_of_length [OF assms(2)])
  then have "(of_nat (length packet) :: u32) \<noteq> 0" "\<not> (of_nat (length packet) > mx)"
    using assms by (auto simp: word_less_nat_alt unat_eq_0 [symmetric] simp del: unat_eq_0)
  with u show ?thesis
    by (simp add: ReadPacketBytes_def ReadFull_def frame_def Let_def)
qed

lemma length_4_put: "length p = 4 \<Longrightarrow> put_uint32 (get_uint32 p) = p"
proof -
  assume "length p = 4"
  then obtain a b c d where p: "p = [a, b, c, d]" by (auto simp: numeral_eq_Suc length_Suc_conv)
  show ?thesis unfolding p put_uint32_def get_uint32.simps list.inject
    by (intro conjI; (rule bit_word_eqI)?)
       (auto simp: bit_or_iff bit_push_bit_iff bit_drop_bit_eq bit_ucast_iff dest: bit_imp_le_length)
qed

text \<open>
  TCP framing. A read succeeds only on a frame: the packet it returns is non-empty and within the
  limit, and the bytes it consumed are exactly that packet's frame, so what follows is still there for
  the next read. Conversely the frame of any admissible packet is read back, whatever follows it. A write
  through a connection that takes the bytes in pieces of any positive size puts exactly the frame on the
  wire.
\<close>

theorem framing_exact:
  "(ReadPacketBytes mx stream = (Inr packet, rest) \<longleftrightarrow>
      packet \<noteq> [] \<and> length packet \<le> unat mx \<and> stream = frame packet @ rest) \<and>
   (healthy w \<and> packet \<noteq> [] \<and> length packet \<le> unat mx \<longrightarrow>
      (\<exists>w'. WritePacketBytes mx packet w = (None, w') \<and> w_out w' = w_out w @ frame packet)) \<and>
   (packet = [] \<or> length packet > unat mx \<longrightarrow>
      WritePacketBytes mx packet w = (Some (InvalidLength (length packet)), w))"
proof (intro conjI impI)
  show "ReadPacketBytes mx stream = (Inr packet, rest) \<longleftrightarrow>
      packet \<noteq> [] \<and> length packet \<le> unat mx \<and> stream = frame packet @ rest" (is "?l \<longleftrightarrow> ?r")
  proof
    assume ?l
    then have len: "4 \<le> length stream"
      by (auto simp: ReadPacketBytes_def ReadFull_def split: if_splits)
    let ?n = "get_uint32 (take 4 stream)"
    from \<open>?l\<close> len have n: "?n \<noteq> 0" "?n \<le> mx" "unat ?n \<le> length (drop 4 stream)"
      "packet = take (unat ?n) (drop 4 stream)" "rest = drop (unat ?n) (drop 4 stream)"
      by (auto simp: ReadPacketBytes_def ReadFull_def Let_def not_less split: if_splits)
    have l: "length packet = unat ?n" using n(3,4) by simp
    then have "frame packet = take 4 stream @ packet"
      using length_4_put [of "take 4 stream"] len by (simp add: frame_def)
    moreover have "stream = take 4 stream @ packet @ rest" unfolding n(4,5) by (metis append_take_drop_id)
    ultimately show ?r using n l by (auto simp: word_le_nat_alt unat_eq_0)
  next
    assume ?r
    then show ?l by (auto intro: ReadPacketBytes_frame)
  qed
next
  assume "healthy w \<and> packet \<noteq> [] \<and> length packet \<le> unat mx"
  then show "\<exists>w'. WritePacketBytes mx packet w = (None, w') \<and> w_out w' = w_out w @ frame packet"
    using WritePacketBytes_healthy by blast
next
  assume "packet = [] \<or> length packet > unat mx"
  then show "WritePacketBytes mx packet w = (Some (InvalidLength (length packet)), w)"
    by (auto simp: WritePacketBytes_def)
qed

theorem framing_exact_witness:
  "let w = \<lparr>w_out = [], w_script = [Inr 1, Inr 2]\<rparr>; packet = [7, 8, 9] in
   healthy w \<and> (\<exists>w'. WritePacketBytes 100 packet w = (None, w') \<and> w_out w' = frame packet \<and>
     frame packet = [0, 0, 0, 3, 7, 8, 9])"
proof -
  let ?w = "\<lparr>w_out = [], w_script = [Inr 1, Inr 2]\<rparr> :: writer"
  have "healthy ?w" by (auto simp: healthy_def)
  moreover have "frame [7, 8, 9] = [0, 0, 0, 3, 7, 8, 9]" by code_simp
  moreover have "length [7, 8, 9 :: byte] \<le> unat (100 :: u32)" by simp
  ultimately show ?thesis
    using framing_exact [of 100 "[]" "[7, 8, 9]" "[]" ?w] by (auto simp: Let_def)
qed

section \<open>From packet to packet\<close>

fun write_all :: "u32 \<Rightarrow> byte list list \<Rightarrow> writer \<Rightarrow> frame_error option \<times> writer" where
  "write_all mx [] w = (None, w)"
| "write_all mx (p # ps) w =
     (case WritePacketBytes mx p w of (Some e, w) \<Rightarrow> (Some e, w) | (None, w) \<Rightarrow> write_all mx ps w)"

fun read_n :: "u32 \<Rightarrow> nat \<Rightarrow> byte list \<Rightarrow> (frame_error + byte list list) \<times> byte list" where
  "read_n mx 0 stream = (Inr [], stream)"
| "read_n mx (Suc n) stream =
     (case ReadPacketBytes mx stream of
        (Inl e, stream) \<Rightarrow> (Inl e, stream)
      | (Inr p, stream) \<Rightarrow>
          (case read_n mx n stream of
             (Inl e, stream) \<Rightarrow> (Inl e, stream)
           | (Inr ps, stream) \<Rightarrow> (Inr (p # ps), stream)))"

lemma write_all_frames:
  "healthy w \<Longrightarrow> \<forall>p \<in> set ps. p \<noteq> [] \<and> length p \<le> unat mx \<Longrightarrow>
   \<exists>w'. write_all mx ps w = (None, w') \<and> w_out w' = w_out w @ concat (map frame ps) \<and> healthy w'"
proof (induction ps arbitrary: w)
  case (Cons p ps)
  obtain w1 where w1: "WritePacketBytes mx p w = (None, w1)" "w_out w1 = w_out w @ frame p" "healthy w1"
    using WritePacketBytes_healthy [OF Cons.prems(1), of p mx] Cons.prems(2) by auto
  with Cons.IH [OF w1(3)] Cons.prems(2) show ?case by auto
qed simp

lemma read_n_frames:
  "\<forall>p \<in> set ps. p \<noteq> [] \<and> length p \<le> unat mx \<Longrightarrow>
   read_n mx (length ps) (concat (map frame ps) @ rest) = (Inr ps, rest)"
  by (induction ps) (auto simp: ReadPacketBytes_frame)

lemma tcp_limit:
  assumes "newPacketTransport False l = TcpTransport mx" and "MaxPacketSize (NormalizeLimits l) < 2 ^ 32"
  shows "unat mx = nat (MaxPacketSize (NormalizeLimits l))"
proof -
  let ?m = "MaxPacketSize (NormalizeLimits l)"
  have pos: "0 < ?m" by (simp add: NormalizeLimits_fields)
  have u: "uint (word_of_int ?m :: u32) = ?m"
    using pos assms(2) by (simp add: uint_word_of_int)
  then have "(word_of_int ?m :: u32) \<noteq> 0" using pos by auto
  with assms(1) have "mx = word_of_int ?m"
    by (simp add: newPacketTransport_def NewTCPPacketFramer_def Let_def)
  with u show ?thesis by (simp add: unat_eq_nat_uint)
qed

text \<open>
  C28. End to end. Two ends that share limits of less than four gigabytes agree: every packet the
  sender's codec encodes is accepted by the TCP framer built from the same limits, a sequence of such
  packets is split again at the right places whatever the sizes of the single writes, and the
  receiver's codec decodes every one to the packet that was sent. Assumed of protobuf: unmarshalling
  what was marshalled gives the packet back, and no valid packet is encoded as no bytes.
\<close>

theorem packet_stream_roundtrip:
  assumes wire: "\<And>p b. wire_Marshal w p = Inr b \<Longrightarrow> wire_Unmarshal w b = Inr p \<and> b \<noteq> []"
    and mx: "newPacketTransport False lim = TcpTransport mx" "MaxPacketSize (NormalizeLimits lim) < 2 ^ 32"
    and enc: "list_all2 (\<lambda>p b. codec_Encode w (NewPacketCodec lim) p = Inr b) packets datas"
    and wr: "healthy out" "w_out out = []"
  shows "\<exists>out'. write_all mx datas out = (None, out') \<and>
    read_n mx (length packets) (w_out out' @ rest) = (Inr datas, rest) \<and>
    list_all2 (\<lambda>p b. codec_Decode w (NewPacketCodec lim) b = Inr p) packets datas"
proof -
  let ?l = "NewPacketCodec lim"
  have dec: "codec_Decode w ?l b = Inr p \<and> b \<noteq> [] \<and> length b \<le> unat mx"
    if "codec_Encode w ?l p = Inr b" for p b
  proof -
    have v: "ValidatePacket (Some p) ?l = None" "wire_Marshal w p = Inr b" "int (length b) \<le> MaxPacketSize ?l"
      using that by (auto simp: codec_Encode_def split: option.splits sum.splits if_splits)
    with wire have "wire_Unmarshal w b = Inr p" "b \<noteq> []" by blast+
    with v tcp_limit [OF mx] show ?thesis
      by (auto simp: codec_Decode_def NewPacketCodec_def)
  qed
  have ok: "\<forall>b \<in> set datas. b \<noteq> [] \<and> length b \<le> unat mx"
    using enc by induction (use dec in auto)
  obtain out' where o: "write_all mx datas out = (None, out')" "w_out out' = concat (map frame datas)"
    using write_all_frames [OF wr(1) ok] wr(2) by auto
  moreover have "length packets = length datas" using enc by (rule list_all2_lengthD)
  moreover have "list_all2 (\<lambda>p b. codec_Decode w ?l b = Inr p) packets datas"
    using enc by (rule list_all2_mono) (use dec in blast)
  ultimately show ?thesis using read_n_frames [OF ok, of rest] by auto
qed

text \<open>A one-packet protobuf stand-in for evaluation.\<close>

definition ping :: Packet where
  "ping = \<lparr>Kind = Some (Packet_Notify (Some \<lparr>nt_MethodId = 10, nt_Body = [1, 2]\<rparr>)), pk_Metadata = [], pk_Codec = 1\<rparr>"

definition ping_wire :: packet_wire where
  "ping_wire = \<lparr>wire_Marshal = (\<lambda>p. if p = ping then Inr [26, 4] else Inl ''unknown''),
     wire_Unmarshal = (\<lambda>b. if b = [26, 4] then Inr ping else Inl ''unknown'')\<rparr>"

theorem packet_stream_roundtrip_witness:
  "\<exists>mx out'. newPacketTransport False DefaultLimits = TcpTransport mx \<and>
     codec_Encode ping_wire (NewPacketCodec DefaultLimits) ping = Inr [26, 4] \<and>
     write_all mx [[26, 4], [26, 4]] \<lparr>w_out = [], w_script = [Inr 3]\<rparr> = (None, out') \<and>
     read_n mx 2 (w_out out') = (Inr [[26, 4], [26, 4]], [])"
proof -
  let ?out = "\<lparr>w_out = [], w_script = [Inr 3]\<rparr> :: writer"
  obtain mx where mx: "newPacketTransport False DefaultLimits = TcpTransport mx"
    by (simp add: newPacketTransport_def Let_def)
  have wire: "wire_Unmarshal ping_wire b = Inr p \<and> b \<noteq> []" if "wire_Marshal ping_wire p = Inr b" for p b
    using that by (auto simp: ping_wire_def split: if_splits)
  have "ValidatePacket (Some ping) (NewPacketCodec DefaultLimits) = None" by code_simp
  then have e: "codec_Encode ping_wire (NewPacketCodec DefaultLimits) ping = Inr [26, 4]"
    by (simp add: codec_Encode_def ping_wire_def NewPacketCodec_def NormalizeLimits_fields DefaultLimits_def
        DefaultMaxPacketSize_def)
  have h: "healthy ?out" by (auto simp: healthy_def)
  have m: "MaxPacketSize (NormalizeLimits DefaultLimits) < 2 ^ 32"
    by (simp add: NormalizeLimits_fields DefaultLimits_def DefaultMaxPacketSize_def)
  from e have "list_all2 (\<lambda>p b. codec_Encode ping_wire (NewPacketCodec DefaultLimits) p = Inr b)
      [ping, ping] [[26, 4], [26, 4]]" by simp
  from packet_stream_roundtrip [OF wire mx m this h, of "[]"] obtain out' where
    "write_all mx [[26, 4], [26, 4]] ?out = (None, out')"
    "read_n mx 2 (w_out out') = (Inr [[26, 4], [26, 4]], [])" by (auto simp: numeral_2_eq_2)
  with mx e show ?thesis by blast
qed

end
