(* ===== verification/Agp_Connection.thy ===== *)
theory Agp_Connection
  imports Agp_Packet
begin

text \<open>
  One AGP client connection (\<open>src/net/parser/connection.go\<close>) and its options
  (\<open>src/net/parser/options.go\<close>). The operations act on the record of the connection: the reader's
  \<open>process\<close>, the request handler goroutines (started and finished in separate steps), the writer
  goroutine, and the calls of the application. What the connection asks of the method table is recorded
  as the list of its \<open>Dispatch\<close> calls; the result of a dispatch is an argument of the step that finishes
  the handler. The protobuf messages of the control methods are parameters. Instants and durations count
  nanoseconds.
\<close>

section \<open>Options\<close>

record Options =
  opt_Limits :: Limits
  WriteQueueSize :: int
  MaxInflight :: int
  HandshakeTimeout :: int
  HeartbeatInterval :: int
  IdleTimeout :: int
  WriteTimeout :: int
  MaxRequestTimeout :: int

definition second :: int where
  "second = 1000000000"

definition defaultOptions :: Options where
  "defaultOptions = \<lparr>opt_Limits = DefaultLimits, WriteQueueSize = 256, MaxInflight = 128,
     HandshakeTimeout = 10 * second, HeartbeatInterval = 30 * second, IdleTimeout = 90 * second,
     WriteTimeout = 10 * second, MaxRequestTimeout = 30 * second\<rparr>"

datatype Opt =
    WithLimits Limits | WithWriteQueue int | WithMaxInflight int | WithHandshakeTimeout int
  | WithHeartbeat int int | WithWriteTimeout int | WithMaxRequestTimeout int

fun apply_option :: "Opt \<Rightarrow> Options \<Rightarrow> Options" where
  "apply_option (WithLimits l) opts = opts\<lparr>opt_Limits := l\<rparr>"
| "apply_option (WithWriteQueue n) opts = (if n > 0 then opts\<lparr>WriteQueueSize := n\<rparr> else opts)"
| "apply_option (WithMaxInflight n) opts = (if n > 0 then opts\<lparr>MaxInflight := n\<rparr> else opts)"
| "apply_option (WithHandshakeTimeout t) opts = (if t > 0 then opts\<lparr>HandshakeTimeout := t\<rparr> else opts)"
| "apply_option (WithHeartbeat interval idle) opts =
     (let opts = (if interval > 0 then opts\<lparr>HeartbeatInterval := interval\<rparr> else opts)
      in if idle > 0 then opts\<lparr>IdleTimeout := idle\<rparr> else opts)"
| "apply_option (WithWriteTimeout t) opts = (if t > 0 then opts\<lparr>WriteTimeout := t\<rparr> else opts)"
| "apply_option (WithMaxRequestTimeout t) opts = (if t > 0 then opts\<lparr>MaxRequestTimeout := t\<rparr> else opts)"

text \<open>The options a component is built with: the defaults, the given options in order, normal limits.\<close>

definition component_options :: "Opt list \<Rightarrow> Options" where
  "component_options os =
     (let opts = fold apply_option os defaultOptions in opts\<lparr>opt_Limits := NormalizeLimits (opt_Limits opts)\<rparr>)"

section \<open>State of a connection\<close>

datatype ConnectionState = ConnectionHandshaking | ConnectionReady | ConnectionDraining | ConnectionClosed

record HandshakeResponse =
  hs_ProtocolVersion :: nat
  hs_HeartbeatIntervalMs :: u32
  hs_MaxFrameSize :: u32
  hs_ConnectionId :: string

text \<open>The protobuf encodings of the control messages; no value stands for an error.\<close>

record control_wire =
  un_Handshake :: "byte list \<Rightarrow> nat list option"
  m_Handshake :: "HandshakeResponse \<Rightarrow> byte list option"
  un_Heartbeat :: "byte list \<Rightarrow> int option"
  m_Heartbeat :: "int \<Rightarrow> int \<Rightarrow> byte list option"
  un_Cancel :: "byte list \<Rightarrow> u32 option"
  m_Kick :: "int \<Rightarrow> string \<Rightarrow> bool \<Rightarrow> byte list option"
  m_GoAway :: "int \<Rightarrow> u32 \<Rightarrow> byte list option"

record dispatch_call =
  dc_ctx :: RequestContext
  dc_method :: u32
  dc_body :: "byte list"
  dc_type :: MsgType

text \<open>
  A running request handler: its request number, the codec of its packet, and its context, which
  \<open>cancel\<close> marks. The map \<open>inflight\<close> points to handlers by number.
\<close>

record req_handler =
  rh_RequestId :: u32
  rh_Codec :: int
  rh_ctx :: RequestContext

record Connection =
  cn_options :: Options
  cn_id :: string
  cn_session :: Session
  cn_state :: ConnectionState
  cn_writeCh :: "Packet list"
  cn_done :: bool
  cn_inflight :: "(u32, nat) gomap"
  cn_handlers :: "(nat, req_handler) gomap"
  cn_nexth :: nat
  cn_calls :: "dispatch_call list"
  cn_wire :: "Packet list"
  cn_readDeadline :: "int option"

definition newConnection :: "string \<Rightarrow> string \<Rightarrow> Options \<Rightarrow> Connection" where
  "newConnection i remoteIP opts =
     \<lparr>cn_options = opts, cn_id = i, cn_session = \<lparr>Sid = i, Uid = 0, Ip = remoteIP, Data = Some []\<rparr>,
      cn_state = ConnectionHandshaking, cn_writeCh = [], cn_done = False, cn_inflight = [],
      cn_handlers = [], cn_nexth = 0, cn_calls = [], cn_wire = [], cn_readDeadline = None\<rparr>"

definition conn_Session :: "Connection \<Rightarrow> Session" where
  "conn_Session c = clone_session (cn_session c)"

definition conn_UID :: "Connection \<Rightarrow> int" where
  "conn_UID c = Uid (cn_session c)"

definition conn_bind :: "int \<Rightarrow> (string, string) gomap option \<Rightarrow> Connection \<Rightarrow> Connection" where
  "conn_bind uid data c =
     c\<lparr>cn_session := (cn_session c)\<lparr>Uid := uid, Data := Some (case data of None \<Rightarrow> [] | Some d \<Rightarrow> d)\<rparr>\<rparr>"

section \<open>Closing, reserving, sending\<close>

text \<open>\<open>cancel\<close> of a handler's context.\<close>

definition cancel_handler :: "nat \<Rightarrow> Connection \<Rightarrow> Connection" where
  "cancel_handler h c =
     c\<lparr>cn_handlers := map (\<lambda>(k, r). if k = h
        then (k, r\<lparr>rh_ctx := (rh_ctx r)\<lparr>Context := map_option cancel_ctx (Context (rh_ctx r))\<rparr>\<rparr>) else (k, r))
        (cn_handlers c)\<rparr>"

text \<open>\<open>Close\<close>: the first call closes, cancels everything in flight and forgets it; later calls do nothing.\<close>

definition conn_Close :: "Connection \<Rightarrow> Connection" where
  "conn_Close c =
     (if cn_done c then c
      else (fold (\<lambda>(_, h). cancel_handler h) (cn_inflight c) (c\<lparr>cn_state := ConnectionClosed\<rparr>))
             \<lparr>cn_inflight := [], cn_done := True\<rparr>)"

definition enqueue :: "Packet \<Rightarrow> Connection \<Rightarrow> bool \<times> Connection" where
  "enqueue p c =
     (if cn_done c then (False, c)
      else if int (length (cn_writeCh c)) < WriteQueueSize (cn_options c)
      then (True, c\<lparr>cn_writeCh := cn_writeCh c @ [p]\<rparr>)
      else (False, c))"

definition conn_send :: "Packet \<Rightarrow> Connection \<Rightarrow> bool \<times> Connection" where
  "conn_send p c = enqueue p c"

definition reserve :: "u32 \<Rightarrow> nat \<Rightarrow> Connection \<Rightarrow> bool \<times> Connection" where
  "reserve requestID h c =
     (if map_of (cn_inflight c) requestID \<noteq> None \<or> int (length (cn_inflight c)) \<ge> MaxInflight (cn_options c)
      then (False, c)
      else (True, c\<lparr>cn_inflight := AList.update requestID h (cn_inflight c)\<rparr>))"

definition release :: "u32 \<Rightarrow> Connection \<Rightarrow> Connection" where
  "release requestID c = c\<lparr>cn_inflight := AList.delete requestID (cn_inflight c)\<rparr>"

definition responsePacket :: "u32 \<Rightarrow> int \<Rightarrow> 'v InvokeResult option \<Rightarrow> byte list \<Rightarrow> Packet" where
  "responsePacket requestID codec result body =
     (let result = (case result of
                      None \<Rightarrow> ErrorResult STATUS_INTERNAL ''missing invoke result'' | Some r \<Rightarrow> r)
      in \<lparr>Kind = Some (Packet_Response (Some \<lparr>rs_RequestId = requestID, rs_Code = Code result,
             rs_Message = Message result, rs_Body = body\<rparr>)), pk_Metadata = [], pk_Codec = codec\<rparr>)"

definition notifyPacket :: "u32 \<Rightarrow> byte list \<Rightarrow> int \<Rightarrow> Packet" where
  "notifyPacket methodID body codec =
     \<lparr>Kind = Some (Packet_Notify (Some \<lparr>nt_MethodId = methodID, nt_Body = body\<rparr>)), pk_Metadata = [], pk_Codec = codec\<rparr>"

definition requestContext :: "int \<Rightarrow> Packet \<Rightarrow> u32 \<Rightarrow> u32 \<Rightarrow> Connection \<Rightarrow> RequestContext" where
  "requestContext now packet requestID timeoutMS c =
     (let timeout = uint timeoutMS * 1000000;
          timeout = (if timeout \<le> 0 \<or> timeout > MaxRequestTimeout (cn_options c)
                     then MaxRequestTimeout (cn_options c) else timeout)
      in (NewRequestContext (Some (WithTimeout now Background timeout)))
           \<lparr>RequestID := requestID, Transport := TransportAGP, Codec := pk_Codec packet,
            rc_Session := Some (conn_Session c), Metadata := cloneMetadata (Some (pk_Metadata packet))\<rparr>)"

section \<open>Inbound packets\<close>

definition handleHandshake :: "control_wire \<Rightarrow> int \<Rightarrow> Request option \<Rightarrow> Connection \<Rightarrow> bool \<times> Connection" where
  "handleHandshake cw now request c =
     (case request of
        None \<Rightarrow> (False, c)
      | Some request \<Rightarrow>
          if rq_RequestId request = 0 then (False, c)
          else case un_Handshake cw (rq_Body request) of
            None \<Rightarrow> (False, c)
          | Some versions \<Rightarrow>
              if 1 \<notin> set versions then (False, c)
              else case m_Handshake cw
                     \<lparr>hs_ProtocolVersion = 1,
                      hs_HeartbeatIntervalMs = word_of_int (HeartbeatInterval (cn_options c) div 1000000),
                      hs_MaxFrameSize = word_of_int (MaxPacketSize (opt_Limits (cn_options c))),
                      hs_ConnectionId = cn_id c\<rparr> of
                None \<Rightarrow> (False, c)
              | Some body \<Rightarrow>
                  (let c = c\<lparr>cn_state := ConnectionReady\<rparr>;
                       c = (if IdleTimeout (cn_options c) > 0
                            then c\<lparr>cn_readDeadline := Some (now + IdleTimeout (cn_options c))\<rparr> else c)
                   in conn_send (responsePacket (rq_RequestId request) CodecProtobuf
                        (Some (OKResult PNil :: unit InvokeResult)) body) c))"

definition handleHeartbeat :: "control_wire \<Rightarrow> int \<Rightarrow> Request \<Rightarrow> Connection \<Rightarrow> Connection" where
  "handleHeartbeat cw now request c =
     (case un_Heartbeat cw (rq_Body request) of
        None \<Rightarrow> conn_Close c
      | Some clientTime \<Rightarrow>
          (case m_Heartbeat cw clientTime (now div 1000000) of
             None \<Rightarrow> conn_Close c
           | Some body \<Rightarrow>
               (case conn_send (responsePacket (rq_RequestId request) CodecProtobuf
                       (Some (OKResult PNil :: unit InvokeResult)) body) c of
                  (True, c) \<Rightarrow> c
                | (False, c) \<Rightarrow> conn_Close c)))"

definition handleNotify :: "int \<Rightarrow> Packet \<Rightarrow> Notification \<Rightarrow> Connection \<Rightarrow> Connection" where
  "handleNotify now packet notify c =
     c\<lparr>cn_calls := cn_calls c @ [\<lparr>dc_ctx = requestContext now packet 0 0 c, dc_method = nt_MethodId notify,
        dc_body = nt_Body notify, dc_type = NOTIFY\<rparr>]\<rparr>"

definition handleCancel :: "control_wire \<Rightarrow> byte list \<Rightarrow> Connection \<Rightarrow> bool \<times> Connection" where
  "handleCancel cw body c =
     (case un_Cancel cw body of
        None \<Rightarrow> (False, c)
      | Some requestID \<Rightarrow>
          if requestID = 0 then (False, c)
          else (True, case map_of (cn_inflight c) requestID of None \<Rightarrow> c | Some h \<Rightarrow> cancel_handler h c))"

text \<open>The start of a request handler: its context, its place in flight, its goroutine and its dispatch.\<close>

definition start_request :: "int \<Rightarrow> Packet \<Rightarrow> Request \<Rightarrow> Connection \<Rightarrow> bool \<times> Connection" where
  "start_request now packet request c =
     (let ctx = requestContext now packet (rq_RequestId request) (rq_TimeoutMs request) c; h = cn_nexth c in
      case reserve (rq_RequestId request) h c of
        (False, c) \<Rightarrow> (False, c)
      | (True, c) \<Rightarrow>
          (True, c\<lparr>cn_nexth := Suc h,
             cn_handlers := AList.update h \<lparr>rh_RequestId = rq_RequestId request, rh_Codec = pk_Codec packet,
                rh_ctx = ctx\<rparr> (cn_handlers c),
             cn_calls := cn_calls c @ [\<lparr>dc_ctx = ctx, dc_method = rq_MethodId request,
                dc_body = rq_Body request, dc_type = REQUEST\<rparr>]\<rparr>))"

definition process :: "control_wire \<Rightarrow> int \<Rightarrow> Packet \<Rightarrow> Connection \<Rightarrow> bool \<times> Connection" where
  "process cw now packet c =
     (case Kind packet of
        Some (Packet_Request (Some request)) \<Rightarrow>
          if cn_state c = ConnectionHandshaking then
            (if pk_Codec packet = CodecProtobuf \<and> rq_MethodId request = SystemMethodHandshake
             then handleHandshake cw now (Some request) c else (False, c))
          else if cn_state c \<noteq> ConnectionReady then (False, c)
          else if rq_MethodId request = SystemMethodHeartbeat then
            (if pk_Codec packet \<noteq> CodecProtobuf then (False, c) else (True, handleHeartbeat cw now request c))
          else if rq_MethodId request \<le> SystemMethodKick then (False, c)
          else start_request now packet request c
      | Some (Packet_Notify (Some notify)) \<Rightarrow>
          if cn_state c \<noteq> ConnectionReady then (False, c)
          else if nt_MethodId notify = SystemMethodCancel then
            (if pk_Codec packet \<noteq> CodecProtobuf then (False, c) else handleCancel cw (nt_Body notify) c)
          else if nt_MethodId notify \<le> SystemMethodKick then (False, c)
          else (True, handleNotify now packet notify c)
      | _ \<Rightarrow> (False, c))"

text \<open>One turn of \<open>Run\<close>: what was read is a packet's bytes or an error.\<close>

definition run_turn ::
  "packet_wire \<Rightarrow> control_wire \<Rightarrow> int \<Rightarrow> string + byte list \<Rightarrow> Connection \<Rightarrow> Connection" where
  "run_turn w cw now input c =
     (case input of
        Inl _ \<Rightarrow> conn_Close c
      | Inr data \<Rightarrow>
          (case codec_Decode w (NewPacketCodec (opt_Limits (cn_options c))) data of
             Inl _ \<Rightarrow> conn_Close c
           | Inr packet \<Rightarrow>
               (let c = (if cn_state c \<noteq> ConnectionHandshaking \<and> IdleTimeout (cn_options c) > 0
                         then c\<lparr>cn_readDeadline := Some (now + IdleTimeout (cn_options c))\<rparr> else c)
                in case process cw now packet c of
                     (True, c) \<Rightarrow> c
                   | (False, c) \<Rightarrow> conn_Close c)))"

text \<open>The rest of \<open>handleRequest\<close> once the dispatch answered.\<close>

definition response_body ::
  "'v Registry \<Rightarrow> int \<Rightarrow> 'v InvokeResult option \<Rightarrow> 'v InvokeResult option \<times> byte list" where
  "response_body cs codec result =
     (case result of
        None \<Rightarrow> (Some (ErrorResult STATUS_INTERNAL ''method table returned nil result''), [])
      | Some r \<Rightarrow>
          if Code r = 0 then
            (case Payload r of
               PNil \<Rightarrow> (Some r, [])
             | PBytes encoded \<Rightarrow> (Some r, encoded)
             | PVal t v \<Rightarrow>
                 (case reg_Marshal cs codec (PVal t v) of
                    Inl _ \<Rightarrow> (Some (ErrorResult STATUS_INTERNAL ''response body encode failed''), [])
                  | Inr body \<Rightarrow> (Some r, body)))
          else (Some r, []))"

definition finish_request :: "'v Registry \<Rightarrow> nat \<Rightarrow> 'v InvokeResult option \<Rightarrow> Connection \<Rightarrow> Connection" where
  "finish_request cs h result c =
     (case map_of (cn_handlers c) h of
        None \<Rightarrow> c
      | Some r \<Rightarrow>
          (let (result, body) = response_body cs (Codec (rh_ctx r)) result;
               c = (case conn_send (responsePacket (rh_RequestId r) (rh_Codec r) result body) c of
                      (True, c) \<Rightarrow> c | (False, c) \<Rightarrow> conn_Close c)
           in release (rh_RequestId r) (c\<lparr>cn_handlers := AList.delete h (cn_handlers c)\<rparr>)))"

section \<open>Outbound packets\<close>

datatype conn_error =
    ConnNotReady | ReservedMethod u32 | BodyEncode codec_error | WriteQueueFull | ConnIsClosed
  | ControlEncode

definition conn_Notify :: "'v Registry \<Rightarrow> u32 \<Rightarrow> 'v payload \<Rightarrow> Connection \<Rightarrow> conn_error option \<times> Connection" where
  "conn_Notify cs methodID p c =
     (if cn_state c \<noteq> ConnectionReady then (Some ConnNotReady, c)
      else if methodID \<le> SystemMethodKick then (Some (ReservedMethod methodID), c)
      else
        (let codec = reg_Default cs in
         case reg_Marshal cs codec p of
           Inl e \<Rightarrow> (Some (BodyEncode e), c)
         | Inr body \<Rightarrow>
             (case conn_send (notifyPacket methodID body codec) c of
                (True, c) \<Rightarrow> (None, c)
              | (False, c) \<Rightarrow> (Some WriteQueueFull, c))))"

text \<open>One turn of the writer: encode the next packet and write it; \<open>io\<close> is what the socket answers.\<close>

definition write_turn :: "packet_wire \<Rightarrow> string option \<Rightarrow> Connection \<Rightarrow> Connection" where
  "write_turn w io c =
     (if cn_done c then c
      else case cn_writeCh c of
        [] \<Rightarrow> c
      | p # rest \<Rightarrow>
          (let c = c\<lparr>cn_writeCh := rest\<rparr> in
           case codec_Encode w (NewPacketCodec (opt_Limits (cn_options c))) p of
             Inl _ \<Rightarrow> conn_Close c
           | Inr data \<Rightarrow>
               (case io of
                  None \<Rightarrow> c\<lparr>cn_wire := cn_wire c @ [p]\<rparr>
                | Some _ \<Rightarrow> conn_Close c)))"

text \<open>
  \<open>Kick\<close> and \<open>GoAway\<close> up to their wait for the acknowledgement of the writer; they end with \<open>Close\<close>,
  whatever the wait answers.
\<close>

definition Kick_begin ::
  "control_wire \<Rightarrow> int \<Rightarrow> string \<Rightarrow> bool \<Rightarrow> Connection \<Rightarrow> conn_error option \<times> Connection" where
  "Kick_begin cw reasonCode reason reconnectable c =
     (if cn_state c = ConnectionClosed then (Some ConnIsClosed, c)
      else
        (let c = c\<lparr>cn_state := ConnectionDraining\<rparr> in
         case m_Kick cw reasonCode reason reconnectable of
           None \<Rightarrow> (Some ControlEncode, c)
         | Some body \<Rightarrow>
             (case enqueue (notifyPacket SystemMethodKick body CodecProtobuf) c of
                (True, c) \<Rightarrow> (None, c)
              | (False, c) \<Rightarrow> (Some WriteQueueFull, c))))"

definition GoAway_begin :: "control_wire \<Rightarrow> int \<Rightarrow> int \<Rightarrow> Connection \<Rightarrow> conn_error option \<times> Connection" where
  "GoAway_begin cw reasonCode retryAfter c =
     (if cn_state c = ConnectionClosed then (None, c)
      else
        (let c = c\<lparr>cn_state := ConnectionDraining\<rparr> in
         case m_GoAway cw reasonCode (word_of_int (retryAfter div 1000000)) of
           None \<Rightarrow> (Some ControlEncode, c)
         | Some body \<Rightarrow>
             (case enqueue (notifyPacket SystemMethodGoAway body CodecProtobuf) c of
                (True, c) \<Rightarrow> (None, c)
              | (False, c) \<Rightarrow> (Some WriteQueueFull, c))))"

section \<open>Runs of a connection\<close>

text \<open>
  The goroutines of one connection interleave: the reader, the request handlers, the writer, and calls
  of the application. \<open>MaxInflight\<close> and the other options never change.
\<close>

inductive cstep :: "'v Registry \<Rightarrow> Connection \<Rightarrow> Connection \<Rightarrow> bool" for cs :: "'v Registry" where
  read_step: "\<not> cn_done c \<Longrightarrow> cstep cs c (run_turn w cw now inp c)"
| finish_step: "cstep cs c (finish_request cs h result c)"
| write_step: "cstep cs c (write_turn w io c)"
| notify_step: "cstep cs c (snd (conn_Notify cs m p c))"
| kick_step: "cstep cs c (snd (Kick_begin cw code reason again c))"
| goaway_step: "cstep cs c (snd (GoAway_begin cw code retry c))"
| close_step: "cstep cs c (conn_Close c)"
| bind_step: "cstep cs c (conn_bind uid data c)"

inductive creach :: "'v Registry \<Rightarrow> Options \<Rightarrow> string \<Rightarrow> Connection \<Rightarrow> bool"
  for cs :: "'v Registry" and opts :: Options and i :: string where
  creach_init: "creach cs opts i (newConnection i ip opts)"
| creach_step: "creach cs opts i c \<Longrightarrow> cstep cs c c' \<Longrightarrow> creach cs opts i c'"

text \<open>The ranks of the lifecycle.\<close>

fun rank :: "ConnectionState \<Rightarrow> nat" where
  "rank ConnectionHandshaking = 1"
| "rank ConnectionReady = 2"
| "rank ConnectionDraining = 3"
| "rank ConnectionClosed = 4"

definition call_ok :: "Options \<Rightarrow> string \<Rightarrow> dispatch_call \<Rightarrow> bool" where
  "call_ok opts i d \<longleftrightarrow> dc_method d > SystemMethodKick \<and> dc_type d \<in> {REQUEST, NOTIFY} \<and>
     Codec (dc_ctx d) \<in> {CodecProtobuf, CodecJSON} \<and> Transport (dc_ctx d) = TransportAGP \<and>
     (\<exists>d'. rc_Deadline (dc_ctx d) = Some d') \<and> (\<exists>s. rc_Session (dc_ctx d) = Some s \<and> Sid s = i)"

text \<open>The request number of a running handler.\<close>

definition hid :: "Connection \<Rightarrow> nat \<Rightarrow> u32 option" where
  "hid c h = map_option rh_RequestId (map_of (cn_handlers c) h)"

definition paired :: "bool \<Rightarrow> (u32 \<Rightarrow> nat option) \<Rightarrow> (nat \<Rightarrow> u32 option) \<Rightarrow> bool" where
  "paired open I H \<longleftrightarrow>
     (\<forall>rid h. I rid = Some h \<longrightarrow> H h = Some rid) \<and> (open \<longrightarrow> (\<forall>h rid. H h = Some rid \<longrightarrow> I rid = Some h))"

definition flight_ok :: "Connection \<Rightarrow> bool" where
  "flight_ok c \<longleftrightarrow>
     distinct (map fst (cn_inflight c)) \<and> distinct (map fst (cn_handlers c)) \<and>
     (\<forall>h \<in> mkeys (cn_handlers c). h < cn_nexth c) \<and>
     paired (\<not> cn_done c) (map_of (cn_inflight c)) (hid c)"

lemma pairedD:
  "paired b I H \<Longrightarrow> I rid = Some h \<Longrightarrow> H h = Some rid"
  "paired b I H \<Longrightarrow> b \<Longrightarrow> H h = Some rid \<Longrightarrow> I rid = Some h"
  unfolding paired_def by blast+

lemma paired_add:
  assumes P: "paired b I H" and "I rid = None" "H h = None"
  shows "paired b (I(rid \<mapsto> h)) (H(h \<mapsto> rid))"
  unfolding paired_def
proof (intro conjI allI impI)
  fix r k assume "(I(rid \<mapsto> h)) r = Some k"
  then show "(H(h \<mapsto> rid)) k = Some r"
    using pairedD(1) [OF P, of r k] assms by (cases "r = rid"; cases "k = h") simp_all
next
  fix k r assume "b" "(H(h \<mapsto> rid)) k = Some r"
  then show "(I(rid \<mapsto> h)) r = Some k"
    using pairedD(2) [OF P, of k r] assms by (cases "r = rid"; cases "k = h") simp_all
qed

lemma paired_remove:
  assumes P: "paired b I H" and h: "H h = Some rid" and "b \<or> I = Map.empty"
  shows "paired b (I(rid := None)) (H(h := None))"
  unfolding paired_def
proof (intro conjI allI impI)
  fix r k assume "(I(rid := None)) r = Some k"
  then show "(H(h := None)) k = Some r"
    using pairedD(1) [OF P, of r k] h by (cases "r = rid"; cases "k = h") simp_all
next
  fix k r assume b "(H(h := None)) k = Some r"
  then show "(I(rid := None)) r = Some k"
    using pairedD(2) [OF P, of k r] pairedD(2) [OF P, of h rid] h by (cases "r = rid"; cases "k = h") simp_all
qed

lemma paired_close: "paired b I H \<Longrightarrow> paired False Map.empty H"
  unfolding paired_def by auto

definition conn_inv :: "Options \<Rightarrow> string \<Rightarrow> Connection \<Rightarrow> bool" where
  "conn_inv opts i c \<longleftrightarrow>
     cn_options c = opts \<and> cn_id c = i \<and> Sid (cn_session c) = i \<and>
     (0 \<le> MaxInflight opts \<longrightarrow> int (length (cn_inflight c)) \<le> MaxInflight opts) \<and>
     (0 \<le> WriteQueueSize opts \<longrightarrow> int (length (cn_writeCh c)) \<le> WriteQueueSize opts) \<and>
     flight_ok c \<and>
     (\<forall>d \<in> set (cn_calls c). call_ok opts i d) \<and>
     (cn_state c = ConnectionHandshaking \<longrightarrow>
        cn_calls c = [] \<and> cn_wire c = [] \<and> cn_writeCh c = [] \<and> cn_handlers c = []) \<and>
     (cn_done c \<longrightarrow> cn_state c = ConnectionClosed \<and> cn_inflight c = []) \<and>
     (cn_state c = ConnectionClosed \<longrightarrow> cn_done c)"

lemma cancel_handler_fields [simp]:
  "cn_options (cancel_handler h c) = cn_options c" "cn_id (cancel_handler h c) = cn_id c"
  "cn_session (cancel_handler h c) = cn_session c" "cn_state (cancel_handler h c) = cn_state c"
  "cn_writeCh (cancel_handler h c) = cn_writeCh c" "cn_done (cancel_handler h c) = cn_done c"
  "cn_inflight (cancel_handler h c) = cn_inflight c" "cn_nexth (cancel_handler h c) = cn_nexth c"
  "cn_calls (cancel_handler h c) = cn_calls c" "cn_wire (cancel_handler h c) = cn_wire c"
  "map fst (cn_handlers (cancel_handler h c)) = map fst (cn_handlers c)"
  by (auto simp: cancel_handler_def)

lemma cancel_handler_map:
  "map_of (cn_handlers (cancel_handler h c)) k = map_option (\<lambda>r. if k = h
     then r\<lparr>rh_ctx := (rh_ctx r)\<lparr>Context := map_option cancel_ctx (Context (rh_ctx r))\<rparr>\<rparr> else r)
     (map_of (cn_handlers c) k)"
proof -
  have "map_of (map (\<lambda>(k, r). if k = h then (k, f r) else (k, r)) hs) k =
    map_option (\<lambda>r. if k = h then f r else r) (map_of hs k)" for f hs
    by (induction hs) auto
  then show ?thesis by (simp add: cancel_handler_def)
qed

lemma hid_cancel [simp]: "hid (cancel_handler h c) k = hid c k"
  by (cases "map_of (cn_handlers c) k") (auto simp: hid_def cancel_handler_map)

lemma flight_ok_same:
  assumes "flight_ok c" "cn_inflight c' = cn_inflight c" "map fst (cn_handlers c') = map fst (cn_handlers c)"
    "hid c' = hid c" "cn_nexth c' = cn_nexth c" "cn_done c' = cn_done c"
  shows "flight_ok c'"
proof -
  have "mkeys (cn_handlers c') = mkeys (cn_handlers c)" using assms(3) by (metis set_map)
  with assms(1) show ?thesis unfolding flight_ok_def assms(2-6) by simp
qed

lemma flight_ok_eq:
  assumes "flight_ok c" "cn_inflight c' = cn_inflight c" "cn_handlers c' = cn_handlers c"
    "cn_nexth c' = cn_nexth c" "cn_done c' = cn_done c"
  shows "flight_ok c'"
  by (rule flight_ok_same [OF assms(1)]) (simp_all add: assms hid_def fun_eq_iff)

lemma cancel_handler_Nil [simp]: "cn_handlers (cancel_handler h c) = [] \<longleftrightarrow> cn_handlers c = []"
  by (simp add: cancel_handler_def)

lemma flight_ok_cancel: "flight_ok c \<Longrightarrow> flight_ok (cancel_handler h c)"
  by (rule flight_ok_same) (simp_all add: fun_eq_iff)

lemma conn_inv_cancel: "conn_inv opts i c \<Longrightarrow> conn_inv opts i (cancel_handler h c)"
  unfolding conn_inv_def by (auto intro: flight_ok_cancel)

lemma fold_cancel_fields:
  fixes hs :: "(u32 \<times> nat) list"
  shows "cn_options (fold (\<lambda>(_, h). cancel_handler h) hs c) = cn_options c \<and>
   cn_id (fold (\<lambda>(_, h). cancel_handler h) hs c) = cn_id c \<and>
   cn_session (fold (\<lambda>(_, h). cancel_handler h) hs c) = cn_session c \<and>
   cn_state (fold (\<lambda>(_, h). cancel_handler h) hs c) = cn_state c \<and>
   cn_writeCh (fold (\<lambda>(_, h). cancel_handler h) hs c) = cn_writeCh c \<and>
   cn_calls (fold (\<lambda>(_, h). cancel_handler h) hs c) = cn_calls c \<and>
   cn_wire (fold (\<lambda>(_, h). cancel_handler h) hs c) = cn_wire c \<and>
   cn_nexth (fold (\<lambda>(_, h). cancel_handler h) hs c) = cn_nexth c \<and>
   map fst (cn_handlers (fold (\<lambda>(_, h). cancel_handler h) hs c)) = map fst (cn_handlers c)"
proof (induction hs arbitrary: c)
  case (Cons a hs)
  then show ?case by (cases a) (simp only: fold_simps prod.case comp_apply Cons.IH cancel_handler_fields simp_thms)
qed simp

lemma fold_cancel_hid:
  fixes hs :: "(u32 \<times> nat) list"
  shows "map_option rh_RequestId (map_of (cn_handlers (fold (\<lambda>(_, h). cancel_handler h) hs c)) k) =
    map_option rh_RequestId (map_of (cn_handlers c) k)"
proof (induction hs arbitrary: c)
  case (Cons a hs)
  with hid_cancel [of "snd a" c k] show ?case by (simp add: hid_def split_beta)
qed simp

lemma conn_Close_fields [simp]:
  "cn_options (conn_Close c) = cn_options c" "cn_id (conn_Close c) = cn_id c"
  "cn_session (conn_Close c) = cn_session c" "cn_writeCh (conn_Close c) = cn_writeCh c"
  "cn_calls (conn_Close c) = cn_calls c" "cn_wire (conn_Close c) = cn_wire c"
  "cn_nexth (conn_Close c) = cn_nexth c" "map fst (cn_handlers (conn_Close c)) = map fst (cn_handlers c)"
  "cn_done (conn_Close c)" "\<not> cn_done c \<Longrightarrow> cn_state (conn_Close c) = ConnectionClosed"
  "\<not> cn_done c \<Longrightarrow> cn_inflight (conn_Close c) = []"
  "cn_done c \<Longrightarrow> conn_Close c = c"
  using fold_cancel_fields [of "cn_inflight c" "c\<lparr>cn_state := ConnectionClosed\<rparr>"]
  by (simp_all add: conn_Close_def)

lemma conn_inv_Close:
  assumes "conn_inv opts i c"
  shows "conn_inv opts i (conn_Close c)"
proof (cases "cn_done c")
  case False
  have "hid (conn_Close c) = hid c"
    using False fold_cancel_hid by (simp add: conn_Close_def hid_def fun_eq_iff)
  moreover have "mkeys (cn_handlers (conn_Close c)) = mkeys (cn_handlers c)"
    by (metis set_map conn_Close_fields(8))
  moreover have "paired False Map.empty (hid c)"
    using assms paired_close unfolding conn_inv_def flight_ok_def by blast
  ultimately have "flight_ok (conn_Close c)"
    using assms False unfolding conn_inv_def flight_ok_def by simp
  with assms False show ?thesis unfolding conn_inv_def by simp
qed (use assms in simp)

lemma enqueue_inv:
  assumes "conn_inv opts i c" "cn_state c \<noteq> ConnectionHandshaking" "enqueue p c = (b, c')"
  shows "conn_inv opts i c'"
proof -
  have "flight_ok c'"
    by (rule flight_ok_same [of c])
       (use assms in \<open>auto simp: enqueue_def conn_inv_def hid_def fun_eq_iff split: if_splits\<close>)
  with assms show ?thesis by (auto simp: enqueue_def conn_inv_def split: if_splits)
qed

lemma requestContext_ok:
  "Codec (requestContext now p r t c) = pk_Codec p" "Transport (requestContext now p r t c) = TransportAGP"
  "RequestID (requestContext now p r t c) = r" "rc_Session (requestContext now p r t c) = Some (cn_session c)"
  "\<exists>d. rc_Deadline (requestContext now p r t c) = Some d"
  by (simp_all add: requestContext_def Let_def conn_Session_def NewRequestContext_def rc_Deadline_def
      WithTimeout_def WithDeadline_def Background_def)

lemma start_request_inv:
  assumes I: "conn_inv opts i c" and st: "cn_state c = ConnectionReady" and m: "rq_MethodId r > SystemMethodKick"
    and cd: "pk_Codec p \<in> {CodecProtobuf, CodecJSON}" and s: "start_request now p r c = (b, c')"
  shows "conn_inv opts i c'"
proof (cases b)
  case False
  with s have "c' = c" by (auto simp: start_request_def Let_def reserve_def split: if_splits)
  with I show ?thesis by simp
next
  case True
  let ?ctx = "requestContext now p (rq_RequestId r) (rq_TimeoutMs r) c" and ?h = "cn_nexth c"
  let ?rh = "\<lparr>rh_RequestId = rq_RequestId r, rh_Codec = pk_Codec p, rh_ctx = ?ctx\<rparr>"
  from True s have free: "map_of (cn_inflight c) (rq_RequestId r) = None"
    and room: "int (length (cn_inflight c)) < MaxInflight (cn_options c)"
    and c': "c' = c\<lparr>cn_inflight := AList.update (rq_RequestId r) ?h (cn_inflight c), cn_nexth := Suc ?h,
      cn_handlers := AList.update ?h ?rh (cn_handlers c),
      cn_calls := cn_calls c @ [\<lparr>dc_ctx = ?ctx, dc_method = rq_MethodId r, dc_body = rq_Body r, dc_type = REQUEST\<rparr>]\<rparr>"
    by (auto simp: start_request_def Let_def reserve_def split: if_splits)
  have F: "flight_ok c" and nd: "\<not> cn_done c" using I st by (auto simp: conn_inv_def)
  have newh: "map_of (cn_handlers c) ?h = None"
    using F by (auto simp: flight_ok_def map_of_eq_None_iff)
  have "hid c' = (hid c)(?h \<mapsto> rq_RequestId r)" "map_of (cn_inflight c') = (map_of (cn_inflight c))(rq_RequestId r \<mapsto> ?h)"
    by (auto simp: c' hid_def update_conv' fun_eq_iff)
  moreover have "paired True (map_of (cn_inflight c)) (hid c)" using F nd by (simp add: flight_ok_def)
  from paired_add [OF this free, of ?h] newh
  have "paired True ((map_of (cn_inflight c))(rq_RequestId r \<mapsto> ?h)) ((hid c)(?h \<mapsto> rq_RequestId r))"
    by (simp add: hid_def)
  ultimately have "flight_ok c'"
    using F nd by (auto simp: flight_ok_def c' distinct_keys_update less_SucI)
  moreover have "call_ok opts i \<lparr>dc_ctx = ?ctx, dc_method = rq_MethodId r, dc_body = rq_Body r, dc_type = REQUEST\<rparr>"
    using I m cd by (simp add: call_ok_def requestContext_ok conn_inv_def)
  moreover have "length (AList.update (rq_RequestId r) ?h (cn_inflight c)) = Suc (length (cn_inflight c))"
    using free by (simp add: length_update_new map_of_eq_None_iff)
  ultimately show ?thesis using I st room unfolding c' conn_inv_def by auto
qed

lemma handleHandshake_inv:
  assumes I: "conn_inv opts i c" and st: "cn_state c = ConnectionHandshaking"
    and H: "handleHandshake cw now r c = (b, c')"
  shows "conn_inv opts i c'"
proof -
  have "conn_inv opts i (c\<lparr>cn_state := ConnectionReady\<rparr>)" (is "conn_inv _ _ ?c1")
    using I st flight_ok_same [of c ?c1] by (simp add: conn_inv_def hid_def fun_eq_iff)
  then have "conn_inv opts i (?c1\<lparr>cn_readDeadline := d\<rparr>)" for d
    using flight_ok_same [of ?c1 "?c1\<lparr>cn_readDeadline := d\<rparr>"] by (simp add: conn_inv_def hid_def fun_eq_iff)
  then have "conn_inv opts i c'" if "enqueue p (?c1\<lparr>cn_readDeadline := d\<rparr>) = (b, c')" for p d
    by (rule enqueue_inv [OF _ _ that]) simp
  moreover have "conn_inv opts i c'" if "enqueue p ?c1 = (b, c')" for p
    by (rule enqueue_inv [OF \<open>conn_inv opts i ?c1\<close> _ that]) simp
  ultimately show ?thesis
    using I H by (auto simp: handleHandshake_def conn_send_def Let_def split: option.splits if_splits)
qed

lemma handleHeartbeat_inv:
  assumes "conn_inv opts i c" "cn_state c \<noteq> ConnectionHandshaking"
  shows "conn_inv opts i (handleHeartbeat cw now r c)"
  using assms enqueue_inv [OF assms] conn_inv_Close
  by (auto simp: handleHeartbeat_def conn_send_def split: option.splits prod.splits bool.splits)

lemma conn_inv_update:
  assumes "conn_inv opts i c" "cn_inflight c' = cn_inflight c" "cn_handlers c' = cn_handlers c"
    "cn_nexth c' = cn_nexth c" "cn_done c' = cn_done c" "cn_options c' = cn_options c" "cn_id c' = cn_id c"
    "Sid (cn_session c') = Sid (cn_session c)" "cn_writeCh c' = cn_writeCh c" "cn_state c' = cn_state c"
    "cn_wire c' = cn_wire c" "cn_state c = ConnectionHandshaking \<Longrightarrow> cn_calls c' = cn_calls c"
    "\<forall>d \<in> set (cn_calls c'). d \<in> set (cn_calls c) \<or> call_ok opts i d"
  shows "conn_inv opts i c'"
proof -
  have "flight_ok c'" by (rule flight_ok_same [of c]) (use assms in \<open>auto simp: conn_inv_def hid_def fun_eq_iff\<close>)
  moreover have "\<forall>d \<in> set (cn_calls c'). call_ok opts i d" using assms by (auto simp: conn_inv_def)
  ultimately show ?thesis using assms unfolding conn_inv_def by auto
qed

lemma process_inv:
  assumes I: "conn_inv opts i c" and v: "pk_Codec p \<in> {CodecProtobuf, CodecJSON}"
    and P: "process cw now p c = (b, c')"
  shows "conn_inv opts i c'"
proof -
  have ntf: "conn_inv opts i (handleNotify now p n c)"
    if "cn_state c = ConnectionReady" "nt_MethodId n > SystemMethodKick" for n
    by (rule conn_inv_update [OF I])
       (use that I v in \<open>auto simp: handleNotify_def call_ok_def requestContext_ok conn_inv_def\<close>)
  have can: "conn_inv opts i c'" if "handleCancel cw body c = (b, c')" for body
    using that I conn_inv_cancel by (auto simp: handleCancel_def split: option.splits if_splits)
  show ?thesis
    using P I ntf can handleHandshake_inv [OF I] handleHeartbeat_inv [OF I] start_request_inv [OF I _ _ v]
    by (auto simp: process_def not_le split: option.splits kind.splits if_splits)
qed

lemma run_turn_inv:
  assumes I: "conn_inv opts i c"
  shows "conn_inv opts i (run_turn w cw now input c)"
proof -
  have rd: "conn_inv opts i (c\<lparr>cn_readDeadline := d\<rparr>)" for d
    by (rule conn_inv_update [OF I]) auto
  have "conn_inv opts i (case process cw now p k of (True, c) \<Rightarrow> c | (False, c) \<Rightarrow> conn_Close c)"
    if k: "conn_inv opts i k" and d: "codec_Decode w l data = Inr p" for p k l data
  proof -
    have "pk_Codec p \<in> {CodecProtobuf, CodecJSON}"
      using d by (auto simp: codec_Decode_def ValidatePacket_def Let_def split: if_splits sum.splits option.splits)
    moreover obtain b k' where "process cw now p k = (b, k')" by force
    ultimately show ?thesis using process_inv [OF k] conn_inv_Close by (auto split: bool.splits)
  qed
  with I rd conn_inv_Close [OF I] show ?thesis
    unfolding run_turn_def Let_def by (auto split: sum.splits)
qed

lemma Close_handlers_Nil: "cn_handlers (conn_Close c) = [] \<longleftrightarrow> cn_handlers c = []"
  by (metis conn_Close_fields(8) map_is_Nil_conv)

lemma hid_Close: "hid (conn_Close c) = hid c"
  using fold_cancel_hid by (simp add: conn_Close_def hid_def fun_eq_iff)

lemma conn_inv_finished:
  assumes I: "conn_inv opts i c" and h: "hid c h = Some rid"
  shows "conn_inv opts i (release rid (c\<lparr>cn_handlers := AList.delete h (cn_handlers c)\<rparr>))" (is "conn_inv _ _ ?c")
proof -
  have hn: "hid ?c = (hid c)(h := None)" "map_of (cn_inflight ?c) = (map_of (cn_inflight c))(rid := None)"
    by (auto simp: release_def hid_def delete_conv' fun_eq_iff)
  have "\<not> cn_done c \<or> map_of (cn_inflight c) = Map.empty" using I by (auto simp: conn_inv_def)
  then have "paired (\<not> cn_done ?c) (map_of (cn_inflight ?c)) (hid ?c)"
    unfolding hn using I h by (intro paired_remove) (auto simp: release_def conn_inv_def flight_ok_def)
  then have "flight_ok ?c"
    using I by (auto simp: flight_ok_def conn_inv_def release_def distinct_keys_delete)
  moreover have "int (length (AList.delete rid (cn_inflight c))) \<le> int (length (cn_inflight c))"
    by (simp add: length_delete_le)
  ultimately show ?thesis
    using I unfolding conn_inv_def by (auto simp: release_def)
qed

lemma finish_request_inv:
  assumes I: "conn_inv opts i c"
  shows "conn_inv opts i (finish_request cs h result c)"
proof (cases "map_of (cn_handlers c) h")
  case (Some r)
  obtain res body where rb: "response_body cs (Codec (rh_ctx r)) result = (res, body)" by force
  let ?p = "responsePacket (rh_RequestId r) (rh_Codec r) res body"
  have st: "cn_state c \<noteq> ConnectionHandshaking" using I Some by (auto simp: conn_inv_def)
  obtain b c1 where e: "enqueue ?p c = (b, c1)" by force
  then have h1: "hid c1 = hid c" and I1: "conn_inv opts i c1"
    using enqueue_inv [OF I st e] by (auto simp: enqueue_def hid_def split: if_splits)
  let ?c2 = "if b then c1 else conn_Close c1"
  have I2: "conn_inv opts i ?c2" using I1 conn_inv_Close by simp
  have "hid c h = Some (rh_RequestId r)" using Some by (simp add: hid_def)
  then have h2: "hid ?c2 h = Some (rh_RequestId r)" using h1 hid_Close [of c1] by simp
  have "finish_request cs h result c = release (rh_RequestId r) (?c2\<lparr>cn_handlers := AList.delete h (cn_handlers ?c2)\<rparr>)"
    using Some rb e by (simp add: finish_request_def conn_send_def Let_def split: bool.splits)
  with conn_inv_finished [OF I2 h2] show ?thesis by simp
qed (use I in \<open>simp add: finish_request_def\<close>)

lemma write_turn_inv:
  assumes I: "conn_inv opts i c"
  shows "conn_inv opts i (write_turn w io c)"
proof (cases "cn_done c \<or> cn_writeCh c = []")
  case False
  then obtain p rest where p: "cn_writeCh c = p # rest" by (cases "cn_writeCh c") auto
  let ?c = "c\<lparr>cn_writeCh := rest\<rparr>"
  have "flight_ok ?c" "flight_ok (?c\<lparr>cn_wire := ws\<rparr>)" for ws
    using I by (auto simp: conn_inv_def intro!: flight_ok_eq [of c])
  then have "conn_inv opts i ?c" "conn_inv opts i (?c\<lparr>cn_wire := ws\<rparr>)" for ws
    using I p unfolding conn_inv_def by auto
  with False p conn_inv_Close show ?thesis
    by (auto simp: write_turn_def Let_def split: sum.splits option.splits)
qed (use I in \<open>auto simp: write_turn_def split: list.splits\<close>)

lemma drain_inv:
  assumes I: "conn_inv opts i c" and st: "cn_state c \<noteq> ConnectionClosed"
  shows "conn_inv opts i (c\<lparr>cn_state := ConnectionDraining\<rparr>)"
proof -
  have "flight_ok (c\<lparr>cn_state := ConnectionDraining\<rparr>)"
    by (rule flight_ok_eq [of c]) (use I in \<open>simp_all add: conn_inv_def\<close>)
  with I st show ?thesis unfolding conn_inv_def by auto
qed

lemma drain_enqueue_inv:
  "conn_inv opts i c \<Longrightarrow> cn_state c \<noteq> ConnectionClosed \<Longrightarrow>
   enqueue p (c\<lparr>cn_state := ConnectionDraining\<rparr>) = (b, c') \<Longrightarrow> conn_inv opts i c'"
  by (rule enqueue_inv [OF drain_inv]) simp_all

lemma Kick_inv:
  assumes "conn_inv opts i c"
  shows "conn_inv opts i (snd (Kick_begin cw code reason again c))"
  using assms drain_inv [OF assms] drain_enqueue_inv [OF assms]
  by (auto simp: Kick_begin_def Let_def split: option.splits prod.splits bool.splits)

lemma GoAway_inv:
  assumes "conn_inv opts i c"
  shows "conn_inv opts i (snd (GoAway_begin cw code retry c))"
  using assms drain_inv [OF assms] drain_enqueue_inv [OF assms]
  by (auto simp: GoAway_begin_def Let_def split: option.splits prod.splits bool.splits)

lemma Notify_inv:
  assumes "conn_inv opts i c"
  shows "conn_inv opts i (snd (conn_Notify cs m p c))"
  using assms enqueue_inv [OF assms]
  by (auto simp: conn_Notify_def conn_send_def Let_def split: sum.splits prod.splits bool.splits)

lemma bind_inv: "conn_inv opts i c \<Longrightarrow> conn_inv opts i (conn_bind uid data c)"
  by (rule conn_inv_update) (auto simp: conn_bind_def)

lemma cstep_inv: "cstep cs c c' \<Longrightarrow> conn_inv opts i c \<Longrightarrow> conn_inv opts i c'"
  by (induction rule: cstep.induct)
     (auto intro: run_turn_inv finish_request_inv write_turn_inv Notify_inv Kick_inv GoAway_inv conn_inv_Close bind_inv)

lemma creach_inv:
  assumes "creach cs opts i c"
  shows "conn_inv opts i c"
  using assms
proof (induction rule: creach.induct)
  case (creach_init ip)
  show ?case
    by (auto simp: conn_inv_def flight_ok_def paired_def hid_def newConnection_def)
qed (rule cstep_inv)

section \<open>Properties of a connection\<close>

text \<open>A concrete client that shakes hands and calls method 10 with request number 7.\<close>

definition demo_control :: control_wire where
  "demo_control = \<lparr>un_Handshake = (\<lambda>b. if b = [8, 1] then Some [1] else None), m_Handshake = (\<lambda>_. Some [1]),
     un_Heartbeat = (\<lambda>_. Some 0), m_Heartbeat = (\<lambda>_ _. Some [2]), un_Cancel = (\<lambda>_. Some 7),
     m_Kick = (\<lambda>_ _ _. Some [3]), m_GoAway = (\<lambda>_ _. Some [4])\<rparr>"

definition hello :: Packet where
  "hello = \<lparr>Kind = Some (Packet_Request (Some \<lparr>rq_RequestId = 1, rq_MethodId = 1, rq_TimeoutMs = 0, rq_Body = [8, 1]\<rparr>)),
     pk_Metadata = [], pk_Codec = 1\<rparr>"

definition ask :: Packet where
  "ask = \<lparr>Kind = Some (Packet_Request (Some \<lparr>rq_RequestId = 7, rq_MethodId = 10, rq_TimeoutMs = 5, rq_Body = []\<rparr>)),
     pk_Metadata = [], pk_Codec = 1\<rparr>"

definition demo_wire :: packet_wire where
  "demo_wire = \<lparr>wire_Marshal = (\<lambda>_. Inr [9]),
     wire_Unmarshal = (\<lambda>b. if b = [1] then Inr hello else if b = [2] then Inr ask else Inl ''unknown'')\<rparr>"

definition demo_conn :: Connection where
  "demo_conn = newConnection ''c1'' ''127.0.0.1'' (component_options [])"

definition demo_ready_conn :: Connection where
  "demo_ready_conn = run_turn demo_wire demo_control 0 (Inr [1]) demo_conn"

definition demo_asked :: Connection where
  "demo_asked = run_turn demo_wire demo_control 0 (Inr [2]) demo_ready_conn"

lemma demo_asked_reach: "creach (app_registry identity_codecs) (component_options []) ''c1'' demo_asked"
proof -
  let ?R = "creach (app_registry identity_codecs) (component_options []) ''c1''"
  have d: "\<not> cn_done demo_conn" "\<not> cn_done demo_ready_conn" by code_simp+
  have "?R demo_conn" unfolding demo_conn_def by (rule creach_init)
  then have "?R demo_ready_conn" unfolding demo_ready_conn_def by (rule creach_step [OF _ read_step [OF d(1)]])
  then show ?thesis unfolding demo_asked_def by (rule creach_step [OF _ read_step [OF d(2)]])
qed



lemma rank_bounds [simp]: "rank s \<le> 4" "Suc 0 \<le> rank s"
  by (cases s; simp)+

lemma rank_Close: "rank (cn_state c) \<le> rank (cn_state (conn_Close c))"
  by (cases "cn_done c"; cases "cn_state c") simp_all

lemma enqueue_state: "enqueue p c = (b, c') \<Longrightarrow> cn_state c' = cn_state c"
  by (auto simp: enqueue_def split: if_splits)

lemma rank_handlers:
  "rank (cn_state c) \<le> rank (cn_state (handleHeartbeat cw now r c))"
  "cn_state (handleNotify now p n c) = cn_state c"
  "handleCancel cw body c = (b, c') \<Longrightarrow> cn_state c' = cn_state c"
  "start_request now p q c = (b, c') \<Longrightarrow> cn_state c' = cn_state c"
proof -
  show "rank (cn_state c) \<le> rank (cn_state (handleHeartbeat cw now r c))"
    using rank_Close by (auto simp: handleHeartbeat_def conn_send_def enqueue_def split: option.splits)
  show "cn_state (handleNotify now p n c) = cn_state c" by (simp add: handleNotify_def)
  show "handleCancel cw body c = (b, c') \<Longrightarrow> cn_state c' = cn_state c"
    by (auto simp: handleCancel_def split: option.splits if_splits)
  show "start_request now p q c = (b, c') \<Longrightarrow> cn_state c' = cn_state c"
    by (auto simp: start_request_def Let_def reserve_def split: if_splits)
qed

lemma rank_process:
  assumes "process cw now p c = (b, c')"
  shows "rank (cn_state c) \<le> rank (cn_state c')"
  using assms rank_handlers(1) [of c cw now] rank_handlers(2-4)
  by (auto simp: process_def split: option.splits kind.splits if_splits)

lemma rank_cstep: "cstep cs c c' \<Longrightarrow> rank (cn_state c) \<le> rank (cn_state c')"
proof (induction rule: cstep.induct)
  case (read_step c w cw now inp)
  have "rank (cn_state k) \<le> rank (cn_state (case process cw now p k of (True, c) \<Rightarrow> c | (False, c) \<Rightarrow> conn_Close c))"
    for p k
  proof -
    obtain b k' where "process cw now p k = (b, k')" by force
    with rank_process [OF this] rank_Close [of k'] show ?thesis by (cases b) auto
  qed
  from this [of c] this [of "c\<lparr>cn_readDeadline := d\<rparr>" for d] rank_Close [of c] show ?case
    by (auto simp: run_turn_def Let_def split: sum.splits)
next
  case (finish_step c h result)
  then show ?case
    using rank_Close [of c]
    by (auto simp: finish_request_def conn_send_def enqueue_def release_def Let_def
        split: option.splits prod.splits)
next
  case (write_step c w io)
  then show ?case
    using rank_Close [of "c\<lparr>cn_writeCh := r\<rparr>" for r]
    by (auto simp: write_turn_def Let_def split: list.splits sum.splits option.splits)
next
  case (kick_step c cw code reason again)
  then show ?case
    by (cases "cn_state c") (auto simp: Kick_begin_def enqueue_def Let_def split: option.splits)
next
  case (goaway_step c cw code retry)
  then show ?case
    by (cases "cn_state c") (auto simp: GoAway_begin_def enqueue_def Let_def split: option.splits)
next
  case (close_step c)
  then show ?case by (rule rank_Close)
qed (auto simp: conn_Notify_def conn_send_def enqueue_def conn_bind_def Let_def split: sum.splits)

lemma closed_stays:
  assumes "cstep cs c c'" and I: "conn_inv opts i c" and d: "cn_done c"
  shows "cn_done c' \<and> cn_wire c' = cn_wire c \<and> cn_writeCh c' = cn_writeCh c \<and> cn_calls c' = cn_calls c"
proof -
  have st: "cn_state c = ConnectionClosed" using I d by (simp add: conn_inv_def)
  from assms(1) show ?thesis
  proof cases
    case (finish_step h result)
    then show ?thesis
      using d by (auto simp: finish_request_def conn_send_def enqueue_def release_def Let_def split: option.splits prod.splits)
  next
    case (write_step w io)
    then show ?thesis using d by (simp add: write_turn_def)
  qed (use d st in \<open>auto simp: conn_Notify_def Kick_begin_def GoAway_begin_def conn_bind_def\<close>)
qed

text \<open>
  The lifecycle only moves forward, handshaking, ready, draining, closed, and a closed connection
  stays as it is: nothing more is queued, written or dispatched, and closing again changes nothing.
\<close>

theorem connection_lifecycle:
  assumes "creach (cs :: 'v Registry) opts i c" and "cstep cs c c'"
  shows "rank (cn_state c) \<le> rank (cn_state c') \<and>
    (cn_done c \<longrightarrow> cn_done c' \<and> cn_wire c' = cn_wire c \<and> cn_writeCh c' = cn_writeCh c \<and>
       cn_calls c' = cn_calls c \<and> conn_Close c = c)"
  using rank_cstep [OF assms(2)] closed_stays [OF assms(2) creach_inv [OF assms(1)]] by simp

theorem connection_lifecycle_witness:
  "let c = conn_Close demo_asked in
   creach (app_registry identity_codecs) (component_options []) ''c1'' c \<and> cn_done c \<and>
   cn_calls (snd (conn_Notify (app_registry identity_codecs) 20 (PBytes [1]) c)) = cn_calls c"
proof -
  let ?cs = "app_registry identity_codecs" and ?c = "conn_Close demo_asked"
  have r: "creach ?cs (component_options []) ''c1'' ?c"
    by (rule creach_step [OF demo_asked_reach close_step])
  from connection_lifecycle [OF r notify_step] r show ?thesis by (simp add: Let_def)
qed

section \<open>Requests, responses and the handshake\<close>

lemma response_body_result:
  "\<exists>res body. response_body cs k (Some r0) = (Some res, body) \<and>
     (Code r0 \<noteq> 0 \<longrightarrow> res = r0 \<and> body = []) \<and>
     (\<forall>b. Code r0 = 0 \<and> Payload r0 = PBytes b \<longrightarrow> res = r0 \<and> body = b)"
proof (cases "Payload r0")
  case (PVal t v)
  then show ?thesis by (cases "reg_Marshal cs k (PVal t v)") (simp_all add: response_body_def)
qed (simp_all add: response_body_def)



text \<open>
  The handshake gate. On a connection that is still handshaking, the next packet either is a valid
  handshake (a protobuf request for method 1 with a number, whose body decodes to a list of versions that
  contains version 1), and then the connection becomes ready with exactly the handshake response queued;
  or the connection is closed with nothing queued and nothing dispatched.
\<close>

theorem handshake_gate:
  fixes cs :: "'v Registry"
  assumes "creach cs opts i c" and "cn_state c = ConnectionHandshaking" and room: "0 < WriteQueueSize opts"
  shows "let c' = run_turn w cw now (Inr data) c in
    cn_calls c' = [] \<and>
    ((\<exists>p r vs body. codec_Decode w (NewPacketCodec (opt_Limits opts)) data = Inr p \<and>
        Kind p = Some (Packet_Request (Some r)) \<and> pk_Codec p = CodecProtobuf \<and> rq_MethodId r = SystemMethodHandshake \<and>
        rq_RequestId r \<noteq> 0 \<and> un_Handshake cw (rq_Body r) = Some vs \<and> 1 \<in> set vs \<and>
        cn_state c' = ConnectionReady \<and> \<not> cn_done c' \<and>
        cn_writeCh c' = [responsePacket (rq_RequestId r) CodecProtobuf (Some (OKResult PNil :: unit InvokeResult)) body])
     \<or> cn_done c' \<and> cn_writeCh c' = [])"
proof -
  have I: "conn_inv opts i c" using assms(1) by (rule creach_inv)
  have c: "cn_calls c = []" "cn_writeCh c = []" "cn_options c = opts" "\<not> cn_done c"
    using I assms(2) by (auto simp: conn_inv_def)
  show ?thesis
  proof (cases "codec_Decode w (NewPacketCodec (opt_Limits opts)) data")
    case (Inl e)
    with c show ?thesis by (simp add: run_turn_def Let_def)
  next
    case (Inr p)
    show ?thesis
    proof (cases "process cw now p c")
      case (Pair b c')
      have "(\<not> b \<and> c' = c) \<or> (\<exists>r vs body. Kind p = Some (Packet_Request (Some r)) \<and> pk_Codec p = CodecProtobuf \<and>
          rq_MethodId r = SystemMethodHandshake \<and> rq_RequestId r \<noteq> 0 \<and> un_Handshake cw (rq_Body r) = Some vs \<and>
          1 \<in> set vs \<and> b \<and> cn_state c' = ConnectionReady \<and> \<not> cn_done c' \<and> cn_calls c' = [] \<and>
          cn_writeCh c' = [responsePacket (rq_RequestId r) CodecProtobuf (Some (OKResult PNil :: unit InvokeResult)) body])"
        using Pair c assms(2) room
        by (auto simp: process_def handleHandshake_def conn_send_def enqueue_def Let_def
            split: option.splits kind.splits if_splits)
      with Inr Pair c assms(2) show ?thesis by (auto simp: run_turn_def Let_def)
    qed
  qed
qed

theorem handshake_gate_witness:
  "cn_state demo_conn = ConnectionHandshaking \<and>
   cn_calls (run_turn demo_wire demo_control 0 (Inr [2]) demo_conn) = [] \<and>
   cn_done (run_turn demo_wire demo_control 0 (Inr [2]) demo_conn)"
proof -
  have r: "creach (app_registry identity_codecs) (component_options []) ''c1'' demo_conn"
    unfolding demo_conn_def by (rule creach_init)
  have s: "cn_state demo_conn = ConnectionHandshaking" "0 < WriteQueueSize (component_options [])" by code_simp+
  have d: "cn_done (run_turn demo_wire demo_control 0 (Inr [2]) demo_conn)" by code_simp
  from handshake_gate [OF r s, of demo_wire demo_control 0 "[2]"] s d show ?thesis by (auto simp: Let_def)
qed

text \<open>
  Request deadlines. The deadline a request gets lies at most \<open>MaxRequestTimeout\<close> ahead, whatever
  32-bit timeout the client sent; a client timeout within the limit is honoured exactly; a client that
  sends none gets the limit.
\<close>

theorem request_deadline:
  assumes "0 < MaxRequestTimeout (cn_options c)"
  shows "\<exists>t. rc_Deadline (requestContext now p rid ms c) = Some (now + t) \<and> 0 < t \<and>
    t \<le> MaxRequestTimeout (cn_options c) \<and>
    (ms \<noteq> 0 \<and> uint ms * 1000000 \<le> MaxRequestTimeout (cn_options c) \<longrightarrow> t = uint ms * 1000000) \<and>
    (ms = 0 \<longrightarrow> t = MaxRequestTimeout (cn_options c))"
proof -
  have z: "uint ms = 0 \<longleftrightarrow> ms = 0" by (simp add: unsigned_eq_0_iff)
  have "0 \<le> uint ms" by simp
  then have p: "0 < uint ms \<longleftrightarrow> ms \<noteq> 0" using z by linarith
  show ?thesis
  proof (cases "ms = 0")
    case True
    with assms show ?thesis
      by (simp add: requestContext_def Let_def NewRequestContext_def rc_Deadline_def WithTimeout_def
          WithDeadline_def Background_def)
  next
    case False
    with z p have "uint ms \<noteq> 0" "0 < uint ms" by auto
    with False assms show ?thesis
      by (simp add: requestContext_def Let_def NewRequestContext_def rc_Deadline_def WithTimeout_def
          WithDeadline_def Background_def)
  qed
qed

theorem request_deadline_witness:
  "0 < MaxRequestTimeout (cn_options demo_conn) \<and> (\<exists>t. rc_Deadline (requestContext 0 ask 7 5 demo_conn) = Some t \<and> t = 5000000)"
proof -
  have o: "MaxRequestTimeout (cn_options demo_conn) = 30000000000" by code_simp
  from request_deadline [of demo_conn 0 ask 7 5] o show ?thesis by auto
qed

end
