(* ===== verification/Agp_Server.thy ===== *)
theory Agp_Server
  imports Agp_Connection
begin

text \<open>
  The AGP server: the connection manager (\<open>connection_manager.go\<close>), which indexes the live connections
  by id and by bound user, and the component (\<open>component.go\<close>) that accepts connections, pushes
  notifications, binds users and drains the connections on shutdown.

  A \<open>*Connection\<close> is its position in \<open>sv_heap\<close>, the list of all connections accepted so far. Each
  operation of the manager holds its lock throughout and is one step. \<open>Close\<close> of a connection removes it
  from the manager and starts its disconnect callback, once; \<open>on_conn\<close> adds both to any operation that
  closes a connection.
\<close>

section \<open>Connection manager\<close>

record Server =
  sv_options :: Options
  sv_accepting :: bool
  sv_heap :: "Connection list"
  mgr_connections :: "(string, nat) gomap"
  mgr_byUID :: "(int, string) gomap"
  sv_disconnects :: "nat list"

datatype server_error =
    ConnNotFound string | UidNotConnected int | UidNotPositive | UidTaken int | ConnFailure conn_error

definition NewConnectionManager :: "Options \<Rightarrow> Server" where
  "NewConnectionManager opts =
     \<lparr>sv_options = opts, sv_accepting = True, sv_heap = [], mgr_connections = [], mgr_byUID = [],
      sv_disconnects = []\<rparr>"

definition mgr_Add :: "nat \<Rightarrow> Server \<Rightarrow> Server" where
  "mgr_Add p m = m\<lparr>mgr_connections := AList.update (cn_id (sv_heap m ! p)) p (mgr_connections m)\<rparr>"

text \<open>\<open>m.byUID[uid]\<close>: the empty id when there is none.\<close>

definition uid_entry :: "int \<Rightarrow> Server \<Rightarrow> string" where
  "uid_entry uid m = (case map_of (mgr_byUID m) uid of None \<Rightarrow> [] | Some i \<Rightarrow> i)"

definition drop_uid :: "int \<Rightarrow> string \<Rightarrow> Server \<Rightarrow> Server" where
  "drop_uid uid i m =
     (if uid > 0 \<and> uid_entry uid m = i then m\<lparr>mgr_byUID := AList.delete uid (mgr_byUID m)\<rparr> else m)"

definition mgr_Remove :: "string \<Rightarrow> Server \<Rightarrow> Server" where
  "mgr_Remove i m =
     (let connection = map_of (mgr_connections m) i;
          m = m\<lparr>mgr_connections := AList.delete i (mgr_connections m)\<rparr>
      in case connection of None \<Rightarrow> m | Some p \<Rightarrow> drop_uid (conn_UID (sv_heap m ! p)) i m)"

definition mgr_Get :: "string \<Rightarrow> Server \<Rightarrow> nat option" where
  "mgr_Get i m = map_of (mgr_connections m) i"

definition mgr_GetUID :: "int \<Rightarrow> Server \<Rightarrow> nat option" where
  "mgr_GetUID uid m =
     (if map_of (mgr_byUID m) uid \<noteq> None then map_of (mgr_connections m) (uid_entry uid m) else None)"

definition mgr_Bind ::
  "string \<Rightarrow> int \<Rightarrow> (string, string) gomap option \<Rightarrow> Server \<Rightarrow> server_error option \<times> Server" where
  "mgr_Bind i uid data m =
     (if uid \<le> 0 then (Some UidNotPositive, m)
      else case map_of (mgr_connections m) i of
        None \<Rightarrow> (Some (ConnNotFound i), m)
      | Some p \<Rightarrow>
          (let existing = uid_entry uid m in
           if existing \<noteq> [] \<and> existing \<noteq> i then (Some (UidTaken uid), m)
           else
             (let m = drop_uid (conn_UID (sv_heap m ! p)) i m;
                  m = m\<lparr>sv_heap := (sv_heap m)[p := conn_bind uid data (sv_heap m ! p)]\<rparr>
              in (None, m\<lparr>mgr_byUID := AList.update uid i (mgr_byUID m)\<rparr>))))"

definition mgr_Count :: "Server \<Rightarrow> nat" where
  "mgr_Count m = length (mgr_connections m)"

definition Snapshot :: "Server \<Rightarrow> nat list" where
  "Snapshot m = map snd (mgr_connections m)"

fun range_loop :: "(nat \<Rightarrow> 's \<Rightarrow> bool \<times> 's) \<Rightarrow> nat list \<Rightarrow> 's \<Rightarrow> 's" where
  "range_loop f [] s = s"
| "range_loop f (p # ps) s = (case f p s of (True, s) \<Rightarrow> range_loop f ps s | (False, s) \<Rightarrow> s)"

definition mgr_Range :: "(nat \<Rightarrow> 's \<Rightarrow> bool \<times> 's) \<Rightarrow> Server \<Rightarrow> 's \<Rightarrow> 's" where
  "mgr_Range f m s = range_loop f (Snapshot m) s"

text \<open>An operation of a connection, with the effects of \<open>Close\<close> on the manager when it closes the connection.\<close>

definition on_conn :: "nat \<Rightarrow> (Connection \<Rightarrow> Connection) \<Rightarrow> Server \<Rightarrow> Server" where
  "on_conn p f m =
     (let c = sv_heap m ! p; c' = f c; m = m\<lparr>sv_heap := (sv_heap m)[p := c']\<rparr>
      in if \<not> cn_done c \<and> cn_done c'
         then (mgr_Remove (cn_id c) m)\<lparr>sv_disconnects := sv_disconnects m @ [p]\<rparr> else m)"

definition sv_Close :: "nat \<Rightarrow> Server \<Rightarrow> Server" where
  "sv_Close p = on_conn p conn_Close"

definition CloseAll :: "Server \<Rightarrow> Server" where
  "CloseAll m = mgr_Range (\<lambda>p m. (True, sv_Close p m)) m m"

section \<open>Component\<close>

text \<open>The name of the component; the options of \<open>New\<close> are \<open>component_options\<close>.\<close>

definition comp_Name :: "string \<Rightarrow> string" where
  "comp_Name name = ''agp_server_'' @ (if name = [] then ''default'' else name)"

definition comp_New :: "Opt list \<Rightarrow> Server" where
  "comp_New opts = NewConnectionManager (component_options opts)"

text \<open>\<open>HandleConn\<close>: the id is the next one of the id generator, the address that of the socket.\<close>

definition HandleConn :: "string \<Rightarrow> string \<Rightarrow> Server \<Rightarrow> Server" where
  "HandleConn i ip m =
     (let p = length (sv_heap m); m = m\<lparr>sv_heap := sv_heap m @ [newConnection i ip (sv_options m)]\<rparr>
      in mgr_Add p m)"

definition conn_Notify_at :: "'v Registry \<Rightarrow> u32 \<Rightarrow> 'v payload \<Rightarrow> nat \<Rightarrow> Server \<Rightarrow> conn_error option \<times> Server" where
  "conn_Notify_at cs methodID pl p m =
     (fst (conn_Notify cs methodID pl (sv_heap m ! p)), on_conn p (snd \<circ> conn_Notify cs methodID pl) m)"

definition comp_Notify ::
  "'v Registry \<Rightarrow> string \<Rightarrow> u32 \<Rightarrow> 'v payload \<Rightarrow> Server \<Rightarrow> server_error option \<times> Server" where
  "comp_Notify cs i methodID pl m =
     (case mgr_Get i m of
        None \<Rightarrow> (Some (ConnNotFound i), m)
      | Some p \<Rightarrow> apfst (map_option ConnFailure) (conn_Notify_at cs methodID pl p m))"

definition comp_Bind ::
  "string \<Rightarrow> int \<Rightarrow> (string, string) gomap option \<Rightarrow> Server \<Rightarrow> server_error option \<times> Server" where
  "comp_Bind i uid data m = mgr_Bind i uid data m"

definition NotifyUID ::
  "'v Registry \<Rightarrow> int \<Rightarrow> u32 \<Rightarrow> 'v payload \<Rightarrow> Server \<Rightarrow> server_error option \<times> Server" where
  "NotifyUID cs uid methodID pl m =
     (case mgr_GetUID uid m of
        None \<Rightarrow> (Some (UidNotConnected uid), m)
      | Some p \<Rightarrow> apfst (map_option ConnFailure) (conn_Notify_at cs methodID pl p m))"

text \<open>\<open>Broadcast\<close>: the failures joined, each with the id of its connection.\<close>

definition broadcast_one ::
  "'v Registry \<Rightarrow> u32 \<Rightarrow> 'v payload \<Rightarrow> nat \<Rightarrow> (string \<times> conn_error) list \<times> Server
     \<Rightarrow> bool \<times> (string \<times> conn_error) list \<times> Server" where
  "broadcast_one cs methodID pl p s =
     (case s of (failures, m) \<Rightarrow>
        case conn_Notify_at cs methodID pl p m of
          (None, m') \<Rightarrow> (True, failures, m')
        | (Some e, m') \<Rightarrow> (True, failures @ [(cn_id (sv_heap m ! p), e)], m'))"

definition Broadcast ::
  "'v Registry \<Rightarrow> u32 \<Rightarrow> 'v payload \<Rightarrow> Server \<Rightarrow> (string \<times> conn_error) list \<times> Server" where
  "Broadcast cs methodID pl m = mgr_Range (broadcast_one cs methodID pl) m ([], m)"

text \<open>\<open>Kick\<close> up to its wait for the writer, and the close that ends it.\<close>

definition comp_Kick_begin ::
  "control_wire \<Rightarrow> string \<Rightarrow> int \<Rightarrow> string \<Rightarrow> bool \<Rightarrow> Server \<Rightarrow> server_error option \<times> Server" where
  "comp_Kick_begin cw i code reason again m =
     (case mgr_Get i m of
        None \<Rightarrow> (Some (ConnNotFound i), m)
      | Some p \<Rightarrow> (map_option ConnFailure (fst (Kick_begin cw code reason again (sv_heap m ! p))),
                   on_conn p (snd \<circ> Kick_begin cw code reason again) m))"

text \<open>
  \<open>OnBeforeStop\<close>: it stops the connectors and sends \<open>GoAway\<close> to the connections of a snapshot, which it
  returns; when the clients have answered or the time is over it closes those connections.
\<close>

definition OnBeforeStop_begin :: "control_wire \<Rightarrow> Server \<Rightarrow> nat list \<times> Server" where
  "OnBeforeStop_begin cw m =
     (let m = m\<lparr>sv_accepting := False\<rparr>; ps = Snapshot m
      in (ps, fold (\<lambda>p. on_conn p (snd \<circ> GoAway_begin cw 0 0)) ps m))"

definition OnBeforeStop_end :: "nat list \<Rightarrow> Server \<Rightarrow> Server" where
  "OnBeforeStop_end ps m = fold sv_Close ps m"

section \<open>Runs of the server\<close>

text \<open>What the goroutines of a connection do on their own.\<close>

inductive io_step :: "'v Registry \<Rightarrow> (Connection \<Rightarrow> Connection) \<Rightarrow> Connection \<Rightarrow> bool" for cs :: "'v Registry" where
  io_read: "\<not> cn_done c \<Longrightarrow> io_step cs (run_turn w cw now inp) c"
| io_finish: "io_step cs (finish_request cs h result) c"
| io_write: "io_step cs (write_turn w io) c"
| io_goaway: "io_step cs (snd \<circ> GoAway_begin cw code retry) c"
| io_close: "io_step cs conn_Close c"

text \<open>
  The steps of the server. Ids of new connections come from the id generator, which never repeats one
  and never gives an empty one.
\<close>

inductive sstep :: "'v Registry \<Rightarrow> Server \<Rightarrow> Server \<Rightarrow> bool" for cs :: "'v Registry" where
  accept_step: "sv_accepting m \<Longrightarrow> i \<noteq> [] \<Longrightarrow> i \<notin> cn_id ` set (sv_heap m) \<Longrightarrow> sstep cs m (HandleConn i ip m)"
| conn_step: "p < length (sv_heap m) \<Longrightarrow> io_step cs f (sv_heap m ! p) \<Longrightarrow> sstep cs m (on_conn p f m)"
| push_step: "sstep cs m (snd (comp_Notify cs i methodID pl m))"
| pushUID_step: "sstep cs m (snd (NotifyUID cs uid methodID pl m))"
| broadcast_step: "sstep cs m (snd (Broadcast cs methodID pl m))"
| bindUID_step: "sstep cs m (snd (comp_Bind i uid data m))"
| kick_conn_step: "sstep cs m (snd (comp_Kick_begin cw i code reason again m))"
| closeAll_step: "sstep cs m (CloseAll m)"
| stop_step: "sstep cs m (snd (OnBeforeStop_begin cw m))"

inductive sreach :: "'v Registry \<Rightarrow> Options \<Rightarrow> Server \<Rightarrow> bool" for cs :: "'v Registry" and opts :: Options where
  sreach_init: "sreach cs opts (NewConnectionManager opts)"
| sreach_step: "sreach cs opts m \<Longrightarrow> sstep cs m m' \<Longrightarrow> sreach cs opts m'"

definition srv_inv :: "Server \<Rightarrow> bool" where
  "srv_inv m \<longleftrightarrow>
     distinct (map fst (mgr_connections m)) \<and> distinct (map cn_id (sv_heap m)) \<and> [] \<notin> cn_id ` set (sv_heap m) \<and>
     (\<forall>p < length (sv_heap m). conn_inv (sv_options m) (cn_id (sv_heap m ! p)) (sv_heap m ! p)) \<and>
     (\<forall>i p. map_of (mgr_connections m) i = Some p \<longleftrightarrow>
        p < length (sv_heap m) \<and> cn_id (sv_heap m ! p) = i \<and> \<not> cn_done (sv_heap m ! p)) \<and>
     (\<forall>u i. map_of (mgr_byUID m) u = Some i \<longleftrightarrow>
        u > 0 \<and> (\<exists>p < length (sv_heap m). cn_id (sv_heap m ! p) = i \<and> \<not> cn_done (sv_heap m ! p) \<and>
                  conn_UID (sv_heap m ! p) = u)) \<and>
     distinct (sv_disconnects m) \<and>
     set (sv_disconnects m) = {p. p < length (sv_heap m) \<and> cn_done (sv_heap m ! p)}"

section \<open>The invariant\<close>

lemma cancel_session [simp]: "cn_session (fold (\<lambda>(_, h). cancel_handler h) xs c) = cn_session c"
  by (induction xs arbitrary: c) auto

lemma conn_Close_session [simp]: "cn_session (conn_Close c) = cn_session c"
  by (simp add: conn_Close_def)

lemma enqueue_session: "enqueue p c = (b, c') \<Longrightarrow> cn_session c' = cn_session c"
  by (auto simp: enqueue_def split: if_splits)

lemma process_session: "process cw now p c = (b, c') \<Longrightarrow> cn_session c' = cn_session c"
  by (auto simp: process_def handleHandshake_def handleHeartbeat_def handleNotify_def handleCancel_def
      start_request_def reserve_def conn_send_def Let_def
      dest!: enqueue_session split: option.splits kind.splits if_splits prod.splits bool.splits)

lemma run_turn_session: "cn_session (run_turn w cw now inp c) = cn_session c"
  by (auto simp: run_turn_def Let_def dest!: process_session split: sum.splits prod.splits bool.splits)

lemma finish_request_session: "cn_session (finish_request cs h r c) = cn_session c"
  by (auto simp: finish_request_def release_def conn_send_def Let_def
      dest!: enqueue_session split: option.splits prod.splits bool.splits)

lemma write_turn_session: "cn_session (write_turn w io c) = cn_session c"
  by (auto simp: write_turn_def Let_def split: list.splits sum.splits option.splits)

lemma conn_Notify_session: "cn_session (snd (conn_Notify cs m p c)) = cn_session c"
  by (auto simp: conn_Notify_def conn_send_def Let_def dest!: enqueue_session
      split: sum.splits prod.splits bool.splits)

lemma Kick_session: "cn_session (snd (Kick_begin cw code reason again c)) = cn_session c"
  by (auto simp: Kick_begin_def Let_def dest!: enqueue_session split: option.splits prod.splits bool.splits)

lemma GoAway_session: "cn_session (snd (GoAway_begin cw code retry c)) = cn_session c"
  by (auto simp: GoAway_begin_def Let_def dest!: enqueue_session split: option.splits prod.splits bool.splits)

lemmas session_kept = run_turn_session finish_request_session write_turn_session conn_Notify_session
  Kick_session GoAway_session

text \<open>An operation of a connection that the server may run: a step of the connection that keeps the session.\<close>

definition conn_op :: "'v Registry \<Rightarrow> (Connection \<Rightarrow> Connection) \<Rightarrow> Connection \<Rightarrow> bool" where
  "conn_op cs f c \<longleftrightarrow> cstep cs c (f c) \<and> cn_session (f c) = cn_session c"

lemma io_step_op: "io_step cs f c \<Longrightarrow> conn_op cs f c"
  by (induction rule: io_step.induct) (auto simp: conn_op_def session_kept intro: cstep.intros)

lemma conn_ops:
  "conn_op cs (snd \<circ> conn_Notify cs m p) c" "conn_op cs (snd \<circ> Kick_begin cw code reason again) c"
  "conn_op cs (snd \<circ> GoAway_begin cw code' retry) c" "conn_op cs conn_Close c"
  by (auto simp: conn_op_def session_kept intro: cstep.intros)

lemma srv_invD:
  assumes "srv_inv m"
  shows "distinct (map fst (mgr_connections m))" "distinct (map cn_id (sv_heap m))" "[] \<notin> cn_id ` set (sv_heap m)"
    and "p < length (sv_heap m) \<Longrightarrow> conn_inv (sv_options m) (cn_id (sv_heap m ! p)) (sv_heap m ! p)"
    and "map_of (mgr_connections m) i = Some p \<longleftrightarrow>
        p < length (sv_heap m) \<and> cn_id (sv_heap m ! p) = i \<and> \<not> cn_done (sv_heap m ! p)"
    and "map_of (mgr_byUID m) u = Some i \<longleftrightarrow>
        u > 0 \<and> (\<exists>p < length (sv_heap m). cn_id (sv_heap m ! p) = i \<and> \<not> cn_done (sv_heap m ! p) \<and>
                  conn_UID (sv_heap m ! p) = u)"
    and "distinct (sv_disconnects m)"
    and "set (sv_disconnects m) = {p. p < length (sv_heap m) \<and> cn_done (sv_heap m ! p)}"
  using assms unfolding srv_inv_def by blast+

lemma same_id_same_conn:
  "srv_inv m \<Longrightarrow> p < length (sv_heap m) \<Longrightarrow> q < length (sv_heap m) \<Longrightarrow>
   cn_id (sv_heap m ! p) = cn_id (sv_heap m ! q) \<Longrightarrow> p = q"
  using srv_invD(2) [of m] by (auto simp: distinct_conv_nth)

lemma same_uid_same_conn:
  assumes "srv_inv m" "p < length (sv_heap m)" "q < length (sv_heap m)" "\<not> cn_done (sv_heap m ! p)"
    "\<not> cn_done (sv_heap m ! q)" "conn_UID (sv_heap m ! p) = conn_UID (sv_heap m ! q)" "0 < conn_UID (sv_heap m ! p)"
  shows "p = q"
proof -
  have "map_of (mgr_byUID m) (conn_UID (sv_heap m ! p)) = Some (cn_id (sv_heap m ! p))"
    "map_of (mgr_byUID m) (conn_UID (sv_heap m ! p)) = Some (cn_id (sv_heap m ! q))"
    using srv_invD(6) [OF assms(1)] assms by metis+
  then show ?thesis using same_id_same_conn [OF assms(1-3)] by simp
qed

lemma srv_inv_same_view:
  assumes I: "srv_inv m" and l: "length h = length (sv_heap m)"
    and v: "\<And>p. p < length h \<Longrightarrow> cn_id (h ! p) = cn_id (sv_heap m ! p) \<and> cn_done (h ! p) = cn_done (sv_heap m ! p) \<and>
      conn_UID (h ! p) = conn_UID (sv_heap m ! p)"
    and c: "\<And>p. p < length h \<Longrightarrow> conn_inv (sv_options m) (cn_id (sv_heap m ! p)) (h ! p)"
  shows "srv_inv (m\<lparr>sv_heap := h\<rparr>)"
proof -
  have "map cn_id h = map cn_id (sv_heap m)" using v l by (simp add: list_eq_iff_nth_eq)
  then have ids: "map cn_id h = map cn_id (sv_heap m)" "cn_id ` set h = cn_id ` set (sv_heap m)"
    by (simp, metis set_map)
  have e: "p < length (sv_heap m) \<and> P (cn_id (h ! p)) (cn_done (h ! p)) (conn_UID (h ! p)) \<longleftrightarrow>
      p < length (sv_heap m) \<and> P (cn_id (sv_heap m ! p)) (cn_done (sv_heap m ! p)) (conn_UID (sv_heap m ! p))" for p P
    using v [of p] l by auto
  note e1 = e [of _ "\<lambda>i d u. i = j \<and> \<not> d" for j] and e2 = e [of _ "\<lambda>i d u. i = j \<and> \<not> d \<and> u = k" for j k]
    and e3 = e [of _ "\<lambda>i d u. d"]
  have "conn_inv (sv_options m) (cn_id (h ! p)) (h ! p)" if "p < length (sv_heap m)" for p
    using c [of p] v [of p] that l by simp
  then show ?thesis
    using srv_invD [OF I] unfolding srv_inv_def by (simp add: ids e1 e2 e3 l)
qed

lemma drop_uid_fields [simp]:
  "sv_heap (drop_uid u i m) = sv_heap m" "sv_options (drop_uid u i m) = sv_options m"
  "mgr_connections (drop_uid u i m) = mgr_connections m" "sv_disconnects (drop_uid u i m) = sv_disconnects m"
  "sv_accepting (drop_uid u i m) = sv_accepting m"
  by (simp_all add: drop_uid_def)

lemma map_of_drop_uid:
  "map_of (mgr_byUID (drop_uid u i m)) v =
     (if v = u \<and> 0 < u \<and> uid_entry u m = i then None else map_of (mgr_byUID m) v)"
  by (auto simp: drop_uid_def)

lemma mgr_Remove_live:
  assumes "map_of (mgr_connections m) i = Some p"
  shows "mgr_Remove i m =
    drop_uid (conn_UID (sv_heap m ! p)) i (m\<lparr>mgr_connections := AList.delete i (mgr_connections m)\<rparr>)"
  using assms by (simp add: mgr_Remove_def Let_def)

lemma uid_entry_live:
  assumes I: "srv_inv m" and p: "p < length (sv_heap m)" "\<not> cn_done (sv_heap m ! p)" "0 < conn_UID (sv_heap m ! p)"
  shows "uid_entry (conn_UID (sv_heap m ! p)) m = cn_id (sv_heap m ! p)"
proof -
  have "map_of (mgr_byUID m) (conn_UID (sv_heap m ! p)) = Some (cn_id (sv_heap m ! p))"
    using srv_invD(6) [OF I] p by blast
  then show ?thesis by (simp add: uid_entry_def)
qed

lemma uid_entry_update [simp]:
  "uid_entry u (m\<lparr>sv_heap := h\<rparr>) = uid_entry u m" "uid_entry u (m\<lparr>mgr_connections := x\<rparr>) = uid_entry u m"
  by (simp_all add: uid_entry_def)

lemma on_conn_closing:
  assumes I: "srv_inv m" and p: "p < length (sv_heap m)" "\<not> cn_done (sv_heap m ! p)"
    and c': "conn_inv (sv_options m) (cn_id (sv_heap m ! p)) c'" "conn_UID c' = conn_UID (sv_heap m ! p)" "cn_done c'"
  shows "srv_inv (on_conn p (\<lambda>_. c') m)"
proof -
  let ?c = "sv_heap m ! p" and ?h = "(sv_heap m)[p := c']" and ?m = "on_conn p (\<lambda>_. c') m"
  have id: "cn_id c' = cn_id ?c" using c'(1) by (simp add: conn_inv_def)
  have look: "map_of (mgr_connections m) (cn_id ?c) = Some p" using srv_invD(5) [OF I] p by simp
  have m: "?m = (drop_uid (conn_UID ?c) (cn_id ?c)
      (m\<lparr>sv_heap := ?h, mgr_connections := AList.delete (cn_id ?c) (mgr_connections m)\<rparr>))
      \<lparr>sv_disconnects := sv_disconnects m @ [p]\<rparr>"
    using p c' look by (simp add: on_conn_def Let_def mgr_Remove_live)
  have ids: "map cn_id ?h = map cn_id (sv_heap m)" using id p by (simp add: map_update list_update_same_conv)
  then have ids': "cn_id ` set ?h = cn_id ` set (sv_heap m)" by (metis set_map)
  have d1: "map_of (mgr_connections ?m) i = Some q \<longleftrightarrow>
      q < length (sv_heap ?m) \<and> cn_id (sv_heap ?m ! q) = i \<and> \<not> cn_done (sv_heap ?m ! q)" for i q
    using srv_invD(5) [OF I, of i q] same_id_same_conn [OF I, of p q] p c' id
    by (cases "q = p"; cases "i = cn_id ?c") (auto simp: m)
  have e: "map_of (mgr_byUID ?m) u =
      (if u = conn_UID ?c \<and> 0 < u then None else map_of (mgr_byUID m) u)" for u
    using uid_entry_live [OF I p] by (auto simp: m map_of_drop_uid)
  have d2: "map_of (mgr_byUID ?m) u = Some i \<longleftrightarrow>
        u > 0 \<and> (\<exists>q < length (sv_heap ?m). cn_id (sv_heap ?m ! q) = i \<and> \<not> cn_done (sv_heap ?m ! q) \<and>
                  conn_UID (sv_heap ?m ! q) = u)" for u i
  proof (cases "u = conn_UID ?c \<and> 0 < u")
    case True
    have "\<not> (\<exists>q < length (sv_heap ?m). \<not> cn_done (sv_heap ?m ! q) \<and> conn_UID (sv_heap ?m ! q) = u)"
    proof (intro notI, elim exE conjE)
      fix q assume "q < length (sv_heap ?m)" "\<not> cn_done (sv_heap ?m ! q)" "conn_UID (sv_heap ?m ! q) = u"
      moreover from this(2) have "q \<noteq> p" using c'(3) p(1) by (auto simp: m)
      ultimately show False using same_uid_same_conn [OF I p(1) _ p(2), of q] True by (simp add: m)
    qed
    with True e show ?thesis by auto
  next
    case False
    then have "map_of (mgr_byUID ?m) u = map_of (mgr_byUID m) u" by (subst e) (rule if_not_P)
    then have "map_of (mgr_byUID ?m) u = Some i \<longleftrightarrow> map_of (mgr_byUID m) u = Some i" by simp
    also have "\<dots> \<longleftrightarrow> u > 0 \<and> (\<exists>q < length (sv_heap m). cn_id (sv_heap m ! q) = i \<and> \<not> cn_done (sv_heap m ! q) \<and>
        conn_UID (sv_heap m ! q) = u)" by (rule srv_invD(6) [OF I])
    also have "\<dots> \<longleftrightarrow> u > 0 \<and> (\<exists>q < length ?h. cn_id (?h ! q) = i \<and> \<not> cn_done (?h ! q) \<and> conn_UID (?h ! q) = u)"
    proof -
      have "u > 0 \<and> q < length (sv_heap m) \<and> cn_id (sv_heap m ! q) = i \<and> \<not> cn_done (sv_heap m ! q) \<and>
          conn_UID (sv_heap m ! q) = u \<longleftrightarrow>
          u > 0 \<and> q < length ?h \<and> cn_id (?h ! q) = i \<and> \<not> cn_done (?h ! q) \<and> conn_UID (?h ! q) = u" for q
        using False c'(3) p(1) by (cases "q = p") auto
      then show ?thesis by blast
    qed
    finally show ?thesis by (simp add: m)
  qed
  have "p \<notin> set (sv_disconnects m)" using srv_invD(8) [OF I] p by auto
  then have d3: "distinct (sv_disconnects ?m)"
      "set (sv_disconnects ?m) = {p. p < length (sv_heap ?m) \<and> cn_done (sv_heap ?m ! p)}"
    using srv_invD(7,8) [OF I] p c' by (auto simp: m nth_list_update)
  have "conn_inv (sv_options ?m) (cn_id (sv_heap ?m ! q)) (sv_heap ?m ! q)" if "q < length (sv_heap ?m)" for q
    using srv_invD(4) [OF I, of q] c' id that by (cases "q = p") (auto simp: m)
  moreover have "distinct (map fst (mgr_connections ?m))" "distinct (map cn_id (sv_heap ?m))"
      "[] \<notin> cn_id ` set (sv_heap ?m)"
    using srv_invD(1-3) [OF I] by (simp_all add: m ids ids' distinct_keys_delete)
  ultimately show ?thesis unfolding srv_inv_def using d1 d2 d3 by blast
qed

lemma conn_op_keeps:
  assumes "conn_op cs f c" and I: "conn_inv opts i c"
  shows "conn_inv opts i (f c)" "conn_UID (f c) = conn_UID c" "cn_done c \<Longrightarrow> cn_done (f c)"
  using assms cstep_inv [OF _ I] closed_stays [OF _ I] by (auto simp: conn_op_def conn_UID_def)

lemma on_conn_inv:
  assumes I: "srv_inv m" and p: "p < length (sv_heap m)" and f: "conn_op cs f (sv_heap m ! p)"
  shows "srv_inv (on_conn p f m)"
proof -
  let ?c = "sv_heap m ! p"
  have k: "conn_inv (sv_options m) (cn_id ?c) (f ?c)" "conn_UID (f ?c) = conn_UID ?c" "cn_done ?c \<Longrightarrow> cn_done (f ?c)"
    using conn_op_keeps [OF f] srv_invD(4) [OF I p] by blast+
  show ?thesis
  proof (cases "\<not> cn_done ?c \<and> cn_done (f ?c)")
    case True
    have "on_conn p f m = on_conn p (\<lambda>_. f ?c) m" by (simp add: on_conn_def Let_def)
    with on_conn_closing [OF I p _ k(1,2)] True show ?thesis by simp
  next
    case False
    then have "on_conn p f m = m\<lparr>sv_heap := (sv_heap m)[p := f ?c]\<rparr>" by (auto simp: on_conn_def Let_def)
    moreover have "cn_id (f ?c) = cn_id ?c" using k(1) by (simp add: conn_inv_def)
    moreover have "cn_done (f ?c) = cn_done ?c" using False k(3) by blast
    moreover have "srv_inv (m\<lparr>sv_heap := (sv_heap m)[p := f ?c]\<rparr>)"
      by (rule srv_inv_same_view [OF I])
        (use calculation k srv_invD(4) [OF I] p in \<open>auto simp: nth_list_update\<close>)
    ultimately show ?thesis by simp
  qed
qed

lemma on_conn_fields [simp]:
  "length (sv_heap (on_conn p f m)) = length (sv_heap m)" "sv_options (on_conn p f m) = sv_options m"
  "sv_accepting (on_conn p f m) = sv_accepting m"
  "sv_heap (on_conn p f m) = (sv_heap m)[p := f (sv_heap m ! p)]"
  by (auto simp: on_conn_def Let_def mgr_Remove_def split: option.splits)

lemma fold_on_conn_inv:
  assumes "srv_inv m" "\<forall>p \<in> set ps. p < length (sv_heap m)" "\<And>c. conn_op cs f c"
  shows "srv_inv (fold (\<lambda>p. on_conn p f) ps m)"
  using assms
proof (induction ps arbitrary: m)
  case (Cons p ps)
  then have "srv_inv (on_conn p f m)" by (intro on_conn_inv) auto
  moreover have "\<forall>q \<in> set ps. q < length (sv_heap (on_conn p f m))" using Cons.prems(2) by (simp del: on_conn_fields(4))
  ultimately have "srv_inv (fold (\<lambda>p. on_conn p f) ps (on_conn p f m))" using Cons.IH Cons.prems(3) by blast
  then show ?case by simp
qed simp

lemma Snapshot_live:
  assumes "srv_inv m"
  shows "p \<in> set (Snapshot m) \<longleftrightarrow> p < length (sv_heap m) \<and> \<not> cn_done (sv_heap m ! p)" "distinct (Snapshot m)"
proof -
  let ?C = "mgr_connections m"
  have D: "distinct (map fst ?C)" by (rule srv_invD(1) [OF assms])
  have e: "(i, q) \<in> set ?C \<longleftrightarrow> q < length (sv_heap m) \<and> cn_id (sv_heap m ! q) = i \<and> \<not> cn_done (sv_heap m ! q)" for i q
    using srv_invD(5) [OF assms, of i q] map_of_eq_Some_iff [OF D, of i q] by simp
  show "p \<in> set (Snapshot m) \<longleftrightarrow> p < length (sv_heap m) \<and> \<not> cn_done (sv_heap m ! p)"
  proof
    assume "p \<in> set (Snapshot m)"
    then obtain i where "(i, p) \<in> set ?C" by (auto simp: Snapshot_def)
    then show "p < length (sv_heap m) \<and> \<not> cn_done (sv_heap m ! p)" unfolding e by blast
  next
    assume "p < length (sv_heap m) \<and> \<not> cn_done (sv_heap m ! p)"
    then have "(cn_id (sv_heap m ! p), p) \<in> set ?C" unfolding e by blast
    then show "p \<in> set (Snapshot m)" by (force simp: Snapshot_def)
  qed
  have "inj_on snd (set ?C)"
  proof (rule inj_onI)
    fix x y assume "x \<in> set ?C" "y \<in> set ?C" "snd x = snd y"
    moreover have "fst z = cn_id (sv_heap m ! snd z)" if "z \<in> set ?C" for z
      using e [of "fst z" "snd z"] that by auto
    ultimately show "x = y" by (simp add: prod_eq_iff)
  qed
  moreover have "distinct ?C" using D by (simp add: distinct_map)
  ultimately show "distinct (Snapshot m)" by (simp add: Snapshot_def distinct_map)
qed

lemma Broadcast_fold:
  "snd (range_loop (broadcast_one cs methodID pl) ps (fs, m)) = fold (\<lambda>p. on_conn p (snd \<circ> conn_Notify cs methodID pl)) ps m"
  by (induction ps arbitrary: fs m)
    (auto simp: broadcast_one_def conn_Notify_at_def split: option.splits prod.splits)

lemma CloseAll_fold: "CloseAll m = fold (\<lambda>p. on_conn p conn_Close) (Snapshot m) m"
proof -
  have "range_loop (\<lambda>p m. (True, sv_Close p m)) ps s = fold (\<lambda>p. on_conn p conn_Close) ps s" for ps s
    by (induction ps arbitrary: s) (simp_all add: sv_Close_def)
  then show ?thesis by (simp add: CloseAll_def mgr_Range_def)
qed

lemma newConnection_inv: "conn_inv opts i (newConnection i ip opts)"
  by (rule creach_inv) (rule creach_init)

lemma HandleConn_inv:
  assumes I: "srv_inv m" and i: "i \<noteq> []" "i \<notin> cn_id ` set (sv_heap m)"
  shows "srv_inv (HandleConn i ip m)"
proof -
  let ?n = "newConnection i ip (sv_options m)" and ?m = "HandleConn i ip m" and ?l = "length (sv_heap m)"
  have m: "?m = m\<lparr>sv_heap := sv_heap m @ [?n], mgr_connections := AList.update i ?l (mgr_connections m)\<rparr>"
    by (simp add: HandleConn_def mgr_Add_def newConnection_def Let_def)
  have n: "cn_id ?n = i" "\<not> cn_done ?n" "conn_UID ?n = 0" "conn_inv (sv_options m) i ?n"
    using newConnection_inv by (auto simp: newConnection_def conn_UID_def)
  have old: "cn_id (sv_heap m ! q) \<noteq> i" if "q < ?l" for q using i(2) that by (auto simp: image_iff)
  have d1: "map_of (mgr_connections ?m) j = Some q \<longleftrightarrow>
      q < length (sv_heap ?m) \<and> cn_id (sv_heap ?m ! q) = j \<and> \<not> cn_done (sv_heap ?m ! q)" for j q
    using srv_invD(5) [OF I, of j q] n old [of q] by (cases "q = ?l"; cases "j = i") (auto simp: m nth_append)
  have e: "u > 0 \<and> q < ?l \<and> cn_id (sv_heap m ! q) = j \<and> \<not> cn_done (sv_heap m ! q) \<and> conn_UID (sv_heap m ! q) = u \<longleftrightarrow>
      u > 0 \<and> q < length (sv_heap ?m) \<and> cn_id (sv_heap ?m ! q) = j \<and> \<not> cn_done (sv_heap ?m ! q) \<and>
      conn_UID (sv_heap ?m ! q) = u" for u j q
    using n by (cases "q = ?l") (auto simp: m nth_append)
  have d2: "map_of (mgr_byUID ?m) u = Some j \<longleftrightarrow> u > 0 \<and> (\<exists>q < length (sv_heap ?m). cn_id (sv_heap ?m ! q) = j \<and>
      \<not> cn_done (sv_heap ?m ! q) \<and> conn_UID (sv_heap ?m ! q) = u)" for u j
  proof -
    have "map_of (mgr_byUID ?m) u = Some j \<longleftrightarrow> map_of (mgr_byUID m) u = Some j" by (simp add: m)
    also have "\<dots> \<longleftrightarrow> (\<exists>q. u > 0 \<and> q < ?l \<and> cn_id (sv_heap m ! q) = j \<and> \<not> cn_done (sv_heap m ! q) \<and>
        conn_UID (sv_heap m ! q) = u)" unfolding srv_invD(6) [OF I] by blast
    finally show ?thesis unfolding e by blast
  qed
  have d3: "set (sv_disconnects ?m) = {p. p < length (sv_heap ?m) \<and> cn_done (sv_heap ?m ! p)}"
  proof -
    have "p < length (sv_heap ?m) \<and> cn_done (sv_heap ?m ! p) \<longleftrightarrow> p < ?l \<and> cn_done (sv_heap m ! p)" for p
      using n by (cases "p = ?l") (auto simp: m nth_append)
    moreover have "sv_disconnects ?m = sv_disconnects m" by (simp add: m)
    ultimately show ?thesis using srv_invD(8) [OF I] by simp
  qed
  have "conn_inv (sv_options ?m) (cn_id (sv_heap ?m ! q)) (sv_heap ?m ! q)" if "q < length (sv_heap ?m)" for q
    using srv_invD(4) [OF I, of q] n that by (cases "q = ?l") (auto simp: m nth_append)
  moreover have "distinct (map fst (mgr_connections ?m))" "distinct (map cn_id (sv_heap ?m))"
      "[] \<notin> cn_id ` set (sv_heap ?m)" "distinct (sv_disconnects ?m)"
    using srv_invD(1-3,7) [OF I] i n by (simp_all add: m distinct_keys_update)
  ultimately show ?thesis unfolding srv_inv_def using d1 d2 d3 by blast
qed

lemma conn_bind_fields [simp]:
  "cn_id (conn_bind uid data c) = cn_id c" "cn_done (conn_bind uid data c) = cn_done c"
  "conn_UID (conn_bind uid data c) = uid"
  by (simp_all add: conn_bind_def conn_UID_def)

lemma mgr_Bind_ok:
  assumes I: "srv_inv m" and ok: "fst (mgr_Bind i uid data m) = None"
  obtains p where "0 < uid" "map_of (mgr_connections m) i = Some p" "uid_entry uid m = [] \<or> uid_entry uid m = i"
    "mgr_Bind i uid data m = (None, (drop_uid (conn_UID (sv_heap m ! p)) i m)
       \<lparr>sv_heap := (sv_heap m)[p := conn_bind uid data (sv_heap m ! p)],
        mgr_byUID := AList.update uid i (mgr_byUID (drop_uid (conn_UID (sv_heap m ! p)) i m))\<rparr>)"
  using ok by (auto simp: mgr_Bind_def Let_def split: if_splits option.splits)

lemma bound_elsewhere:
  assumes I: "srv_inv m" and e: "uid_entry uid m = [] \<or> uid_entry uid m = i"
    and q: "q < length (sv_heap m)" "\<not> cn_done (sv_heap m ! q)" "conn_UID (sv_heap m ! q) = uid" "0 < uid"
  shows "cn_id (sv_heap m ! q) = i"
proof -
  have "uid_entry uid m = cn_id (sv_heap m ! q)" using uid_entry_live [OF I q(1,2)] q by simp
  moreover have "cn_id (sv_heap m ! q) \<noteq> []" using srv_invD(3) [OF I] q(1) by (metis image_eqI nth_mem)
  ultimately show ?thesis using e by simp
qed

lemma mgr_Bind_inv:
  assumes I: "srv_inv m"
  shows "srv_inv (snd (mgr_Bind i uid data m))"
proof (cases "fst (mgr_Bind i uid data m)")
  case (Some e)
  then have "snd (mgr_Bind i uid data m) = m"
    by (auto simp: mgr_Bind_def Let_def split: if_splits option.splits)
  with I show ?thesis by simp
next
  case None
  then obtain p where u: "0 < uid" and look: "map_of (mgr_connections m) i = Some p"
    and free: "uid_entry uid m = [] \<or> uid_entry uid m = i"
    and m: "snd (mgr_Bind i uid data m) = (drop_uid (conn_UID (sv_heap m ! p)) i m)
       \<lparr>sv_heap := (sv_heap m)[p := conn_bind uid data (sv_heap m ! p)],
        mgr_byUID := AList.update uid i (mgr_byUID (drop_uid (conn_UID (sv_heap m ! p)) i m))\<rparr>"
    using mgr_Bind_ok [OF I None] by (metis snd_conv)
  let ?c = "sv_heap m ! p" and ?h = "(sv_heap m)[p := conn_bind uid data (sv_heap m ! p)]"
    and ?m = "snd (mgr_Bind i uid data m)"
  have p: "p < length (sv_heap m)" "cn_id ?c = i" "\<not> cn_done ?c" using look unfolding srv_invD(5) [OF I] by blast+
  have h: "sv_heap ?m = ?h" "sv_options ?m = sv_options m" "sv_disconnects ?m = sv_disconnects m"
    "mgr_connections ?m = mgr_connections m" by (simp_all add: m)
  have v: "cn_id (?h ! q) = cn_id (sv_heap m ! q)" "cn_done (?h ! q) = cn_done (sv_heap m ! q)"
    "conn_UID (?h ! q) = (if q = p then uid else conn_UID (sv_heap m ! q))" if "q < length (sv_heap m)" for q
    using that p by (auto simp: nth_list_update)
  have b: "map_of (mgr_byUID ?m) w =
      (if w = uid then Some i else if w = conn_UID ?c \<and> 0 < w then None else map_of (mgr_byUID m) w)" for w
    using uid_entry_live [OF I p(1,3)] p(2) by (auto simp: m map_of_drop_uid update_conv')
  have d2: "map_of (mgr_byUID ?m) w = Some j \<longleftrightarrow> w > 0 \<and> (\<exists>q < length ?h. cn_id (?h ! q) = j \<and>
      \<not> cn_done (?h ! q) \<and> conn_UID (?h ! q) = w)" (is "?L \<longleftrightarrow> _ \<and> (\<exists>q < length ?h. ?Q q)") for w j
  proof -
    consider "w = uid" | "w \<noteq> uid" "w = conn_UID ?c" "0 < w" | "w \<noteq> uid" "w \<noteq> conn_UID ?c \<or> \<not> 0 < w" by blast
    then show ?thesis
    proof cases
      case 1
      have "q < length ?h \<and> ?Q q \<Longrightarrow> j = i" for q
        using bound_elsewhere [OF I free, of q] v [of q] 1 u p(2) by (auto split: if_splits)
      moreover have "j = i \<Longrightarrow> ?Q p" using v [OF p(1)] p 1 by simp
      ultimately show ?thesis using 1 u p(1) b by auto
    next
      case 2
      have "\<not> (q < length ?h \<and> ?Q q)" for q
        using same_uid_same_conn [OF I p(1) _ p(3), of q] v [of q] 2 by (auto split: if_splits)
      moreover have "\<not> ?L" using 2 by (simp add: b)
      ultimately show ?thesis by blast
    next
      case 3
      have "0 < w \<and> q < length ?h \<and> ?Q q \<longleftrightarrow> 0 < w \<and> q < length (sv_heap m) \<and> cn_id (sv_heap m ! q) = j \<and>
          \<not> cn_done (sv_heap m ! q) \<and> conn_UID (sv_heap m ! q) = w" for q
        using v [of q] 3 by (cases "q = p") auto
      moreover have "map_of (mgr_byUID ?m) w = map_of (mgr_byUID m) w" using 3 by (auto simp: b)
      ultimately show ?thesis using srv_invD(6) [OF I, of w j] by auto
    qed
  qed
  have ids: "map cn_id ?h = map cn_id (sv_heap m)" using v(1) by (simp add: list_eq_iff_nth_eq)
  then have ids': "cn_id ` set ?h = cn_id ` set (sv_heap m)" by (metis set_map)
  have d1: "map_of (mgr_connections m) j = Some q \<longleftrightarrow> q < length ?h \<and> cn_id (?h ! q) = j \<and> \<not> cn_done (?h ! q)" for j q
    using srv_invD(5) [OF I, of j q] v [of q] by auto
  have c: "conn_inv (sv_options m) (cn_id (?h ! q)) (?h ! q)" if "q < length ?h" for q
    using srv_invD(4) [OF I, of q] that p(1) by (cases "q = p") (auto simp: bind_inv)
  have "q < length ?h \<and> cn_done (?h ! q) \<longleftrightarrow> q < length (sv_heap m) \<and> cn_done (sv_heap m ! q)" for q
    using v [of q] by auto
  then have d3: "set (sv_disconnects m) = {q. q < length ?h \<and> cn_done (?h ! q)}" using srv_invD(8) [OF I] by simp
  show ?thesis unfolding srv_inv_def h ids ids' using srv_invD(1-3,7) [OF I] d1 d2 d3 c by blast
qed

lemma Broadcast_snd:
  "snd (Broadcast cs methodID pl m) = fold (\<lambda>p. on_conn p (snd \<circ> conn_Notify cs methodID pl)) (Snapshot m) m"
  by (simp add: Broadcast_def mgr_Range_def Broadcast_fold)

lemma mgr_Get_live: "srv_inv m \<Longrightarrow> mgr_Get i m = Some p \<Longrightarrow> p < length (sv_heap m)"
  using srv_invD(5) by (auto simp: mgr_Get_def)

lemma mgr_GetUID_live: "srv_inv m \<Longrightarrow> mgr_GetUID u m = Some p \<Longrightarrow> p < length (sv_heap m)"
  using srv_invD(5) by (auto simp: mgr_GetUID_def split: if_splits)

lemma srv_inv_accepting [simp]: "srv_inv (m\<lparr>sv_accepting := b\<rparr>) \<longleftrightarrow> srv_inv m"
  by (simp add: srv_inv_def)

text \<open>What a step does to the connections: a bind, an accept, or operations of some connections.\<close>

inductive heap_change :: "'v Registry \<Rightarrow> Server \<Rightarrow> Server \<Rightarrow> bool" for cs :: "'v Registry" where
  change_accept: "sv_accepting m \<Longrightarrow> i \<noteq> [] \<Longrightarrow> i \<notin> cn_id ` set (sv_heap m) \<Longrightarrow> heap_change cs m (HandleConn i ip m)"
| change_bind: "heap_change cs m (snd (mgr_Bind i uid data m))"
| change_conns: "\<forall>p \<in> set ps. p < length (sv_heap m) \<Longrightarrow> (\<And>c. conn_op cs f c) \<Longrightarrow>
    heap_change cs m (fold (\<lambda>p. on_conn p f) ps (m\<lparr>sv_accepting := b \<and> sv_accepting m\<rparr>))"
| change_conn: "p < length (sv_heap m) \<Longrightarrow> conn_op cs f (sv_heap m ! p) \<Longrightarrow> heap_change cs m (on_conn p f m)"

lemma change_conns': "\<forall>p \<in> set ps. p < length (sv_heap m) \<Longrightarrow> (\<And>c. conn_op cs f c) \<Longrightarrow>
    heap_change cs m (fold (\<lambda>p. on_conn p f) ps m)"
  using change_conns [of ps m cs f True] by simp

lemma change_none: "heap_change cs m m"
  using change_conns' [of "[]" m, OF _ conn_ops(4)] by simp

lemma sstep_change: "sstep cs m m' \<Longrightarrow> srv_inv m \<Longrightarrow> heap_change cs m m'"
proof (induction rule: sstep.induct)
  case (conn_step p m f)
  then show ?case by (intro change_conn io_step_op)
next
  case (push_step m i methodID pl)
  then show ?case using mgr_Get_live [of m i]
    by (cases "mgr_Get i m")
      (auto simp: comp_Notify_def conn_Notify_at_def change_none intro!: change_conn conn_ops)
next
  case (pushUID_step m uid methodID pl)
  then show ?case using mgr_GetUID_live [of m uid]
    by (cases "mgr_GetUID uid m")
      (auto simp: NotifyUID_def conn_Notify_at_def change_none intro!: change_conn conn_ops)
next
  case (broadcast_step m methodID pl)
  then show ?case unfolding Broadcast_snd
    by (intro change_conns' conn_ops) (simp add: Snapshot_live)
next
  case (kick_conn_step m cw i code reason again)
  then show ?case using mgr_Get_live [of m i]
    by (cases "mgr_Get i m") (auto simp: comp_Kick_begin_def change_none intro!: change_conn conn_ops)
next
  case (closeAll_step m)
  then show ?case unfolding CloseAll_fold
    by (intro change_conns' conn_ops) (simp add: Snapshot_live)
next
  case (stop_step m cw)
  have "Snapshot (m\<lparr>sv_accepting := False\<rparr>) = Snapshot m" by (simp add: Snapshot_def)
  with stop_step change_conns [of "Snapshot m" m cs "snd \<circ> GoAway_begin cw 0 0" False, OF _ conn_ops(3)]
  show ?case by (simp add: OnBeforeStop_begin_def Let_def Snapshot_live)
qed (auto simp: comp_Bind_def intro: heap_change.intros)

lemma heap_change_inv: "heap_change cs m m' \<Longrightarrow> srv_inv m \<Longrightarrow> srv_inv m'"
proof (induction rule: heap_change.induct)
  case (change_conns ps m f b)
  then show ?case by (intro fold_on_conn_inv [of _ _ cs f]) simp_all
qed (auto intro: HandleConn_inv mgr_Bind_inv on_conn_inv)

lemma NewConnectionManager_inv: "srv_inv (NewConnectionManager opts)"
  by (simp add: srv_inv_def NewConnectionManager_def)

lemma sreach_inv: "sreach cs opts m \<Longrightarrow> srv_inv m"
  by (induction rule: sreach.induct) (auto intro: NewConnectionManager_inv heap_change_inv sstep_change)

lemma fold_on_conn_heap:
  assumes "distinct ps" "\<forall>p \<in> set ps. p < length (sv_heap m)"
  shows "length (sv_heap (fold (\<lambda>p. on_conn p f) ps m)) = length (sv_heap m)"
    and "sv_accepting (fold (\<lambda>p. on_conn p f) ps m) = sv_accepting m"
    and "sv_heap (fold (\<lambda>p. on_conn p f) ps m) ! q = (if q \<in> set ps then f (sv_heap m ! q) else sv_heap m ! q)"
  using assms by (induction ps arbitrary: m) (auto simp: nth_list_update)

lemma fold_on_conn_length:
  "length (sv_heap (fold (\<lambda>p. on_conn p f) ps m)) = length (sv_heap m)"
  "sv_accepting (fold (\<lambda>p. on_conn p f) ps m) = sv_accepting m"
  by (induction ps arbitrary: m) auto

text \<open>The failures a push to one connection reports.\<close>

definition push_failures :: "'v Registry \<Rightarrow> u32 \<Rightarrow> 'v payload \<Rightarrow> Connection \<Rightarrow> (string \<times> conn_error) list" where
  "push_failures cs methodID pl c =
     (case fst (conn_Notify cs methodID pl c) of None \<Rightarrow> [] | Some e \<Rightarrow> [(cn_id c, e)])"

lemma Broadcast_failures:
  assumes "distinct ps" "\<forall>p \<in> set ps. p < length (sv_heap m)"
  shows "fst (range_loop (broadcast_one cs methodID pl) ps (fs, m)) =
    fs @ concat (map (\<lambda>p. push_failures cs methodID pl (sv_heap m ! p)) ps)"
  using assms
proof (induction ps arbitrary: fs m)
  case (Cons p ps)
  let ?n = "conn_Notify cs methodID pl" and ?f = "push_failures cs methodID pl"
    and ?m = "on_conn p (snd \<circ> conn_Notify cs methodID pl) m"
  have same: "map (\<lambda>q. ?f (sv_heap ?m ! q)) ps = map (\<lambda>q. ?f (sv_heap m ! q)) ps"
  proof (rule map_cong [OF refl])
    fix q assume "q \<in> set ps"
    then have "q \<noteq> p" using Cons.prems(1) by auto
    then show "?f (sv_heap ?m ! q) = ?f (sv_heap m ! q)" by simp
  qed
  have IH: "fst (range_loop (broadcast_one cs methodID pl) ps (gs, ?m)) =
      gs @ concat (map (\<lambda>p. ?f (sv_heap m ! p)) ps)" for gs
    using Cons.prems Cons.IH [of ?m gs] by (simp only: same) (simp del: on_conn_fields(4))
  show ?case
    by (cases "fst (?n (sv_heap m ! p))")
      (simp_all add: broadcast_one_def [of cs methodID pl p "(fs, m)"] conn_Notify_at_def IH push_failures_def [of _ _ _ "sv_heap m ! p"] del: on_conn_fields(4))
qed simp

lemma GetUID_live_iff:
  assumes I: "srv_inv m"
  shows "mgr_GetUID u m = Some p \<longleftrightarrow>
      0 < u \<and> p < length (sv_heap m) \<and> \<not> cn_done (sv_heap m ! p) \<and> conn_UID (sv_heap m ! p) = u" (is "_ \<longleftrightarrow> ?R")
proof
  assume "mgr_GetUID u m = Some p"
  then obtain i where i: "map_of (mgr_byUID m) u = Some i" "map_of (mgr_connections m) i = Some p"
    by (auto simp: mgr_GetUID_def uid_entry_def split: if_splits)
  then show ?R using srv_invD(5) [OF I, of i p] srv_invD(6) [OF I, of u i] same_id_same_conn [OF I, of p] by metis
next
  assume ?R
  then have "map_of (mgr_byUID m) u = Some (cn_id (sv_heap m ! p))" "map_of (mgr_connections m) (cn_id (sv_heap m ! p)) = Some p"
    using srv_invD(5,6) [OF I] by blast+
  then show "mgr_GetUID u m = Some p" by (simp add: mgr_GetUID_def uid_entry_def)
qed

lemma uid_entry_taken:
  assumes I: "srv_inv m" and u: "0 < uid" and p: "mgr_Get i m = Some p"
  shows "uid_entry uid m \<noteq> [] \<and> uid_entry uid m \<noteq> i \<longleftrightarrow> (\<exists>q. mgr_GetUID uid m = Some q \<and> q \<noteq> p)"
proof (cases "mgr_GetUID uid m")
  case None
  have "map_of (mgr_byUID m) uid = None"
  proof (rule ccontr)
    assume "map_of (mgr_byUID m) uid \<noteq> None"
    then obtain j q where "q < length (sv_heap m)" "\<not> cn_done (sv_heap m ! q)" "conn_UID (sv_heap m ! q) = uid"
      using srv_invD(6) [OF I, of uid] by blast
    then show False using GetUID_live_iff [OF I, of uid q] None u by simp
  qed
  then show ?thesis using None by (simp add: uid_entry_def)
next
  case (Some q)
  then have q: "q < length (sv_heap m)" "\<not> cn_done (sv_heap m ! q)" "conn_UID (sv_heap m ! q) = uid"
    unfolding GetUID_live_iff [OF I] by blast+
  have "uid_entry uid m = cn_id (sv_heap m ! q)" using uid_entry_live [OF I q(1,2)] q u by simp
  moreover have "cn_id (sv_heap m ! q) \<noteq> []" using srv_invD(3) [OF I] q(1) by (metis image_eqI nth_mem)
  moreover have "p < length (sv_heap m)" "cn_id (sv_heap m ! p) = i" using p srv_invD(5) [OF I, of i p] by (auto simp: mgr_Get_def)
  ultimately show ?thesis using Some same_id_same_conn [OF I q(1), of p] by auto
qed

lemma Bind_moves:
  assumes I: "srv_inv m" and b: "mgr_Bind i uid data m = (e, m')" and u: "0 < uid" and g: "mgr_Get i m = Some p"
    and free: "\<not> (uid_entry uid m \<noteq> [] \<and> uid_entry uid m \<noteq> i)"
  shows "e = None \<and> mgr_GetUID uid m' = Some p \<and>
       (\<forall>w. w \<noteq> uid \<longrightarrow> mgr_GetUID w m' = (if mgr_GetUID w m = Some p then None else mgr_GetUID w m)) \<and>
       cn_session (sv_heap m' ! p) = (cn_session (sv_heap m ! p))\<lparr>Uid := uid, Data := Some (case data of None \<Rightarrow> [] | Some d \<Rightarrow> d)\<rparr>"
proof -
  have I': "srv_inv m'" using mgr_Bind_inv [OF I, of i uid data] b by simp
  have e: "e = None" and h: "sv_heap m' = (sv_heap m)[p := conn_bind uid data (sv_heap m ! p)]"
    using b u g free by (auto simp: mgr_Bind_def mgr_Get_def Let_def)
  have p: "p < length (sv_heap m)" "\<not> cn_done (sv_heap m ! p)" using g srv_invD(5) [OF I, of i p] by (auto simp: mgr_Get_def)
  note G = GetUID_live_iff [OF I] and G' = GetUID_live_iff [OF I']
  have "mgr_GetUID uid m' = Some p" unfolding G' using p u by (simp add: h)
  moreover have "mgr_GetUID w m' = (if mgr_GetUID w m = Some p then None else mgr_GetUID w m)" if w: "w \<noteq> uid" for w
  proof -
    have eq: "mgr_GetUID w m' = Some q \<longleftrightarrow> q \<noteq> p \<and> mgr_GetUID w m = Some q" for q
      unfolding G G' using p w by (cases "q = p") (auto simp: h)
    show ?thesis
    proof (cases "mgr_GetUID w m = Some p")
      case True
      then have "mgr_GetUID w m' \<noteq> Some q" for q using eq [of q] by auto
      then show ?thesis using True by (cases "mgr_GetUID w m'") auto
    next
      case False
      then have "mgr_GetUID w m' = Some q \<longleftrightarrow> mgr_GetUID w m = Some q" for q using eq [of q] by auto
      then have "mgr_GetUID w m' = mgr_GetUID w m" by (cases "mgr_GetUID w m"; cases "mgr_GetUID w m'") auto
      then show ?thesis using False by simp
    qed
  qed
  moreover have "cn_session (sv_heap m' ! p) = (cn_session (sv_heap m ! p))\<lparr>Uid := uid, Data := Some (case data of None \<Rightarrow> [] | Some d \<Rightarrow> d)\<rparr>"
    using p by (simp add: h conn_bind_def)
  ultimately show ?thesis using e by simp
qed

section \<open>Properties\<close>


text \<open>A server with two connections, the first one ready and bound to user 9.\<close>

definition demo_server :: Server where
  "demo_server = (snd (comp_Bind ''c1'' 9 None (on_conn 0 (run_turn demo_wire demo_control 0 (Inr [1]))
     (HandleConn ''c2'' ''ip'' (HandleConn ''c1'' ''ip'' (comp_New []))))))"

lemma demo_server_reach: "sreach (app_registry identity_codecs) (component_options []) demo_server"
proof -
  let ?R = "sreach (app_registry identity_codecs) (component_options [])" and ?m0 = "comp_New []"
  let ?m1 = "HandleConn ''c1'' ''ip'' ?m0" and ?m2 = "HandleConn ''c2'' ''ip'' (HandleConn ''c1'' ''ip'' ?m0)"
  have d: "sv_accepting ?m0 \<and> sv_heap ?m0 = []" "sv_accepting ?m1 \<and> ''c2'' \<notin> set (map cn_id (sv_heap ?m1))"
    "length (sv_heap ?m2) = 2 \<and> \<not> cn_done (sv_heap ?m2 ! 0)" by code_simp+
  have "''c2'' \<notin> cn_id ` set (sv_heap ?m1)" using d(2) unfolding set_map by blast
  moreover have "?R ?m0" unfolding comp_New_def by (rule sreach_init)
  then have "?R ?m1" using d(1) by (intro sreach_step [OF _ accept_step]) auto
  ultimately have "?R ?m2" using d(2) by (intro sreach_step [OF _ accept_step, of _ _ ?m1]) auto
  then have "?R (on_conn 0 (run_turn demo_wire demo_control 0 (Inr [1])) ?m2)"
    using d(3) by (intro sreach_step [OF _ conn_step [OF _ io_read]]) auto
  then show ?thesis unfolding demo_server_def by (rule sreach_step [OF _ bindUID_step])
qed


text \<open>
  What \<open>Bind\<close> answers. A user number that is not positive, an unknown connection, and a user that another
  live connection holds are refused with their errors, and nothing changes. Otherwise the user is found at
  this connection, the user it held before is not found any more (unless it is the same), every other user
  is found where it was, and the session of the connection carries the user and exactly the given data.
\<close>

theorem Bind_answers:
  assumes reach: "sreach (cs :: 'v Registry) opts m" and b: "comp_Bind i uid data m = (e, m')"
  shows "(uid \<le> 0 \<longrightarrow> e = Some UidNotPositive) \<and>
    (0 < uid \<and> mgr_Get i m = None \<longrightarrow> e = Some (ConnNotFound i)) \<and>
    (0 < uid \<and> (\<exists>p. mgr_Get i m = Some p \<and> (\<exists>q. mgr_GetUID uid m = Some q \<and> q \<noteq> p)) \<longrightarrow> e = Some (UidTaken uid)) \<and>
    (e \<noteq> None \<longrightarrow> m' = m) \<and>
    (\<forall>p. 0 < uid \<and> mgr_Get i m = Some p \<and> mgr_GetUID uid m \<in> {None, Some p} \<longrightarrow>
       e = None \<and> mgr_GetUID uid m' = Some p \<and>
       (\<forall>u. u \<noteq> uid \<longrightarrow> mgr_GetUID u m' = (if mgr_GetUID u m = Some p then None else mgr_GetUID u m)) \<and>
       cn_session (sv_heap m' ! p) = (cn_session (sv_heap m ! p))\<lparr>Uid := uid, Data := Some (case data of None \<Rightarrow> [] | Some d \<Rightarrow> d)\<rparr>)"
proof -
  have I: "srv_inv m" using reach by (rule sreach_inv)
  have e: "mgr_Bind i uid data m = (e, m')" using b by (simp add: comp_Bind_def)
  have I': "srv_inv m'" using mgr_Bind_inv [OF I, of i uid data] e by simp
  note G = GetUID_live_iff [OF I] and G' = GetUID_live_iff [OF I']
  have taken: "uid_entry uid m \<noteq> [] \<and> uid_entry uid m \<noteq> i \<longleftrightarrow> (\<exists>q. mgr_GetUID uid m = Some q \<and> q \<noteq> p)"
    if "0 < uid" "mgr_Get i m = Some p" for p
    using uid_entry_taken [OF I that] .
  have ok: "e = None \<and> mgr_GetUID uid m' = Some p \<and>
       (\<forall>u. u \<noteq> uid \<longrightarrow> mgr_GetUID u m' = (if mgr_GetUID u m = Some p then None else mgr_GetUID u m)) \<and>
       cn_session (sv_heap m' ! p) = (cn_session (sv_heap m ! p))\<lparr>Uid := uid, Data := Some (case data of None \<Rightarrow> [] | Some d \<Rightarrow> d)\<rparr>"
    if u: "0 < uid" and g: "mgr_Get i m = Some p" and free: "mgr_GetUID uid m \<in> {None, Some p}" for p
    using Bind_moves [OF I e u g] free taken [OF u g] by auto
  have "e \<noteq> None \<longrightarrow> m' = m"
    using e by (auto simp: mgr_Bind_def Let_def split: if_splits option.splits)
  moreover have "uid \<le> 0 \<longrightarrow> e = Some UidNotPositive" "0 < uid \<and> mgr_Get i m = None \<longrightarrow> e = Some (ConnNotFound i)"
    using e by (auto simp: mgr_Bind_def mgr_Get_def)
  moreover have "0 < uid \<and> mgr_Get i m = Some p \<and> (\<exists>q. mgr_GetUID uid m = Some q \<and> q \<noteq> p) \<longrightarrow> e = Some (UidTaken uid)" for p
    using taken [of p] e by (auto simp: mgr_Bind_def mgr_Get_def Let_def)
  ultimately show ?thesis using ok by blast
qed

theorem Bind_answers_witness:
  "fst (comp_Bind ''c2'' 9 None demo_server) = Some (UidTaken 9) \<and> snd (comp_Bind ''c2'' 9 None demo_server) = demo_server"
proof -
  have "0 < (9 :: int)" "mgr_Get ''c2'' demo_server = Some 1 \<and> mgr_GetUID 9 demo_server = Some 0 \<and> (0 :: nat) \<noteq> 1"
    by simp (code_simp)
  then show ?thesis
    using Bind_answers [OF demo_server_reach, of "''c2''" 9 None "fst (comp_Bind ''c2'' 9 None demo_server)"
        "snd (comp_Bind ''c2'' 9 None demo_server)"] by (metis option.distinct(1) prod.collapse)
qed

text \<open>
  Pushes reach exactly their targets. \<open>NotifyUID\<close> runs the notification on the connection of that user
  and touches no other; \<open>Broadcast\<close> runs it once on every live connection and on no other, and reports
  exactly the connections that refused it, each with its own error; one refusal does not stop the others.
  A ready connection with room takes an application notification with exactly one packet.
\<close>

theorem pushes_exact:
  assumes reach: "sreach (cs :: 'v Registry) opts m" and p: "p < length (sv_heap m)"
  shows "sv_heap (snd (Broadcast cs methodID pl m)) ! p =
      (if cn_done (sv_heap m ! p) then sv_heap m ! p else snd (conn_Notify cs methodID pl (sv_heap m ! p))) \<and>
    set (fst (Broadcast cs methodID pl m)) =
      {(i, e). \<exists>q. mgr_Get i m = Some q \<and> fst (conn_Notify cs methodID pl (sv_heap m ! q)) = Some e} \<and>
    sv_heap (snd (NotifyUID cs uid methodID pl m)) ! p =
      (if 0 < uid \<and> \<not> cn_done (sv_heap m ! p) \<and> conn_UID (sv_heap m ! p) = uid
       then snd (conn_Notify cs methodID pl (sv_heap m ! p)) else sv_heap m ! p) \<and>
    (cn_state (sv_heap m ! p) = ConnectionReady \<and> SystemMethodKick < methodID \<and>
     int (length (cn_writeCh (sv_heap m ! p))) < WriteQueueSize (sv_options m) \<and>
     reg_Marshal cs (reg_Default cs) pl = Inr body \<longrightarrow>
       conn_Notify cs methodID pl (sv_heap m ! p) =
         (None, (sv_heap m ! p)\<lparr>cn_writeCh := cn_writeCh (sv_heap m ! p) @ [notifyPacket methodID body (reg_Default cs)]\<rparr>))"
proof -
  have I: "srv_inv m" using reach by (rule sreach_inv)
  have ps: "distinct (Snapshot m)" "\<forall>q \<in> set (Snapshot m). q < length (sv_heap m)" using Snapshot_live [OF I] by auto
  have "sv_heap (snd (Broadcast cs methodID pl m)) ! p =
      (if cn_done (sv_heap m ! p) then sv_heap m ! p else snd (conn_Notify cs methodID pl (sv_heap m ! p)))"
    unfolding Broadcast_snd fold_on_conn_heap(3) [OF ps] using Snapshot_live(1) [OF I] p by simp
  moreover have "set (fst (Broadcast cs methodID pl m)) =
      {(i, e). \<exists>q. mgr_Get i m = Some q \<and> fst (conn_Notify cs methodID pl (sv_heap m ! q)) = Some e}" (is "_ = ?S")
  proof -
    have "set (fst (Broadcast cs methodID pl m)) =
        (\<Union>q \<in> set (Snapshot m). set (push_failures cs methodID pl (sv_heap m ! q)))"
      by (simp add: Broadcast_def mgr_Range_def Broadcast_failures [OF ps])
    also have "\<dots> = {(i, e). \<exists>q. q \<in> set (Snapshot m) \<and> i = cn_id (sv_heap m ! q) \<and>
        fst (conn_Notify cs methodID pl (sv_heap m ! q)) = Some e}"
      by (auto simp: push_failures_def split: option.splits)
    also have "\<dots> = ?S" unfolding Snapshot_live(1) [OF I] mgr_Get_def srv_invD(5) [OF I] by blast
    finally show ?thesis .
  qed
  moreover have "sv_heap (snd (NotifyUID cs uid methodID pl m)) ! p =
      (if 0 < uid \<and> \<not> cn_done (sv_heap m ! p) \<and> conn_UID (sv_heap m ! p) = uid
       then snd (conn_Notify cs methodID pl (sv_heap m ! p)) else sv_heap m ! p)"
  proof (cases "mgr_GetUID uid m")
    case None
    then show ?thesis using GetUID_live_iff [OF I, of uid p] p by (auto simp: NotifyUID_def)
  next
    case (Some q)
    then have q: "0 < uid" "q < length (sv_heap m)" "\<not> cn_done (sv_heap m ! q)" "conn_UID (sv_heap m ! q) = uid"
      unfolding GetUID_live_iff [OF I] by blast+
    show ?thesis
    proof (cases "q = p")
      case True
      then show ?thesis using Some q by (simp add: NotifyUID_def conn_Notify_at_def)
    next
      case False
      then have "\<not> (\<not> cn_done (sv_heap m ! p) \<and> conn_UID (sv_heap m ! p) = uid)"
        using same_uid_same_conn [OF I q(2) p q(3)] q by auto
      then show ?thesis using Some False by (auto simp: NotifyUID_def conn_Notify_at_def)
    qed
  qed
  moreover have "conn_Notify cs methodID pl (sv_heap m ! p) =
         (None, (sv_heap m ! p)\<lparr>cn_writeCh := cn_writeCh (sv_heap m ! p) @ [notifyPacket methodID body (reg_Default cs)]\<rparr>)"
    if "cn_state (sv_heap m ! p) = ConnectionReady" "SystemMethodKick < methodID"
     "int (length (cn_writeCh (sv_heap m ! p))) < WriteQueueSize (sv_options m)" "reg_Marshal cs (reg_Default cs) pl = Inr body"
    using that srv_invD(4) [OF I p] by (auto simp: conn_Notify_def conn_send_def enqueue_def conn_inv_def)
  ultimately show ?thesis by blast
qed

theorem pushes_exact_witness:
  "fst (Broadcast (app_registry identity_codecs) 100 (PBytes [1]) demo_server) = [(''c2'', ConnNotReady)] \<and>
   length (cn_writeCh (sv_heap (snd (Broadcast (app_registry identity_codecs) 100 (PBytes [1]) demo_server)) ! 0)) =
     Suc (length (cn_writeCh (sv_heap demo_server ! 0)))"
proof -
  let ?cs = "app_registry identity_codecs" and ?b = "PBytes [1] :: byte list payload"
  have l: "0 < length (sv_heap demo_server)" and f: "fst (Broadcast ?cs 100 ?b demo_server) = [(''c2'', ConnNotReady)]"
    and s: "\<not> cn_done (sv_heap demo_server ! 0) \<and> cn_state (sv_heap demo_server ! 0) = ConnectionReady \<and> SystemMethodKick < 100 \<and>
      int (length (cn_writeCh (sv_heap demo_server ! 0))) < WriteQueueSize (sv_options demo_server)"
    and b: "reg_Marshal ?cs (reg_Default ?cs) ?b = Inr [1]" by code_simp+
  from pushes_exact [OF demo_server_reach l, of 100 ?b 9 "[1]"] s b f show ?thesis by auto
qed

lemma on_conn_disconnects: "set (sv_disconnects m) \<subseteq> set (sv_disconnects (on_conn p f m))"
  by (auto simp: on_conn_def Let_def)

lemma mgr_Bind_disconnects: "sv_disconnects (snd (mgr_Bind i uid data m)) = sv_disconnects m"
  by (auto simp: mgr_Bind_def Let_def split: option.splits)

lemma fold_disconnects: "set (sv_disconnects n) \<subseteq> set (sv_disconnects (fold (\<lambda>p. on_conn p f) ps n))"
proof (induction ps arbitrary: n)
  case (Cons p ps)
  then show ?case using on_conn_disconnects [of n p f] Cons.IH [of "on_conn p f n"] by auto
qed simp

lemma heap_change_disconnects: "heap_change cs m m' \<Longrightarrow> set (sv_disconnects m) \<subseteq> set (sv_disconnects m')"
proof (induction rule: heap_change.induct)
  case (change_conns ps m f b)
  then show ?case using fold_disconnects [of "m\<lparr>sv_accepting := b \<and> sv_accepting m\<rparr>" f ps] by simp
qed (simp_all add: HandleConn_def mgr_Add_def Let_def mgr_Bind_disconnects on_conn_disconnects)

lemma heap_change_grows:
  assumes "heap_change cs m m'" "srv_inv m"
  shows "length (sv_heap m) \<le> length (sv_heap m')"
    and "\<not> sv_accepting m \<Longrightarrow> \<not> sv_accepting m' \<and> length (sv_heap m') = length (sv_heap m)"
    and "p < length (sv_heap m) \<Longrightarrow> cn_done (sv_heap m ! p) \<Longrightarrow> cn_done (sv_heap m' ! p)"
proof -
  have dn: "cn_done (sv_heap m' ! p)" if "p < length (sv_heap m)" "cn_done (sv_heap m ! p)"
  proof -
    from that have "p \<in> set (sv_disconnects m)" using srv_invD(8) [OF assms(2)] by blast
    moreover note heap_change_disconnects [OF assms(1)]
    ultimately show ?thesis using srv_invD(8) [OF heap_change_inv [OF assms]] by blast
  qed
  then show "p < length (sv_heap m) \<Longrightarrow> cn_done (sv_heap m ! p) \<Longrightarrow> cn_done (sv_heap m' ! p)" .
  have len: "length (sv_heap m) \<le> length (sv_heap m') \<and>
      (\<not> sv_accepting m \<longrightarrow> \<not> sv_accepting m' \<and> length (sv_heap m') = length (sv_heap m))"
    using assms(1)
    by cases (auto simp: HandleConn_def mgr_Add_def Let_def mgr_Bind_def fold_on_conn_length split: option.splits if_splits)
  then show "length (sv_heap m) \<le> length (sv_heap m')"
    "\<not> sv_accepting m \<Longrightarrow> \<not> sv_accepting m' \<and> length (sv_heap m') = length (sv_heap m)" by blast+
qed

lemma srun_keeps:
  assumes "(sstep cs)\<^sup>*\<^sup>* m m'" "srv_inv m" "\<not> sv_accepting m"
  shows "srv_inv m' \<and> \<not> sv_accepting m' \<and> length (sv_heap m') = length (sv_heap m) \<and>
    (\<forall>p < length (sv_heap m). cn_done (sv_heap m ! p) \<longrightarrow> cn_done (sv_heap m' ! p))"
  using assms
proof (induction rule: rtranclp_induct)
  case (step m1 m2)
  then have I: "srv_inv m1" "\<not> sv_accepting m1" "length (sv_heap m1) = length (sv_heap m)"
    "\<forall>p < length (sv_heap m). cn_done (sv_heap m ! p) \<longrightarrow> cn_done (sv_heap m1 ! p)" by blast+
  have c: "heap_change cs m1 m2" using sstep_change [OF step.hyps(2) I(1)] .
  show ?case using heap_change_inv [OF c I(1)] heap_change_grows [OF c I(1)] I by auto
qed simp

lemma Count_all_closed:
  assumes I: "srv_inv m" and "\<forall>p < length (sv_heap m). cn_done (sv_heap m ! p)"
  shows "mgr_Count m = 0"
proof -
  have "p \<notin> set (Snapshot m)" for p using Snapshot_live(1) [OF I, of p] assms(2) by blast
  then have "Snapshot m = []" by (metis list.set_intros(1) neq_Nil_conv)
  then show ?thesis by (simp add: mgr_Count_def Snapshot_def)
qed

lemma fold_on_conn_done:
  assumes "\<forall>p \<in> set ps. p < length (sv_heap m)" "q < length (sv_heap m)" "cn_done (sv_heap m ! q) \<or> q \<in> set ps"
  shows "cn_done (sv_heap (fold (\<lambda>p. on_conn p conn_Close) ps m) ! q)"
  using assms by (induction ps arbitrary: m) (auto simp: nth_list_update)

lemma GoAway_drains:
  "conn_inv opts i c \<Longrightarrow> \<not> cn_done c \<Longrightarrow> cn_state (snd (GoAway_begin cw code retry c)) = ConnectionDraining"
  by (auto simp: GoAway_begin_def enqueue_def conn_inv_def Let_def split: option.splits)

text \<open>
  C29. Shutdown leaves nothing behind. \<open>OnBeforeStop\<close> refuses new connections and puts every live connection
  into the draining state; whatever the connections and the application do until it closes the snapshot,
  afterwards the manager is empty, every connection ever accepted is closed and ran its disconnect callback
  exactly once, and no later step brings a connection back.
\<close>

theorem shutdown_complete:
  assumes reach: "sreach (cs :: 'v Registry) opts m" and stop: "OnBeforeStop_begin cw m = (ps, m1)"
    and run: "(sstep cs)\<^sup>*\<^sup>* m1 m2"
  shows "(\<forall>p < length (sv_heap m). \<not> cn_done (sv_heap m ! p) \<longrightarrow> cn_state (sv_heap m1 ! p) = ConnectionDraining) \<and>
    mgr_Count (OnBeforeStop_end ps m2) = 0 \<and>
    (\<forall>p < length (sv_heap (OnBeforeStop_end ps m2)). cn_done (sv_heap (OnBeforeStop_end ps m2) ! p)) \<and>
    distinct (sv_disconnects (OnBeforeStop_end ps m2)) \<and>
    set (sv_disconnects (OnBeforeStop_end ps m2)) = {..<length (sv_heap m)} \<and>
    (\<forall>m4. (sstep cs)\<^sup>*\<^sup>* (OnBeforeStop_end ps m2) m4 \<longrightarrow> mgr_Count m4 = 0)"
proof -
  let ?m3 = "OnBeforeStop_end ps m2" and ?f = "snd \<circ> GoAway_begin cw 0 0"
  have I: "srv_inv m" using reach by (rule sreach_inv)
  have ps: "ps = Snapshot m" and m1: "m1 = fold (\<lambda>p. on_conn p ?f) ps (m\<lparr>sv_accepting := False\<rparr>)"
    using stop by (auto simp: OnBeforeStop_begin_def Let_def Snapshot_def)
  have live: "p \<in> set ps \<longleftrightarrow> p < length (sv_heap m) \<and> \<not> cn_done (sv_heap m ! p)" for p
    using Snapshot_live(1) [OF I] ps by simp
  have D: "distinct ps" "\<forall>p \<in> set ps. p < length (sv_heap (m\<lparr>sv_accepting := False\<rparr>))"
    using Snapshot_live(2) [OF I] ps live by auto
  have h1: "sv_heap m1 ! p = (if p \<in> set ps then ?f (sv_heap m ! p) else sv_heap m ! p)" for p
    unfolding m1 using fold_on_conn_heap(3) [OF D] by simp
  have drain: "cn_state (sv_heap m1 ! p) = ConnectionDraining" if "p < length (sv_heap m)" "\<not> cn_done (sv_heap m ! p)" for p
    using GoAway_drains [OF srv_invD(4) [OF I that(1)] that(2)] that by (simp add: h1 live)
  have I1: "srv_inv m1" "\<not> sv_accepting m1" "length (sv_heap m1) = length (sv_heap m)"
    unfolding m1 using fold_on_conn_inv [OF _ D(2) conn_ops(3)] I by (simp_all add: fold_on_conn_length)
  note K2 = srun_keeps [OF run I1(1,2)]
  have m3: "?m3 = fold (\<lambda>p. on_conn p conn_Close) ps m2" by (simp add: OnBeforeStop_end_def sv_Close_def [abs_def])
  have ps2: "\<forall>p \<in> set ps. p < length (sv_heap m2)" using live K2 I1(3) by auto
  have I3: "srv_inv ?m3" "\<not> sv_accepting ?m3" "length (sv_heap ?m3) = length (sv_heap m)"
    unfolding m3 using fold_on_conn_inv [OF _ ps2 conn_ops(4)] K2 I1(3) by (simp_all add: fold_on_conn_length)
  have closed: "cn_done (sv_heap ?m3 ! p)" if "p < length (sv_heap ?m3)" for p
  proof -
    have p: "p < length (sv_heap m)" using that I3(3) by simp
    have "cn_done (sv_heap m2 ! p) \<or> p \<in> set ps"
    proof (cases "p \<in> set ps")
      case False
      then have "cn_done (sv_heap m1 ! p)" using p by (simp add: h1 live)
      then show ?thesis using K2 p I1(3) by simp
    qed simp
    then show ?thesis unfolding m3 using fold_on_conn_done [OF ps2] p K2 I1(3) by simp
  qed
  have "mgr_Count m4 = 0" if r: "(sstep cs)\<^sup>*\<^sup>* ?m3 m4" for m4
    using srun_keeps [OF r I3(1,2)] closed by (intro Count_all_closed) auto
  then show ?thesis
    using drain closed I3 srv_invD(7,8) [OF I3(1)] by auto
qed

theorem shutdown_complete_witness:
  "length (fst (OnBeforeStop_begin demo_control demo_server)) = 2 \<and>
   mgr_Count (OnBeforeStop_end (fst (OnBeforeStop_begin demo_control demo_server))
     (snd (OnBeforeStop_begin demo_control demo_server))) = 0"
proof -
  have "length (fst (OnBeforeStop_begin demo_control demo_server)) = 2" by code_simp
  with shutdown_complete [OF demo_server_reach prod.collapse [symmetric] rtranclp.rtrancl_refl, of demo_control]
  show ?thesis by blast
qed

end
