(* ===== verification/Http_Handler.thy ===== *)
theory Http_Handler
  imports Method_Table
begin

text \<open>
  The HTTP transport of \<open>src/net/httpactor\<close>: \<open>handler.go\<close> and \<open>options.go\<close>. A request is what the handler
  reads of an \<open>http.Request\<close>; a response is what it writes. What \<open>Dispatch\<close> of the method table answers in
  the end is a parameter that threads the state of the application, as is the generated message
  \<open>HTTPError\<close>. The part of \<open>mime.ParseMediaType\<close> the handler uses is modelled on ASCII strings.
\<close>

section \<open>Options\<close>

record http_request =
  hr_Method :: string
  hr_Path :: string
  hr_Get :: "string \<Rightarrow> string"
  hr_Body :: "string + byte list"
  hr_Context :: gocontext

type_synonym Authenticator = "http_request \<Rightarrow> string + Session option"

record HttpOptions =
  ho_MaxBodySize :: int
  ho_DefaultTimeout :: int
  ho_MaxTimeout :: int
  ho_Authenticator :: "Authenticator option"
  ho_MetadataHeaders :: "string list"

definition http_defaultOptions :: HttpOptions where
  "http_defaultOptions =
     \<lparr>ho_MaxBodySize = 4194304, ho_DefaultTimeout = 3000000000, ho_MaxTimeout = 30000000000,
      ho_Authenticator = None, ho_MetadataHeaders = [''traceparent'', ''tracestate'', ''x-request-id'']\<rparr>"

datatype HttpOption =
    WithMaxBodySize int | WithTimeouts int int | WithAuthenticator "Authenticator option"
  | WithMetadataHeaders "string list"

fun apply_http_option :: "HttpOption \<Rightarrow> HttpOptions \<Rightarrow> HttpOptions" where
  "apply_http_option (WithMaxBodySize n) opts = (if n > 0 then opts\<lparr>ho_MaxBodySize := n\<rparr> else opts)"
| "apply_http_option (WithTimeouts d m) opts =
     (let opts = (if d > 0 then opts\<lparr>ho_DefaultTimeout := d\<rparr> else opts)
      in if m > 0 then opts\<lparr>ho_MaxTimeout := m\<rparr> else opts)"
| "apply_http_option (WithAuthenticator a) opts = opts\<lparr>ho_Authenticator := a\<rparr>"
| "apply_http_option (WithMetadataHeaders hs) opts = opts\<lparr>ho_MetadataHeaders := hs\<rparr>"

record Handler =
  hd_methods :: Table
  hd_options :: HttpOptions
  hd_requestID :: u32

text \<open>\<open>NewHandler\<close> panics without an application or a method table; a nil option is skipped.\<close>

definition NewHandler :: "Table option \<Rightarrow> HttpOption option list \<Rightarrow> Handler option" where
  "NewHandler app opts =
     (case app of
        None \<Rightarrow> None
      | Some methods \<Rightarrow>
          Some \<lparr>hd_methods = methods,
                hd_options = fold (\<lambda>opt o'. case opt of None \<Rightarrow> o' | Some f \<Rightarrow> apply_http_option f o') opts http_defaultOptions,
                hd_requestID = 0\<rparr>)"

section \<open>Media types\<close>

definition to_lower :: "string \<Rightarrow> string" where
  "to_lower s = map (\<lambda>c. let n = of_char c :: nat in if 65 \<le> n \<and> n \<le> 90 then char_of (n + 32) else c) s"

definition trim_left :: "string \<Rightarrow> string" where
  "trim_left s = dropWhile is_space s"

definition trim_space :: "string \<Rightarrow> string" where
  "trim_space s = rev (dropWhile is_space (rev (dropWhile is_space s)))"

definition isTSpecial :: "char \<Rightarrow> bool" where
  "isTSpecial c \<longleftrightarrow> of_char c \<in> set [40, 41, 60, 62, 64, 44, 59, 58, 92, 34, 47, 91, 93, 63, 61 :: nat]"

definition isTokenChar :: "char \<Rightarrow> bool" where
  "isTokenChar c \<longleftrightarrow> (let n = of_char c :: nat in 32 < n \<and> n < 127 \<and> \<not> isTSpecial c)"

definition consumeToken :: "string \<Rightarrow> string \<times> string" where
  "consumeToken v = (takeWhile isTokenChar v, dropWhile isTokenChar v)"

definition QUOTE :: char where "QUOTE = char_of (34 :: nat)"
definition BACKSLASH :: char where "BACKSLASH = char_of (92 :: nat)"

text \<open>The loop of \<open>consumeValue\<close> after the opening quote: the value and what follows the closing quote.\<close>

fun quoted :: "string \<Rightarrow> string \<Rightarrow> (string \<times> string) option" where
  "quoted buf [] = None"
| "quoted buf (r # v) =
     (if r = QUOTE then Some (buf, v)
      else if r = BACKSLASH then
        (case v of
           x # v' \<Rightarrow> if isTSpecial x then quoted (buf @ [x]) v' else quoted (buf @ [r]) v
         | [] \<Rightarrow> quoted (buf @ [r]) v)
      else if (of_char r = (10 :: nat) \<or> of_char r = (13 :: nat)) then None
      else quoted (buf @ [r]) v)"

definition consumeValue :: "string \<Rightarrow> string \<times> string" where
  "consumeValue v =
     (case v of
        [] \<Rightarrow> ([], [])
      | c # rest \<Rightarrow>
          if c \<noteq> QUOTE then consumeToken v
          else (case quoted [] rest of None \<Rightarrow> ([], v) | Some r \<Rightarrow> r))"

text \<open>\<open>consumeMediaParam\<close>: key, value and rest, or no key.\<close>

definition consumeMediaParam :: "string \<Rightarrow> (string \<times> string \<times> string) option" where
  "consumeMediaParam v =
     (case trim_left v of
        [] \<Rightarrow> None
      | c # rest \<Rightarrow>
          if c \<noteq> CHR '';'' then None
          else (let (param, rest) = consumeToken (trim_left rest) in
                if param = [] then None
                else case trim_left rest of
                  [] \<Rightarrow> None
                | e # rest \<Rightarrow>
                    if e \<noteq> CHR ''='' then None
                    else (let rest = trim_left rest; (value, rest2) = consumeValue rest in
                          if value = [] \<and> rest2 = rest then None else Some (to_lower param, value, rest2))))"

definition checkMediaType :: "string \<Rightarrow> bool" where
  "checkMediaType s =
     (let (typ, rest) = consumeToken s in
      typ \<noteq> [] \<and>
      (case rest of
         [] \<Rightarrow> True
       | c # rest \<Rightarrow> c = CHR ''/'' \<and> (let (sub, rest) = consumeToken rest in sub \<noteq> [] \<and> rest = [])))"

text \<open>
  The parameters after the media type: a malformed one (a final semicolon apart) and a repeated name with
  another value are errors. Each round of the loop consumes input, so its length is fuel enough.
\<close>

fun media_params :: "nat \<Rightarrow> (string \<times> string) list \<Rightarrow> string \<Rightarrow> bool" where
  "media_params 0 seen v = True"
| "media_params (Suc n) seen v =
     (let v = trim_left v in
      if v = [] then True
      else case consumeMediaParam v of
        None \<Rightarrow> trim_space v = '';''
      | Some (key, value, rest) \<Rightarrow>
          if map_of seen key \<noteq> None \<and> map_of seen key \<noteq> Some value then False
          else media_params n ((key, value) # seen) rest)"

definition ParseMediaType :: "string \<Rightarrow> string option" where
  "ParseMediaType v =
     (let base = takeWhile (\<lambda>c. c \<noteq> CHR '';'') v; rest = dropWhile (\<lambda>c. c \<noteq> CHR '';'') v;
          mediatype = trim_space (to_lower base)
      in if checkMediaType mediatype \<and> media_params (length rest) [] rest then Some mediatype else None)"

definition ContentTypeJSON :: string where "ContentTypeJSON = ''application/json''"
definition ContentTypeProtobuf :: string where "ContentTypeProtobuf = ''application/x-protobuf''"

definition codecFromContentType :: "string \<Rightarrow> int option" where
  "codecFromContentType value =
     (case ParseMediaType value of
        None \<Rightarrow> None
      | Some mediaType \<Rightarrow>
          if to_lower mediaType = ContentTypeJSON then Some CodecJSON
          else if to_lower mediaType = ContentTypeProtobuf then Some CodecProtobuf
          else None)"

definition contentType :: "int \<Rightarrow> string" where
  "contentType codec = (if codec = CodecProtobuf then ContentTypeProtobuf else ContentTypeJSON)"

section \<open>The parts of a request\<close>

definition routePrefix :: string where "routePrefix = ''/actor/''"

definition methodIDFromPath :: "string \<Rightarrow> u32 option" where
  "methodIDFromPath path =
     (if take (length routePrefix) path \<noteq> routePrefix then None
      else (let value = drop (length routePrefix) path in
            if value = [] \<or> CHR ''/'' \<in> set value then None
            else case parse_uint 10 32 value of
              None \<Rightarrow> None
            | Some n \<Rightarrow> if n > unat SystemMethodKick then Some (of_nat n) else None))"

definition http_timeout :: "HttpOptions \<Rightarrow> http_request \<Rightarrow> int" where
  "http_timeout opts request =
     (let timeout = ho_DefaultTimeout opts;
          value = hr_Get request ''X-ActorGo-Timeout-Ms'';
          timeout = (if value = [] then timeout
                     else case parse_uint 10 32 value of
                       None \<Rightarrow> timeout
                     | Some ms \<Rightarrow> if ms > 0 then int ms * 1000000 else timeout)
      in if timeout > ho_MaxTimeout opts then ho_MaxTimeout opts else timeout)"

definition string_bytes :: "string \<Rightarrow> byte list" where
  "string_bytes s = map (\<lambda>c. of_nat (of_char c)) s"

definition http_metadata :: "HttpOptions \<Rightarrow> http_request \<Rightarrow> (string, byte list) gomap" where
  "http_metadata opts request =
     fold (\<lambda>header metadata.
             let value = hr_Get request header in
             if value \<noteq> [] then AList.update (to_lower header) (string_bytes value) metadata else metadata)
       (ho_MetadataHeaders opts) []"

definition authenticate :: "HttpOptions \<Rightarrow> http_request \<Rightarrow> string + Session option" where
  "authenticate opts request =
     (case ho_Authenticator opts of
        None \<Rightarrow> Inr None
      | Some auth \<Rightarrow>
          (case auth request of
             Inl e \<Rightarrow> Inl e
           | Inr None \<Rightarrow> Inr None
           | Inr (Some session) \<Rightarrow> Inr (Some (clone_session session))))"

text \<open>\<open>nextRequestID\<close> adds one until the number is not zero; the counter is atomic.\<close>

function nextRequestID :: "u32 \<Rightarrow> u32" where
  "nextRequestID c = (let i = c + 1 in if i \<noteq> 0 then i else nextRequestID i)"
  by auto
termination
  by (relation "measure (\<lambda>c. if c + 1 = 0 then 1 else 0)") auto

declare nextRequestID.simps [simp del]

definition readBody :: "int \<Rightarrow> string + byte list \<Rightarrow> byte list option" where
  "readBody limit body =
     (case body of
        Inl _ \<Rightarrow> None
      | Inr data \<Rightarrow> if int (length data) > max 0 limit then None else Some data)"

section \<open>Responses\<close>

record http_response =
  rp_Status :: int
  rp_Header :: "(string, string) gomap"
  rp_Body :: "byte list"

fun httpStatus_of :: "StatusCode \<Rightarrow> int" where
  "httpStatus_of STATUS_OK = 200"
| "httpStatus_of STATUS_CANCELLED = 499"
| "httpStatus_of STATUS_INVALID_ARGUMENT = 400"
| "httpStatus_of STATUS_DEADLINE_EXCEEDED = 504"
| "httpStatus_of STATUS_NOT_FOUND = 404"
| "httpStatus_of STATUS_ALREADY_EXISTS = 409"
| "httpStatus_of STATUS_ABORTED = 409"
| "httpStatus_of STATUS_PERMISSION_DENIED = 403"
| "httpStatus_of STATUS_UNAUTHENTICATED = 401"
| "httpStatus_of STATUS_RESOURCE_EXHAUSTED = 429"
| "httpStatus_of STATUS_FAILED_PRECONDITION = 412"
| "httpStatus_of STATUS_UNSUPPORTED_MEDIA = 415"
| "httpStatus_of STATUS_UNAVAILABLE = 503"
| "httpStatus_of STATUS_INTERNAL = 500"

definition all_status :: "StatusCode list" where
  "all_status = [STATUS_OK, STATUS_CANCELLED, STATUS_INVALID_ARGUMENT, STATUS_DEADLINE_EXCEEDED,
     STATUS_NOT_FOUND, STATUS_ALREADY_EXISTS, STATUS_PERMISSION_DENIED, STATUS_UNAUTHENTICATED,
     STATUS_RESOURCE_EXHAUSTED, STATUS_FAILED_PRECONDITION, STATUS_ABORTED, STATUS_INTERNAL,
     STATUS_UNAVAILABLE, STATUS_UNSUPPORTED_MEDIA]"

text \<open>Codes outside the enumeration take the default branch of the switch.\<close>

definition httpStatus :: "int \<Rightarrow> int" where
  "httpStatus code =
     (case find (\<lambda>s. status_number s = code) all_status of None \<Rightarrow> 500 | Some s \<Rightarrow> httpStatus_of s)"

definition HTTPError_type :: gotype where "HTTPError_type = TPtr 0 True"

text \<open>\<open>herr\<close> builds the generated message \<open>HTTPError\<close> from code, message and request number.\<close>

definition writeError ::
  "'v Registry \<Rightarrow> (int \<Rightarrow> string \<Rightarrow> string \<Rightarrow> 'v) \<Rightarrow> (string, string) gomap \<Rightarrow> int \<Rightarrow> int \<Rightarrow> string \<Rightarrow>
   'v InvokeResult option \<Rightarrow> http_response" where
  "writeError cs herr header codec statusCode requestID result =
     (let codec = (if codec \<noteq> CodecProtobuf then CodecJSON else codec);
          result = (case result of None \<Rightarrow> ErrorResult STATUS_INTERNAL ''missing invoke result'' | Some r \<Rightarrow> r);
          (body, codec) = (case reg_Marshal cs codec (PVal HTTPError_type (herr (Code result) (Message result) requestID)) of
                             Inl _ \<Rightarrow> (string_bytes ''{\"code\":11,\"message\":\"internal error\"}'', CodecJSON)
                           | Inr b \<Rightarrow> (b, codec));
          header = AList.update ''Content-Type'' (contentType codec) header;
          header = (if requestID \<noteq> [] then AList.update ''X-ActorGo-Request-ID'' requestID header else header)
      in \<lparr>rp_Status = statusCode, rp_Header = header, rp_Body = body\<rparr>)"

definition writeResult ::
  "'v Registry \<Rightarrow> (int \<Rightarrow> string \<Rightarrow> string \<Rightarrow> 'v) \<Rightarrow> int \<Rightarrow> string \<Rightarrow> RequestContext \<Rightarrow> 'v InvokeResult option \<Rightarrow>
   http_response" where
  "writeResult cs herr codec requestID ctx result =
     (let result = (case result of None \<Rightarrow> ErrorResult STATUS_INTERNAL ''method table returned nil result'' | Some r \<Rightarrow> r) in
      if Code result \<noteq> 0 then writeError cs herr [] codec (httpStatus (Code result)) requestID (Some result)
      else
        (case (case Payload result of
                 PNil \<Rightarrow> Inr []
               | PBytes encoded \<Rightarrow> Inr encoded
               | PVal t v \<Rightarrow> reg_Marshal cs (Codec ctx) (PVal t v)) of
           Inl _ \<Rightarrow> writeError cs herr [] codec 500 requestID (Some (ErrorResult STATUS_INTERNAL ''response body encode failed''))
         | Inr body \<Rightarrow>
             \<lparr>rp_Status = 200,
              rp_Header = AList.update ''X-ActorGo-Request-ID'' requestID [(''Content-Type'', contentType codec)],
              rp_Body = body\<rparr>))"

section \<open>Serving a request\<close>

type_synonym ('s, 'v) dispatch_fn =
  "RequestContext \<Rightarrow> u32 \<Rightarrow> byte list \<Rightarrow> MsgType \<Rightarrow> 's \<Rightarrow> 'v InvokeResult option \<times> 's"

definition http_context :: "int \<Rightarrow> HttpOptions \<Rightarrow> http_request \<Rightarrow> u32 \<Rightarrow> int \<Rightarrow> Session option \<Rightarrow> RequestContext" where
  "http_context now opts request requestID codec session =
     (NewRequestContext (Some (WithTimeout now (hr_Context request) (http_timeout opts request))))
       \<lparr>RequestID := requestID, Transport := TransportHTTP, Codec := codec, rc_Session := session,
        Metadata := Some (http_metadata opts request)\<rparr>"

definition ServeHTTP ::
  "'v Registry \<Rightarrow> (int \<Rightarrow> string \<Rightarrow> string \<Rightarrow> 'v) \<Rightarrow> ('s, 'v) dispatch_fn \<Rightarrow> int \<Rightarrow> http_request \<Rightarrow>
   Handler \<times> 's \<Rightarrow> http_response \<times> Handler \<times> 's" where
  "ServeHTTP cs herr dispatch now request hs =
     (case hs of (h, s) \<Rightarrow>
      let err = (\<lambda>header codec status rid code msg. writeError cs herr header codec status rid (Some (ErrorResult code msg))) in
      if hr_Method request \<noteq> ''POST'' then
        (err [(''Allow'', ''POST'')] CodecJSON 405 [] STATUS_FAILED_PRECONDITION ''only POST is supported'', h, s)
      else case methodIDFromPath (hr_Path request) of
        None \<Rightarrow> (err [] CodecJSON 404 [] STATUS_NOT_FOUND ''actor method route not found'', h, s)
      | Some methodID \<Rightarrow>
      case tab_MsgType (Some (hd_methods h)) methodID of
        None \<Rightarrow> (err [] CodecJSON 404 [] STATUS_NOT_FOUND ''actor method not found'', h, s)
      | Some msgType \<Rightarrow>
      case codecFromContentType (hr_Get request ''Content-Type'') of
        None \<Rightarrow> (err [] CodecJSON 415 [] STATUS_INVALID_ARGUMENT
                   ''Content-Type must be application/json or application/x-protobuf'', h, s)
      | Some codec \<Rightarrow>
      let requestID = nextRequestID (hd_requestID h); requestIDText = fmt_nat 10 (unat requestID);
          h = h\<lparr>hd_requestID := requestID\<rparr>
      in case authenticate (hd_options h) request of
        Inl e \<Rightarrow> (err [] codec 401 requestIDText STATUS_UNAUTHENTICATED e, h, s)
      | Inr session \<Rightarrow>
      case readBody (ho_MaxBodySize (hd_options h)) (hr_Body request) of
        None \<Rightarrow> (err [] codec 413 requestIDText STATUS_RESOURCE_EXHAUSTED ''request body exceeds limit'', h, s)
      | Some body \<Rightarrow>
      let ctx = http_context now (hd_options h) request requestID codec session;
          (result, s) = dispatch ctx methodID body msgType s
      in if msgType = NOTIFY \<and> OK result then (\<lparr>rp_Status = 202, rp_Header = [], rp_Body = []\<rparr>, h, s)
         else (writeResult cs herr codec requestIDText ctx result, h, s))"

section \<open>Media parameters: the fuel is enough\<close>

lemma length_trim_left: "length (trim_left v) \<le> length v"
  by (simp add: trim_left_def length_dropWhile_le)

lemma length_consumeToken: "consumeToken v = (t, r) \<Longrightarrow> length r \<le> length v"
  by (auto simp: consumeToken_def length_dropWhile_le)

lemma length_quoted: "quoted buf v = Some (x, r) \<Longrightarrow> length r \<le> length v"
  by (induction buf v rule: quoted.induct) (auto split: if_splits list.splits)

lemma length_consumeValue: "consumeValue v = (x, r) \<Longrightarrow> length r \<le> length v"
  by (auto simp: consumeValue_def dest: length_consumeToken length_quoted split: list.splits if_splits option.splits)

lemma consumeMediaParam_shrinks:
  assumes "consumeMediaParam v = Some (k, x, r)"
  shows "length r < length v"
proof -
  obtain rest p q e r1 r2 where a: "trim_left v = CHR '';'' # rest" "consumeToken (trim_left rest) = (p, q)"
      "trim_left q = e # r1" "consumeValue (trim_left r1) = (x, r)"
    using assms by (auto simp: consumeMediaParam_def Let_def split: list.splits if_splits prod.splits)
  have "length r \<le> length r1" using length_consumeValue [OF a(4)] length_trim_left [of r1] by simp
  moreover have "length r1 < length q" using length_trim_left [of q] a(3) by simp
  moreover have "length q \<le> length rest" using length_consumeToken [OF a(2)] length_trim_left [of rest] by simp
  moreover have "length rest < length v" using length_trim_left [of v] a(1) by simp
  ultimately show ?thesis by simp
qed

lemma media_params_fuel: "length v \<le> n \<Longrightarrow> length v \<le> m \<Longrightarrow> media_params n seen v = media_params m seen v"
proof (induction n arbitrary: m seen v)
  case 0
  then show ?case by (cases m) (auto simp: trim_left_def)
next
  case (Suc n)
  show ?case
  proof (cases m)
    case 0
    then show ?thesis using Suc by (auto simp: trim_left_def)
  next
    case m: (Suc m')
    show ?thesis
    proof (cases "consumeMediaParam (trim_left v)")
      case (Some r)
      obtain k x rest where r: "r = (k, x, rest)" by (cases r)
      have "length rest < length v"
        using consumeMediaParam_shrinks [of "trim_left v"] Some r length_trim_left [of v] by fastforce
      then have "media_params n ((k, x) # seen) rest = media_params m' ((k, x) # seen) rest"
        using Suc m by simp
      then show ?thesis using Some r m by (simp add: Let_def)
    qed (simp add: m Let_def)
  qed
qed

lemma ParseMediaType_fuel:
  assumes "length v \<le> n"
  shows "ParseMediaType v =
     (let mediatype = trim_space (to_lower (takeWhile (\<lambda>c. c \<noteq> CHR '';'') v))
      in if checkMediaType mediatype \<and> media_params n [] (dropWhile (\<lambda>c. c \<noteq> CHR '';'') v) then Some mediatype else None)"
proof -
  let ?r = "dropWhile (\<lambda>c. c \<noteq> CHR '';'') v"
  have "length ?r \<le> n" using length_dropWhile_le [of "\<lambda>c. c \<noteq> CHR '';''" v] assms by (rule order_trans)
  then have "media_params (length ?r) [] ?r = media_params n [] ?r" by (intro media_params_fuel order_refl)
  then show ?thesis by (simp only: ParseMediaType_def Let_def)
qed

section \<open>Properties\<close>

lemma methodIDFromPath_Some:
  assumes "methodIDFromPath p = Some m"
  shows "SystemMethodKick < m \<and> (\<exists>v. p = routePrefix @ v \<and> parse_uint 10 32 v = Some (unat m))"
proof -
  obtain n where n: "take (length routePrefix) p = routePrefix" "parse_uint 10 32 (drop (length routePrefix) p) = Some n"
      "unat SystemMethodKick < n" "m = of_nat n"
    using assms by (auto simp: methodIDFromPath_def Let_def split: if_splits option.splits)
  have "n < 2 ^ 32" using n(2) by (auto simp: parse_uint_def split: if_splits option.splits)
  then have u: "unat m = n" using n(4) by (simp add: unat_of_nat)
  have "p = routePrefix @ drop (length routePrefix) p" using n(1) by (metis append_take_drop_id)
  then show ?thesis using n u by (auto simp: word_less_nat_alt)
qed

lemma codecFromContentType_range: "codecFromContentType v = Some c \<Longrightarrow> c = CodecJSON \<or> c = CodecProtobuf"
  by (auto simp: codecFromContentType_def split: option.splits if_splits)

lemma nextRequestID_next: "nextRequestID c = (if c + 1 = 0 then 1 else c + 1)"
  by (subst nextRequestID.simps) (auto simp: Let_def nextRequestID.simps [of 0])

lemma nextRequestID_nonzero [simp]: "nextRequestID c \<noteq> 0"
  by (simp add: nextRequestID_next)

lemma writeError_status [simp]: "rp_Status (writeError cs herr hdr codec st rid r) = st"
  by (simp add: writeError_def Let_def split: prod.splits)

lemma http_context_fields [simp]:
  "RequestID (http_context now opts rq i c s) = i" "Transport (http_context now opts rq i c s) = TransportHTTP"
  "Codec (http_context now opts rq i c s) = c" "rc_Session (http_context now opts rq i c s) = s"
  "Metadata (http_context now opts rq i c s) = Some (http_metadata opts rq)"
  by (simp_all add: http_context_def)

lemma http_context_deadline:
  "\<exists>d. rc_Deadline (http_context now opts rq i c s) = Some d \<and> d \<le> now + ho_MaxTimeout opts"
proof -
  have "http_timeout opts rq \<le> ho_MaxTimeout opts" by (simp add: http_timeout_def Let_def)
  moreover obtain d where "cx_deadline (WithTimeout now (hr_Context rq) (http_timeout opts rq)) = Some d"
      "d \<le> now + http_timeout opts rq"
    unfolding WithTimeout_def using WithDeadline_deadline by blast
  ultimately show ?thesis by (simp add: http_context_def NewRequestContext_def rc_Deadline_def)
qed


text \<open>A handler with one registered request method, and a dispatch that counts its calls.\<close>

definition demo_handler :: Handler where
  "demo_handler = the (NewHandler (Some ((NewTable True)\<lparr>byID := [100 \<mapsto> \<lparr>rm_msgType = REQUEST, rm_target = ''n.a''\<rparr>]\<rparr>))
     [Some (WithMaxBodySize 3)])"

definition demo_post :: "string \<Rightarrow> byte list \<Rightarrow> http_request" where
  "demo_post path body = \<lparr>hr_Method = ''POST'', hr_Path = path,
     hr_Get = (\<lambda>k. if k = ''Content-Type'' then ''Application/JSON; charset=utf-8'' else []),
     hr_Body = Inr body, hr_Context = Background\<rparr>"

definition echo :: "(nat, byte list) dispatch_fn" where
  "echo ctx m body t n = (Some (OKResult (PBytes body)), Suc n)"

definition demo_serve :: "string \<Rightarrow> byte list \<Rightarrow> http_response \<times> Handler \<times> nat" where
  "demo_serve path body = ServeHTTP (app_registry identity_codecs) (\<lambda>_ _ _. []) echo 0 (demo_post path body) (demo_handler, 0)"


lemma httpStatus_range: "httpStatus c = 200 \<longleftrightarrow> c = 0" "c \<noteq> 0 \<Longrightarrow> 400 \<le> httpStatus c \<and> httpStatus c < 600"
proof -
  have all: "s \<in> set all_status" for s by (cases s) (simp_all add: all_status_def)
  have f: "find (\<lambda>s. status_number s = c) all_status = Some s \<Longrightarrow> status_number s = c" for s
    by (auto simp: find_Some_iff)
  have r: "s \<noteq> STATUS_OK \<Longrightarrow> 400 \<le> httpStatus_of s \<and> httpStatus_of s < 600" for s by (cases s) simp_all
  have z: "find (\<lambda>s. status_number s = 0) all_status = Some STATUS_OK" by (simp add: all_status_def)
  show "c \<noteq> 0 \<Longrightarrow> 400 \<le> httpStatus c \<and> httpStatus c < 600"
    using f r by (fastforce simp: httpStatus_def split: option.splits)
  then show "httpStatus c = 200 \<longleftrightarrow> c = 0" using z by (cases "c = 0") (auto simp: httpStatus_def)
qed

lemma writeError_header:
  "rid \<noteq> [] \<Longrightarrow> map_of (rp_Header (writeError cs herr hdr codec st rid r)) ''X-ActorGo-Request-ID'' = Some rid"
  by (simp add: writeError_def Let_def split: prod.splits)

lemma writeError_body:
  "reg_Marshal cs (if codec \<noteq> CodecProtobuf then CodecJSON else codec) (PVal HTTPError_type (herr (Code x) (Message x) rid)) = Inr b \<Longrightarrow>
   rp_Body (writeError cs herr hdr codec st rid (Some x)) = b"
  by (simp add: writeError_def Let_def split: prod.splits)

text \<open>
  What a client reads. The response has status 200 exactly when the invocation succeeded and its payload
  could be encoded; then the body is the payload, in the codec of the request. Any other outcome has a status
  between 400 and 599: the one of the status table for a failed invocation, with the code and the message in
  the body, and 500 for a missing result or an encoding failure. The request number is in the header.
\<close>

theorem http_reply:
  fixes cs :: "'v Registry"
  assumes "rid \<noteq> []"
  shows "let r = writeResult cs herr codec rid ctx result in
    (rp_Status r = 200 \<longleftrightarrow> (\<exists>x. result = Some x \<and> Code x = 0 \<and>
       (\<forall>t v. Payload x = PVal t v \<longrightarrow> (\<exists>b. reg_Marshal cs (Codec ctx) (PVal t v) = Inr b)))) \<and>
    (rp_Status r \<noteq> 200 \<longrightarrow> 400 \<le> rp_Status r \<and> rp_Status r < 600) \<and>
    map_of (rp_Header r) ''X-ActorGo-Request-ID'' = Some rid \<and>
    (\<forall>x b. result = Some x \<and> Code x = 0 \<and>
       (Payload x = PBytes b \<or> (\<exists>t v. Payload x = PVal t v \<and> reg_Marshal cs (Codec ctx) (PVal t v) = Inr b)) \<longrightarrow>
       rp_Body r = b \<and> map_of (rp_Header r) ''Content-Type'' = Some (contentType codec)) \<and>
    (\<forall>x. result = Some x \<and> Code x \<noteq> 0 \<longrightarrow> rp_Status r = httpStatus (Code x) \<and>
       (\<forall>b. reg_Marshal cs (if codec \<noteq> CodecProtobuf then CodecJSON else codec)
              (PVal HTTPError_type (herr (Code x) (Message x) rid)) = Inr b \<longrightarrow> rp_Body r = b)) \<and>
    (result = None \<longrightarrow> rp_Status r = 500)"
proof (cases result)
  case None
  have "httpStatus 11 = 500" by code_simp
  then show ?thesis using None assms by (simp add: writeResult_def writeError_header Let_def)
next
  case (Some x)
  show ?thesis
  proof (cases "Code x = 0")
    case False
    then show ?thesis using Some assms httpStatus_range [of "Code x"]
      by (auto simp: writeResult_def writeError_header Let_def intro: writeError_body)
  next
    case True
    show ?thesis
    proof (cases "Payload x")
      case (PVal t v)
      then show ?thesis using Some True assms
        by (cases "reg_Marshal cs (Codec ctx) (PVal t v)") (simp_all add: writeResult_def writeError_header Let_def)
    qed (use Some True in \<open>simp_all add: writeResult_def Let_def\<close>)
  qed
qed

theorem http_reply_witness:
  "rp_Status (writeResult (app_registry identity_codecs) (\<lambda>_ _ _. []) CodecJSON ''7'' (NewRequestContext None)
     (Some (ErrorResult STATUS_NOT_FOUND ''x''))) = 404"
  using http_reply [of "''7''" "app_registry identity_codecs" "\<lambda>_ _ _. []" CodecJSON "NewRequestContext None"
      "Some (ErrorResult STATUS_NOT_FOUND ''x'')"]
  by (simp add: Let_def httpStatus_def all_status_def)

lemma nextRequestID_uint:
  assumes "c \<noteq> 0"
  shows "uint (nextRequestID c) = uint c mod 4294967295 + 1"
proof (cases "c + 1 = 0")
  case True
  then have "c = - 1" by (simp add: add_eq_0_iff2)
  moreover have "uint (- 1 :: u32) = 4294967295" by code_simp
  ultimately show ?thesis by (simp add: nextRequestID_next)
next
  case False
  have "uint c < 2 ^ 32" using unsigned_less [of c, where 'a = int] by simp
  moreover have "uint c \<noteq> 4294967295"
  proof
    assume "uint c = 4294967295"
    then have "c = 4294967295" by (metis word_of_int_numeral word_of_int_uint)
    with False show False by simp
  qed
  ultimately have lt: "uint c < 4294967295" by simp
  then have "uint (c + 1) = uint c + 1" by (simp add: uint_word_ariths)
  moreover have "0 \<le> uint c" by simp
  ultimately show ?thesis using False lt by (simp add: nextRequestID_next)
qed

lemma nextRequestID_iter:
  assumes "c \<noteq> 0"
  shows "uint ((nextRequestID ^^ n) c) = (uint c - 1 + int n) mod 4294967295 + 1 \<and> (nextRequestID ^^ n) c \<noteq> 0"
proof (induction n)
  case 0
  have "uint c < 2 ^ 32" using unsigned_less [of c, where 'a = int] by simp
  moreover have "0 < uint c" using assms by (simp add: order_less_le unsigned_eq_0_iff)
  ultimately show ?case using assms by simp
next
  case (Suc n)
  have "uint ((nextRequestID ^^ Suc n) c) = ((uint c - 1 + int n) mod 4294967295 + 1) mod 4294967295 + 1"
    using nextRequestID_uint [of "(nextRequestID ^^ n) c"] Suc by simp
  also have "\<dots> = (uint c - 1 + int (Suc n)) mod 4294967295 + 1" by (simp add: mod_simps algebra_simps)
  finally show ?case by simp
qed

text \<open>
  Request numbers. However the 32-bit counter wraps, no request gets number zero, and any
  \<open>2^32 - 1\<close> consecutive requests get distinct numbers.
\<close>

theorem request_numbers:
  assumes "0 < i" "i < j" "j < i + 4294967295"
  shows "(nextRequestID ^^ i) c \<noteq> 0 \<and> (nextRequestID ^^ i) c \<noteq> (nextRequestID ^^ j) c"
proof -
  let ?d = "nextRequestID c"
  obtain i' j' where ij: "i = Suc i'" "j = Suc j'" using assms by (metis gr0_implies_Suc order_less_trans)
  have it: "(nextRequestID ^^ Suc n) c = (nextRequestID ^^ n) ?d" for n by (simp add: funpow_swap1)
  have "(nextRequestID ^^ i') ?d \<noteq> (nextRequestID ^^ j') ?d"
  proof
    assume "(nextRequestID ^^ i') ?d = (nextRequestID ^^ j') ?d"
    then have "(uint ?d - 1 + int i') mod 4294967295 = (uint ?d - 1 + int j') mod 4294967295"
      using nextRequestID_iter [of ?d i'] nextRequestID_iter [of ?d j'] by simp
    then have "4294967295 dvd (uint ?d - 1 + int j') - (uint ?d - 1 + int i')" by (metis mod_eq_dvd_iff)
    then have "(4294967295 :: int) dvd int j' - int i'" by simp
    then show False using assms ij zdvd_imp_le [of 4294967295 "int j' - int i'"] by linarith
  qed
  then show ?thesis using nextRequestID_iter [of ?d i'] by (simp only: ij it) simp
qed

theorem request_numbers_witness:
  "(nextRequestID ^^ 1) (- 1) \<noteq> 0 \<and> (nextRequestID ^^ 1) (- 1) \<noteq> (nextRequestID ^^ 3) (- 1)"
  using request_numbers [of 1 3 "- 1"] by simp

end
