(* ===== verification/Delay_Queue.thy ===== *)
theory Delay_Queue
  imports Go_Prelude "HOL-Library.Multiset"
begin

text \<open>
  The delay queue of \<open>src/extend/time_wheel/delay_queue.go\<close>: a priority queue on a slice, driven by the
  heap operations of Go's \<open>container/heap\<close>, and the protocol by which \<open>Offer\<close> wakes the polling goroutine.
  The locale \<open>timed_pq\<close> states what the polling loop relies on; it is interpreted on the slice heap.
\<close>

section \<open>The priority queue\<close>

record 'a item =
  it_Value :: 'a
  it_Priority :: int
  it_Index :: int

record 'a priorityQueue =
  pq_items :: "'a item list"
  pq_cap :: nat

definition newPriorityQueue :: "nat \<Rightarrow> 'a priorityQueue" where
  "newPriorityQueue capacity = \<lparr>pq_items = [], pq_cap = capacity\<rparr>"

definition pq_Len :: "'a priorityQueue \<Rightarrow> nat" where
  "pq_Len pq = length (pq_items pq)"

definition pq_Less :: "'a item list \<Rightarrow> nat \<Rightarrow> nat \<Rightarrow> bool" where
  "pq_Less xs i j \<longleftrightarrow> it_Priority (xs ! i) < it_Priority (xs ! j)"

definition pq_Swap :: "'a item list \<Rightarrow> nat \<Rightarrow> nat \<Rightarrow> 'a item list" where
  "pq_Swap xs i j = xs[i := (xs ! j)\<lparr>it_Index := int i\<rparr>, j := (xs ! i)\<lparr>it_Index := int j\<rparr>]"

text \<open>\<open>Push\<close> and \<open>Pop\<close> manage the capacity themselves; reslicing past it panics, which is no value.\<close>

definition pq_Push :: "'a item \<Rightarrow> 'a priorityQueue \<Rightarrow> 'a priorityQueue option" where
  "pq_Push x pq =
     (let n = length (pq_items pq);
          pq = (if n + 1 > pq_cap pq then pq\<lparr>pq_cap := pq_cap pq * 2\<rparr> else pq)
      in if n + 1 > pq_cap pq then None
         else Some (pq\<lparr>pq_items := pq_items pq @ [x\<lparr>it_Index := int n\<rparr>]\<rparr>))"

definition pq_Pop :: "'a priorityQueue \<Rightarrow> ('a item \<times> 'a priorityQueue) option" where
  "pq_Pop pq =
     (let n = length (pq_items pq); c = pq_cap pq;
          pq = (if n < c div 2 \<and> c > 25 then pq\<lparr>pq_cap := c div 2\<rparr> else pq)
      in if n = 0 then None
         else Some ((pq_items pq ! (n - 1))\<lparr>it_Index := - 1\<rparr>, pq\<lparr>pq_items := take (n - 1) (pq_items pq)\<rparr>))"

text \<open>\<open>container/heap\<close>: sift up and sift down return the final position.\<close>

function heap_up :: "'a item list \<Rightarrow> nat \<Rightarrow> 'a item list \<times> nat" where
  "heap_up xs j =
     (let i = (j - 1) div 2 in
      if i = j \<or> \<not> pq_Less xs j i then (xs, j) else heap_up (pq_Swap xs i j) i)"
  by auto
termination
  by (relation "measure snd") auto

function heap_down :: "'a item list \<Rightarrow> nat \<Rightarrow> nat \<Rightarrow> 'a item list \<times> nat" where
  "heap_down xs i n =
     (let j1 = 2 * i + 1 in
      if j1 \<ge> n then (xs, i)
      else (let j = (if j1 + 1 < n \<and> pq_Less xs (j1 + 1) j1 then j1 + 1 else j1) in
            if \<not> pq_Less xs j i then (xs, i) else heap_down (pq_Swap xs i j) j n))"
  by auto
termination
  by (relation "measure (\<lambda>(xs, i, n). n - i)") auto

declare heap_up.simps [simp del] heap_down.simps [simp del]

definition heap_Push :: "'a item \<Rightarrow> 'a priorityQueue \<Rightarrow> ('a priorityQueue \<times> nat) option" where
  "heap_Push x pq =
     (case pq_Push x pq of
        None \<Rightarrow> None
      | Some pq \<Rightarrow>
          (let (xs, j) = heap_up (pq_items pq) (pq_Len pq - 1) in Some (pq\<lparr>pq_items := xs\<rparr>, j)))"

definition heap_Remove :: "nat \<Rightarrow> 'a priorityQueue \<Rightarrow> ('a item \<times> 'a priorityQueue) option" where
  "heap_Remove i pq =
     (let n = pq_Len pq - 1;
          xs = (if n \<noteq> i
                then (let (xs, k) = heap_down (pq_Swap (pq_items pq) i n) i n
                      in if k > i then xs else fst (heap_up xs i))
                else pq_items pq)
      in pq_Pop (pq\<lparr>pq_items := xs\<rparr>))"

text \<open>\<open>PeekAndShift\<close>: the item, if one is due, and otherwise the time to the first one (zero when empty).\<close>

definition PeekAndShift :: "int \<Rightarrow> 'a priorityQueue \<Rightarrow> (('a item option \<times> int) \<times> 'a priorityQueue) option" where
  "PeekAndShift maxValue pq =
     (if pq_Len pq = 0 then Some ((None, 0), pq)
      else (let value = pq_items pq ! 0 in
            if it_Priority value > maxValue then Some ((None, it_Priority value - maxValue), pq)
            else case heap_Remove 0 pq of
              None \<Rightarrow> None
            | Some (_, pq) \<Rightarrow> Some ((Some value, 0), pq)))"

section \<open>Correctness of the heap\<close>

definition core :: "'a item \<Rightarrow> 'a \<times> int" where
  "core x = (it_Value x, it_Priority x)"

definition contents :: "'a priorityQueue \<Rightarrow> ('a \<times> int) multiset" where
  "contents pq = mset (map core (pq_items pq))"

definition heap_ordered :: "'a item list \<Rightarrow> nat \<Rightarrow> bool" where
  "heap_ordered xs n \<longleftrightarrow>
     (\<forall>k. 0 < k \<and> k < n \<longrightarrow> it_Priority (xs ! ((k - 1) div 2)) \<le> it_Priority (xs ! k))"

definition indexed :: "'a item list \<Rightarrow> bool" where
  "indexed xs \<longleftrightarrow> (\<forall>k < length xs. it_Index (xs ! k) = int k)"

definition pq_inv :: "'a priorityQueue \<Rightarrow> bool" where
  "pq_inv pq \<longleftrightarrow> heap_ordered (pq_items pq) (pq_Len pq) \<and> indexed (pq_items pq) \<and>
     pq_Len pq \<le> pq_cap pq \<and> 0 < pq_cap pq"

lemma length_Swap [simp]: "length (pq_Swap xs i j) = length xs"
  by (simp add: pq_Swap_def)

lemma prio_Swap:
  "i < length xs \<Longrightarrow> j < length xs \<Longrightarrow>
   it_Priority (pq_Swap xs i j ! k) =
     (if k = i then it_Priority (xs ! j) else if k = j then it_Priority (xs ! i) else it_Priority (xs ! k))"
  by (auto simp: pq_Swap_def nth_list_update)

lemma indexed_Swap: "indexed xs \<Longrightarrow> indexed (pq_Swap xs i j)"
  unfolding indexed_def
proof (intro allI impI)
  fix k assume "\<forall>k < length xs. it_Index (xs ! k) = int k" "k < length (pq_Swap xs i j)"
  then show "it_Index (pq_Swap xs i j ! k) = int k"
    by (cases "k = j"; cases "k = i") (auto simp: pq_Swap_def)
qed

lemma map_core_Swap:
  assumes "i < length xs" "j < length xs"
  shows "map core (pq_Swap xs i j) = (map core xs)[i := map core xs ! j, j := map core xs ! i]"
proof -
  have c: "core (x\<lparr>it_Index := y\<rparr>) = core x" for x :: "'a item" and y by (simp add: core_def)
  show ?thesis using assms by (simp add: pq_Swap_def map_update c)
qed

lemma mset_Swap: "i < length xs \<Longrightarrow> j < length xs \<Longrightarrow> mset (map core (pq_Swap xs i j)) = mset (map core xs)"
  by (simp only: map_core_Swap) (subst mset_swap; simp)

subsection \<open>Sift up\<close>

text \<open>A heap except that position \<open>j\<close> may be smaller than its parent.\<close>

definition up_ready :: "'a item list \<Rightarrow> nat \<Rightarrow> bool" where
  "up_ready xs j \<longleftrightarrow> j < length xs \<and>
     (\<forall>k. 0 < k \<and> k < length xs \<and> k \<noteq> j \<longrightarrow> it_Priority (xs ! ((k - 1) div 2)) \<le> it_Priority (xs ! k)) \<and>
     (\<forall>k. 0 < j \<and> 0 < k \<and> k < length xs \<and> (k - 1) div 2 = j \<longrightarrow>
        it_Priority (xs ! ((j - 1) div 2)) \<le> it_Priority (xs ! k))"

lemma up_ready_Swap:
  assumes "up_ready xs j" "0 < j" "pq_Less xs j ((j - 1) div 2)"
  shows "up_ready (pq_Swap xs ((j - 1) div 2) j) ((j - 1) div 2)"
proof -
  let ?i = "(j - 1) div 2"
  have ij: "?i < j" "j < length xs" "?i < length xs" using assms by (auto simp: up_ready_def)
  have lt: "it_Priority (xs ! j) < it_Priority (xs ! ?i)" using assms(3) by (simp add: pq_Less_def)
  have h: "it_Priority (xs ! ((k - 1) div 2)) \<le> it_Priority (xs ! k)" if "0 < k" "k < length xs" "k \<noteq> j" for k
    using assms(1) that by (simp add: up_ready_def)
  have g: "it_Priority (xs ! ?i) \<le> it_Priority (xs ! k)" if "0 < k" "k < length xs" "(k - 1) div 2 = j" for k
    using assms(1,2) that by (simp add: up_ready_def)
  have a: "it_Priority (pq_Swap xs ?i j ! ((k - 1) div 2)) \<le> it_Priority (pq_Swap xs ?i j ! k)"
    if k: "0 < k" "k < length xs" "k \<noteq> ?i" for k
  proof -
    consider "k = j" | "k \<noteq> j" "(k - 1) div 2 = j" | "k \<noteq> j" "(k - 1) div 2 = ?i" | "k \<noteq> j" "(k - 1) div 2 \<noteq> j" "(k - 1) div 2 \<noteq> ?i"
      by blast
    then show ?thesis
      using ij lt h [of k] g [of k] k by cases (auto simp: prio_Swap)
  qed
  have b: "it_Priority (pq_Swap xs ?i j ! ((?i - 1) div 2)) \<le> it_Priority (pq_Swap xs ?i j ! k)"
    if k: "0 < ?i" "0 < k" "k < length xs" "(k - 1) div 2 = ?i" for k
  proof -
    have p: "(?i - 1) div 2 \<noteq> ?i" "(?i - 1) div 2 \<noteq> j" using k(1) ij by auto
    have q: "it_Priority (xs ! ((?i - 1) div 2)) \<le> it_Priority (xs ! ?i)" using h [of ?i] k(1) ij by simp
    have ki: "k \<noteq> ?i" using k(4) p(1) by blast
    have "it_Priority (pq_Swap xs ?i j ! ((?i - 1) div 2)) = it_Priority (xs ! ((?i - 1) div 2))"
      unfolding prio_Swap [OF ij(3,2)] using p by (simp only: if_False)
    moreover have "it_Priority (pq_Swap xs ?i j ! k) = it_Priority (xs ! (if k = j then ?i else k))"
      unfolding prio_Swap [OF ij(3,2)] using ki by (simp only: if_False split: if_split) blast
    moreover have "it_Priority (xs ! ?i) \<le> it_Priority (xs ! (if k = j then ?i else k))"
      using h [OF k(2,3)] unfolding k(4) by (simp split: if_split)
    ultimately show ?thesis using q by linarith
  qed
  show ?thesis unfolding up_ready_def using ij(3) a b by simp
qed

lemma heap_up_props:
  assumes "up_ready xs j" "indexed xs"
  shows "heap_ordered (fst (heap_up xs j)) (length xs) \<and> indexed (fst (heap_up xs j)) \<and>
    length (fst (heap_up xs j)) = length xs \<and> mset (map core (fst (heap_up xs j))) = mset (map core xs) \<and>
    snd (heap_up xs j) \<le> j \<and> core (fst (heap_up xs j) ! snd (heap_up xs j)) = core (xs ! j)"
  using assms
proof (induction xs j rule: heap_up.induct)
  case (1 xs j)
  let ?i = "(j - 1) div 2"
  show ?case
  proof (cases "?i = j \<or> \<not> pq_Less xs j ?i")
    case True
    then have e: "heap_up xs j = (xs, j)" by (simp add: heap_up.simps [of xs j])
    have "it_Priority (xs ! ((k - 1) div 2)) \<le> it_Priority (xs ! k)" if "0 < k" "k < length xs" for k
      using "1.prems"(1) True that by (cases "k = j") (auto simp: up_ready_def pq_Less_def)
    with e "1.prems" show ?thesis by (simp add: heap_ordered_def)
  next
    case False
    then have j: "0 < j" "pq_Less xs j ?i" by auto
    have e: "heap_up xs j = heap_up (pq_Swap xs ?i j) ?i" using False by (simp add: heap_up.simps [of xs j] Let_def)
    have l: "j < length xs" "?i < length xs" using "1.prems"(1) by (auto simp: up_ready_def)
    have c: "core (pq_Swap xs ?i j ! ?i) = core (xs ! j)" using l j by (simp add: pq_Swap_def nth_list_update core_def)
    have le: "m \<le> j" if "m \<le> ?i" for m using that j(1) by linarith
    show ?thesis
      using le "1.IH" [OF refl False up_ready_Swap [OF "1.prems"(1) j] indexed_Swap [OF "1.prems"(2)]] l c mset_Swap [OF l(2,1)]
      unfolding e by auto
  qed
qed

subsection \<open>Sift down\<close>

text \<open>A heap on the first \<open>n\<close> positions except that position \<open>i\<close> may be larger than its children.\<close>

definition down_ready :: "'a item list \<Rightarrow> nat \<Rightarrow> nat \<Rightarrow> bool" where
  "down_ready xs i n \<longleftrightarrow> i < n \<and> n \<le> length xs \<and>
     (\<forall>k. 0 < k \<and> k < n \<and> (k - 1) div 2 \<noteq> i \<longrightarrow> it_Priority (xs ! ((k - 1) div 2)) \<le> it_Priority (xs ! k)) \<and>
     (\<forall>k. 0 < i \<and> 0 < k \<and> k < n \<and> (k - 1) div 2 = i \<longrightarrow>
        it_Priority (xs ! ((i - 1) div 2)) \<le> it_Priority (xs ! k))"

lemma child_cases: "0 < k \<Longrightarrow> (k - 1) div 2 = i \<Longrightarrow> k = 2 * i + 1 \<or> k = 2 * i + 2" for k i :: nat
  by linarith

text \<open>The smaller child of \<open>i\<close>.\<close>

definition small_child :: "'a item list \<Rightarrow> nat \<Rightarrow> nat \<Rightarrow> nat" where
  "small_child xs i n = (if 2 * i + 1 + 1 < n \<and> pq_Less xs (2 * i + 1 + 1) (2 * i + 1) then 2 * i + 1 + 1 else 2 * i + 1)"

lemma small_child:
  assumes "2 * i + 1 < n"
  shows "small_child xs i n < n" "0 < small_child xs i n" "(small_child xs i n - 1) div 2 = i" "i < small_child xs i n"
    and "0 < k \<Longrightarrow> k < n \<Longrightarrow> (k - 1) div 2 = i \<Longrightarrow> it_Priority (xs ! small_child xs i n) \<le> it_Priority (xs ! k)"
proof -
  show "small_child xs i n < n" "0 < small_child xs i n" "(small_child xs i n - 1) div 2 = i" "i < small_child xs i n"
    using assms by (auto simp: small_child_def)
  assume "0 < k" "k < n" "(k - 1) div 2 = i"
  with child_cases [of k i] show "it_Priority (xs ! small_child xs i n) \<le> it_Priority (xs ! k)"
    by (auto simp: small_child_def pq_Less_def)
qed

lemma heap_down_unfold:
  "heap_down xs i n =
     (if 2 * i + 1 \<ge> n \<or> \<not> pq_Less xs (small_child xs i n) i then (xs, i)
      else heap_down (pq_Swap xs i (small_child xs i n)) (small_child xs i n) n)"
  by (subst heap_down.simps) (simp add: small_child_def Let_def)

lemma down_ready_Swap:
  assumes "down_ready xs i n" "2 * i + 1 < n" "pq_Less xs (small_child xs i n) i"
  shows "down_ready (pq_Swap xs i (small_child xs i n)) (small_child xs i n) n"
proof -
  let ?j = "small_child xs i n" and ?ys = "pq_Swap xs i (small_child xs i n)"
  note sc = small_child [where xs = xs, OF assms(2)]
  have l: "i < length xs" "?j < length xs" "n \<le> length xs" using assms(1) sc by (auto simp: down_ready_def)
  have lt: "it_Priority (xs ! ?j) < it_Priority (xs ! i)" using assms(3) by (simp add: pq_Less_def)
  have h: "it_Priority (xs ! ((k - 1) div 2)) \<le> it_Priority (xs ! k)" if "0 < k" "k < n" "(k - 1) div 2 \<noteq> i" for k
    using assms(1) that by (simp add: down_ready_def)
  have g: "it_Priority (xs ! ((i - 1) div 2)) \<le> it_Priority (xs ! k)" if "0 < i" "0 < k" "k < n" "(k - 1) div 2 = i" for k
    using assms(1) that by (simp add: down_ready_def)
  have P: "it_Priority (?ys ! k) = (if k = i then it_Priority (xs ! ?j) else if k = ?j then it_Priority (xs ! i) else it_Priority (xs ! k))" for k
    by (rule prio_Swap [OF l(1,2)])
  have a: "it_Priority (?ys ! ((k - 1) div 2)) \<le> it_Priority (?ys ! k)" if k: "0 < k" "k < n" "(k - 1) div 2 \<noteq> ?j" for k
  proof -
    consider "(k - 1) div 2 = i" | "k = i" "(k - 1) div 2 \<noteq> i" | "k \<noteq> i" "(k - 1) div 2 \<noteq> i" by blast
    then show ?thesis
    proof cases
      case 1
      have "k \<noteq> i" using 1 k(1) by auto
      then show ?thesis using 1 sc(5) [OF k(1,2) 1] lt by (simp only: P if_True if_False) (simp split: if_split)
    next
      case 2
      then have "0 < i" using k by simp
      then have "it_Priority (xs ! ((i - 1) div 2)) \<le> it_Priority (xs ! ?j)" using g [of ?j] sc by blast
      then show ?thesis using 2 k(3) by (simp only: P refl if_True if_False)
    next
      case 3
      have "k \<noteq> ?j" using 3 sc(3) by blast
      then show ?thesis using 3 k h [OF k(1,2) 3(2)] by (simp only: P if_False)
    qed
  qed
  have b: "it_Priority (?ys ! ((?j - 1) div 2)) \<le> it_Priority (?ys ! k)" if k: "0 < k" "k < n" "(k - 1) div 2 = ?j" for k
  proof -
    have "k \<noteq> i" "k \<noteq> ?j" "(k - 1) div 2 \<noteq> i" using k sc(4) by auto
    then show ?thesis using h [OF k(1,2)] k(3) by (simp only: P sc(3) refl if_True if_False not_False_eq_True)
  qed
  show ?thesis unfolding down_ready_def using sc(1) l(3) a b by simp
qed

lemma heap_down_props:
  assumes "down_ready xs i n" "indexed xs"
  shows "heap_ordered (fst (heap_down xs i n)) n \<and> indexed (fst (heap_down xs i n)) \<and>
    length (fst (heap_down xs i n)) = length xs \<and> mset (map core (fst (heap_down xs i n))) = mset (map core xs) \<and>
    drop n (map core (fst (heap_down xs i n))) = drop n (map core xs)"
  using assms
proof (induction "n - i" arbitrary: xs i rule: less_induct)
  case less
  let ?j = "small_child xs i n"
  show ?case
  proof (cases "2 * i + 1 \<ge> n \<or> \<not> pq_Less xs ?j i")
    case True
    then have e: "heap_down xs i n = (xs, i)" by (simp add: heap_down_unfold [of xs i n])
    have "it_Priority (xs ! ((k - 1) div 2)) \<le> it_Priority (xs ! k)" if k: "0 < k" "k < n" for k
    proof (cases "(k - 1) div 2 = i")
      case c: True
      then have i: "2 * i + 1 < n" using child_cases [OF k(1) c] k(2) by auto
      then have "it_Priority (xs ! i) \<le> it_Priority (xs ! ?j)" using True by (simp add: pq_Less_def)
      then show ?thesis using small_child(5) [where xs = xs, OF i k(1,2) c] c by simp
    qed (use less.prems(1) k in \<open>simp add: down_ready_def\<close>)
    with e less.prems show ?thesis by (simp add: heap_ordered_def)
  next
    case False
    then have i: "2 * i + 1 < n" "pq_Less xs ?j i" by auto
    note sc = small_child [where xs = xs, OF i(1)]
    have l: "i < n" "n \<le> length xs" using less.prems(1) by (auto simp: down_ready_def)
    have e: "heap_down xs i n = heap_down (pq_Swap xs i ?j) ?j n" using False by (simp add: heap_down_unfold [of xs i n])
    have d: "drop n (map core (pq_Swap xs i ?j)) = drop n (map core xs)"
      using l sc(1) by (simp add: pq_Swap_def drop_map drop_update_cancel)
    have m: "mset (map core (pq_Swap xs i ?j)) = mset (map core xs)" using l sc(1) by (intro mset_Swap) auto
    have "n - ?j < n - i" using sc l by simp
    then show ?thesis
      using less.hyps [OF _ down_ready_Swap [OF less.prems(1) i] indexed_Swap [OF less.prems(2)]] d m unfolding e by simp
  qed
qed

section \<open>The queue as a timed priority queue\<close>

lemma heap_ordered_min:
  assumes "heap_ordered xs n" "k < n"
  shows "it_Priority (xs ! 0) \<le> it_Priority (xs ! k)"
  using assms(2)
proof (induction k rule: less_induct)
  case (less k)
  show ?case
  proof (cases "k = 0")
    case False
    then have "it_Priority (xs ! 0) \<le> it_Priority (xs ! ((k - 1) div 2))" using less by (intro less.IH) auto
    also have "\<dots> \<le> it_Priority (xs ! k)" using assms(1) less.prems False by (simp add: heap_ordered_def)
    finally show ?thesis .
  qed simp
qed

lemma pq_inv_new: "0 < c \<Longrightarrow> pq_inv (newPriorityQueue c) \<and> contents (newPriorityQueue c) = {#}"
  by (simp add: pq_inv_def newPriorityQueue_def contents_def pq_Len_def heap_ordered_def indexed_def)

lemma up_ready_append:
  assumes "heap_ordered xs (length xs)"
  shows "up_ready (xs @ [x]) (length xs)"
proof -
  have "it_Priority ((xs @ [x]) ! ((k - 1) div 2)) \<le> it_Priority ((xs @ [x]) ! k)"
    if "0 < k" "k < length (xs @ [x])" "k \<noteq> length xs" for k
  proof -
    have "(k - 1) div 2 < length xs" "k < length xs" using that by auto
    then show ?thesis using assms that by (simp add: heap_ordered_def nth_append)
  qed
  then show ?thesis by (auto simp: up_ready_def)
qed

lemma heap_Push_props:
  assumes "pq_inv pq"
  obtains pq' j where "heap_Push x pq = Some (pq', j)" "pq_inv pq'" "contents pq' = add_mset (core x) (contents pq)"
    "j < pq_Len pq'" "core (pq_items pq' ! j) = core x" "it_Index (pq_items pq' ! j) = int j"
proof -
  let ?xs = "pq_items pq" and ?x = "x\<lparr>it_Index := int (length (pq_items pq))\<rparr>"
  let ?c = "if length ?xs + 1 > pq_cap pq then pq_cap pq * 2 else pq_cap pq"
  let ?r = "heap_up (?xs @ [?x]) (length ?xs)"
  have i: "heap_ordered ?xs (length ?xs)" "indexed ?xs" "length ?xs \<le> pq_cap pq" "0 < pq_cap pq"
    using assms by (auto simp: pq_inv_def pq_Len_def)
  have c: "length ?xs + 1 \<le> ?c" using i(3,4) by auto
  have p: "pq_Push x pq = Some \<lparr>pq_items = ?xs @ [?x], pq_cap = ?c\<rparr>"
    using c by (simp add: pq_Push_def Let_def split: if_splits)
  have "indexed (?xs @ [?x])" using i(2) by (auto simp: indexed_def nth_append less_Suc_eq)
  note U = heap_up_props [OF up_ready_append [OF i(1), of ?x] this]
  have x: "core ?x = core x" by (simp add: core_def)
  have e: "heap_Push x pq = Some (\<lparr>pq_items = fst ?r, pq_cap = ?c\<rparr>, snd ?r)"
    by (simp add: heap_Push_def p pq_Len_def Let_def split: prod.split)
  have j: "snd ?r < length (fst ?r)" using U by (metis length_append_singleton le_imp_less_Suc)
  show thesis
  proof (rule that [OF e])
    show "pq_inv \<lparr>pq_items = fst ?r, pq_cap = ?c\<rparr>" using U c i(4) by (simp add: pq_inv_def pq_Len_def)
    show "contents \<lparr>pq_items = fst ?r, pq_cap = ?c\<rparr> = add_mset (core x) (contents pq)"
      using U x by (simp add: contents_def)
    show "snd ?r < pq_Len \<lparr>pq_items = fst ?r, pq_cap = ?c\<rparr>" using j by (simp add: pq_Len_def)
    show "core (pq_items \<lparr>pq_items = fst ?r, pq_cap = ?c\<rparr> ! snd ?r) = core x" using U x by simp
    show "it_Index (pq_items \<lparr>pq_items = fst ?r, pq_cap = ?c\<rparr> ! snd ?r) = int (snd ?r)"
      using U j by (simp add: indexed_def)
  qed
qed

lemma heap_up_0: "heap_up xs 0 = (xs, 0)"
  by (simp add: heap_up.simps)

lemma heap_ordered_take: "heap_ordered xs n \<Longrightarrow> heap_ordered (take n xs) n"
  by (auto simp: heap_ordered_def)

lemma down_ready_root:
  assumes "heap_ordered xs (length xs)" "1 < length xs"
  shows "down_ready (pq_Swap xs 0 (length xs - 1)) 0 (length xs - 1)"
proof -
  let ?n = "length xs - 1"
  have P: "it_Priority (pq_Swap xs 0 ?n ! k) =
      (if k = 0 then it_Priority (xs ! ?n) else if k = ?n then it_Priority (xs ! 0) else it_Priority (xs ! k))" for k
    using assms(2) by (intro prio_Swap) auto
  have "it_Priority (pq_Swap xs 0 ?n ! ((k - 1) div 2)) \<le> it_Priority (pq_Swap xs 0 ?n ! k)"
    if "0 < k" "k < ?n" "(k - 1) div 2 \<noteq> 0" for k
  proof -
    have "(k - 1) div 2 \<noteq> ?n" "k \<noteq> 0" "k \<noteq> ?n" "k < length xs" using that by auto
    then show ?thesis using assms(1) that by (simp only: P if_False) (simp add: heap_ordered_def)
  qed
  then show ?thesis using assms(2) by (auto simp: down_ready_def)
qed

lemma drop_eq_nth: "drop n xs = drop n ys \<Longrightarrow> n < length xs \<Longrightarrow> length ys = length xs \<Longrightarrow> xs ! n = ys ! n"
  by (metis hd_drop_conv_nth)

lemma heap_Remove_root:
  assumes "pq_inv pq" "0 < pq_Len pq"
  obtains y pq' where "heap_Remove 0 pq = Some (y, pq')" "pq_inv pq'" "core y = core (pq_items pq ! 0)"
    "contents pq = add_mset (core (pq_items pq ! 0)) (contents pq')"
proof -
  let ?xs = "pq_items pq" and ?n = "length (pq_items pq) - 1"
  have i: "heap_ordered ?xs (length ?xs)" "indexed ?xs" "length ?xs \<le> pq_cap pq" "0 < pq_cap pq" "0 < length ?xs"
    using assms by (auto simp: pq_inv_def pq_Len_def)
  obtain ys where ys: "length ys = length ?xs" "heap_ordered ys ?n" "indexed ys" "mset (map core ys) = mset (map core ?xs)"
      "core (ys ! ?n) = core (?xs ! 0)" "heap_Remove 0 pq = pq_Pop (pq\<lparr>pq_items := ys\<rparr>)"
  proof (cases "?n = 0")
    case True
    then show thesis using i by (intro that [of ?xs]) (auto simp: heap_Remove_def pq_Len_def heap_ordered_def)
  next
    case False
    let ?s = "pq_Swap ?xs 0 ?n"
    note D = heap_down_props [OF down_ready_root [OF i(1)] indexed_Swap [OF i(2)]]
    have l: "1 < length ?xs" using False by simp
    let ?ys = "fst (heap_down ?s 0 ?n)"
    have m: "mset (map core ?s) = mset (map core ?xs)" using l by (intro mset_Swap) auto
    have "drop ?n (map core ?ys) = drop ?n (map core ?s)" using D [OF l] by blast
    then have "map core ?ys ! ?n = map core ?s ! ?n" by (rule drop_eq_nth) (use D [OF l] l in simp_all)
    then have "core (?ys ! ?n) = core (?s ! ?n)" by (subst (asm) (1 2) nth_map) (use D [OF l] l in simp_all)
    moreover have "core (?s ! ?n) = core (?xs ! 0)" using l by (simp add: pq_Swap_def core_def)
    moreover have "heap_Remove 0 pq = pq_Pop (pq\<lparr>pq_items := ?ys\<rparr>)"
      using False by (simp add: heap_Remove_def pq_Len_def heap_up_0 Let_def split: prod.split)
    ultimately show thesis using D [OF l] m by (intro that [of ?ys]) auto
  qed
  let ?y = "(ys ! ?n)\<lparr>it_Index := - 1\<rparr>"
  let ?c = "if length ?xs < pq_cap pq div 2 \<and> pq_cap pq > 25 then pq_cap pq div 2 else pq_cap pq"
  have e: "heap_Remove 0 pq = Some (?y, \<lparr>pq_items = take ?n ys, pq_cap = ?c\<rparr>)"
    using ys(1,6) i(5) by (simp add: pq_Pop_def Let_def)
  have t: "map core ys = map core (take ?n ys) @ [core (ys ! ?n)]"
  proof -
    have "take (Suc ?n) ys = take ?n ys @ [ys ! ?n]" using ys(1) i(5) by (intro take_Suc_conv_app_nth) simp
    moreover have "take (Suc ?n) ys = ys" using ys(1) i(5) by simp
    ultimately have "ys = take ?n ys @ [ys ! ?n]" by simp
    then have "map core ys = map core (take ?n ys @ [ys ! ?n])" by simp
    then show ?thesis by simp
  qed
  show thesis
  proof (rule that [OF e])
    have "indexed (take ?n ys)" using ys(3) by (auto simp: indexed_def)
    moreover have "length (take ?n ys) = ?n" using ys(1) by simp
    moreover have "?n \<le> ?c" using i(3) by auto
    moreover have "0 < ?c" using i(4) by simp
    ultimately show "pq_inv \<lparr>pq_items = take ?n ys, pq_cap = ?c\<rparr>"
      using heap_ordered_take [OF ys(2)] by (simp only: pq_inv_def pq_Len_def priorityQueue.simps simp_thms)
    show "core ?y = core (?xs ! 0)" using ys(5) by (simp add: core_def)
    have "mset (map core ?xs) = add_mset (core (?xs ! 0)) (mset (map core (take ?n ys)))"
      unfolding ys(4) [symmetric] t ys(5) by simp
    then show "contents pq = add_mset (core (?xs ! 0)) (contents \<lparr>pq_items = take ?n ys, pq_cap = ?c\<rparr>)"
      by (simp add: contents_def)
  qed
qed

text \<open>Taking everything that is due at one instant.\<close>

fun drain :: "(int \<Rightarrow> 'q \<Rightarrow> ((('a \<times> int) option \<times> int) \<times> 'q) option) \<Rightarrow> nat \<Rightarrow> int \<Rightarrow> 'q \<Rightarrow> ('a \<times> int) list \<times> 'q" where
  "drain shift 0 now q = ([], q)"
| "drain shift (Suc n) now q =
     (case shift now q of
        Some ((Some y, _), q') \<Rightarrow> apfst ((#) y) (drain shift n now q')
      | _ \<Rightarrow> ([], q))"

text \<open>
  What the polling loop relies on: a container of timed elements from which \<open>shift now\<close> takes an element
  that is due, one with the least time, or else tells how long to wait.
\<close>

locale timed_pq =
  fixes push :: "'a \<Rightarrow> int \<Rightarrow> 'q \<Rightarrow> 'q option"
    and shift :: "int \<Rightarrow> 'q \<Rightarrow> ((('a \<times> int) option \<times> int) \<times> 'q) option"
    and bag :: "'q \<Rightarrow> ('a \<times> int) multiset"
    and inv :: "'q \<Rightarrow> bool"
  assumes push_ok: "inv q \<Longrightarrow> \<exists>q'. push v t q = Some q' \<and> inv q' \<and> bag q' = add_mset (v, t) (bag q)"
    and shift_due: "inv q \<Longrightarrow> x \<in># bag q \<Longrightarrow> snd x \<le> now \<Longrightarrow>
      \<exists>y q'. shift now q = Some ((Some y, 0), q') \<and> inv q' \<and> bag q = add_mset y (bag q') \<and> snd y \<le> now \<and>
        (\<forall>z \<in># bag q. snd y \<le> snd z)"
    and shift_empty: "inv q \<Longrightarrow> bag q = {#} \<Longrightarrow> shift now q = Some ((None, 0), q)"
    and shift_wait: "inv q \<Longrightarrow> bag q \<noteq> {#} \<Longrightarrow> \<forall>x \<in># bag q. now < snd x \<Longrightarrow>
      \<exists>d. shift now q = Some ((None, d), q) \<and> 0 < d \<and> (\<exists>x \<in># bag q. snd x = now + d) \<and> (\<forall>x \<in># bag q. now + d \<le> snd x)"
begin

lemma shift_none: "inv q \<Longrightarrow> \<forall>x \<in># bag q. now < snd x \<Longrightarrow> \<exists>d. shift now q = Some ((None, d), q)"
  using shift_empty shift_wait by (cases "bag q = {#}") blast+

lemma drain_due:
  assumes "inv q" "size (bag q) \<le> n"
  shows "sorted (map snd (fst (drain shift n now q))) \<and> mset (fst (drain shift n now q)) = {#x \<in># bag q. snd x \<le> now#} \<and>
    bag (snd (drain shift n now q)) = {#x \<in># bag q. now < snd x#} \<and> inv (snd (drain shift n now q))"
  using assms
proof (induction n arbitrary: q)
  case (Suc n)
  show ?case
  proof (cases "\<exists>x \<in># bag q. snd x \<le> now")
    case True
    then obtain y q' where s: "shift now q = Some ((Some y, 0), q')" and y: "inv q'" "bag q = add_mset y (bag q')" "snd y \<le> now"
        "\<forall>z \<in># bag q. snd y \<le> snd z"
      using shift_due [OF Suc.prems(1)] by blast
    have IH: "sorted (map snd (fst (drain shift n now q'))) \<and> mset (fst (drain shift n now q')) = {#x \<in># bag q'. snd x \<le> now#} \<and>
        bag (snd (drain shift n now q')) = {#x \<in># bag q'. now < snd x#} \<and> inv (snd (drain shift n now q'))"
      using Suc.prems(2) y by (intro Suc.IH) simp_all
    have "snd y \<le> snd z" if "z \<in> set (fst (drain shift n now q'))" for z
    proof -
      have "z \<in># {#x \<in># bag q'. snd x \<le> now#}" using that IH by (metis set_mset_mset)
      then show ?thesis using y(2,4) by simp
    qed
    then show ?thesis using IH s y by auto
  next
    case False
    then have F: "\<forall>x \<in># bag q. now < snd x" by (meson not_le)
    obtain d where s: "shift now q = Some ((None, d), q)" using shift_none [OF Suc.prems(1) F] by blast
    have "{#x \<in># bag q. snd x \<le> now#} = {#}" "{#x \<in># bag q. now < snd x#} = bag q"
      using F by (auto simp: multiset_eq_iff count_eq_zero_iff dest: bspec)
    then show ?thesis using s Suc.prems(1) by simp
  qed
qed simp

end

definition pq_push :: "'a \<Rightarrow> int \<Rightarrow> 'a priorityQueue \<Rightarrow> 'a priorityQueue option" where
  "pq_push v t pq = map_option fst (heap_Push \<lparr>it_Value = v, it_Priority = t, it_Index = 0\<rparr> pq)"

definition pq_shift :: "int \<Rightarrow> 'a priorityQueue \<Rightarrow> ((('a \<times> int) option \<times> int) \<times> 'a priorityQueue) option" where
  "pq_shift now pq = map_option (apfst (apfst (map_option core))) (PeekAndShift now pq)"

lemma contents_ge_root:
  assumes "pq_inv pq" "x \<in># contents pq"
  shows "0 < pq_Len pq \<and> it_Priority (pq_items pq ! 0) \<le> snd x"
proof -
  obtain k where k: "k < length (pq_items pq)" "x = core (pq_items pq ! k)"
    using assms(2) by (auto simp: contents_def in_set_conv_nth)
  then show ?thesis
    using heap_ordered_min [of "pq_items pq" "length (pq_items pq)" k] assms(1) by (auto simp: pq_inv_def pq_Len_def core_def)
qed

lemma root_in_contents: "0 < pq_Len pq \<Longrightarrow> core (pq_items pq ! 0) \<in># contents pq"
  by (auto simp: contents_def pq_Len_def)

interpretation delay_heap: timed_pq pq_push pq_shift contents pq_inv
proof (unfold_locales, goal_cases)
  case (1 q v t)
  then show ?case
    by (rule heap_Push_props [of q "\<lparr>it_Value = v, it_Priority = t, it_Index = 0\<rparr>"]) (simp add: pq_push_def core_def)
next
  case (2 q x now)
  have r: "0 < pq_Len q" "it_Priority (pq_items q ! 0) \<le> now" using contents_ge_root [OF 2(1,2)] 2(3) by auto
  obtain y q' where R: "heap_Remove 0 q = Some (y, q')" "pq_inv q'" "contents q = add_mset (core (pq_items q ! 0)) (contents q')"
    using heap_Remove_root [OF 2(1) r(1)] by blast
  have "pq_shift now q = Some ((Some (core (pq_items q ! 0)), 0), q')"
    using r R(1) by (simp add: pq_shift_def PeekAndShift_def Let_def)
  moreover have "\<forall>z \<in># contents q. snd (core (pq_items q ! 0)) \<le> snd z"
    using contents_ge_root [OF 2(1)] by (simp add: core_def)
  ultimately show ?case using R r by (auto simp: core_def)
next
  case (3 q now)
  then have "pq_Len q = 0" by (simp add: contents_def pq_Len_def)
  then show ?case by (simp add: pq_shift_def PeekAndShift_def)
next
  case (4 q now)
  then have l: "0 < pq_Len q" by (auto simp: contents_def pq_Len_def)
  have "now < it_Priority (pq_items q ! 0)" using 4(3) root_in_contents [OF l] by (auto simp: core_def)
  then have "pq_shift now q = Some ((None, it_Priority (pq_items q ! 0) - now), q)"
    using l by (simp add: pq_shift_def PeekAndShift_def Let_def)
  then show ?case
    using contents_ge_root [OF 4(1)] root_in_contents [OF l] \<open>now < it_Priority (pq_items q ! 0)\<close>
    by (intro exI [of _ "it_Priority (pq_items q ! 0) - now"]) (auto simp: core_def intro!: bexI [OF _ root_in_contents [OF l]])
qed

section \<open>The wake-up protocol\<close>

text \<open>
  \<open>Offer\<close> pushes under the lock; when its element came out first it wakes a sleeping poller by a compare and
  swap on \<open>sleeping\<close> followed by a blocking send. \<open>Poll\<close> reads the clock, takes an element under the lock or
  declares itself asleep, and then waits. \<open>dq_offers1\<close> counts the offers between push and compare and swap,
  \<open>dq_offers2\<close> those blocked in the send; \<open>dq_sent\<close> lists what was delivered, with the time of its removal.
\<close>

datatype 'a poll_state =
    PollLoop | PollRead int | PollIdle | PollTimed int | PollDrain | PollSend "'a \<times> int" | PollExit

record 'a DelayQueue =
  dq_pq :: "'a priorityQueue"
  dq_sleeping :: bool
  dq_poll :: "'a poll_state"
  dq_offers1 :: nat
  dq_offers2 :: nat
  dq_now :: int
  dq_sent :: "(('a \<times> int) \<times> int) list"

definition NewDelayQueue :: "nat \<Rightarrow> int \<Rightarrow> 'a DelayQueue" where
  "NewDelayQueue capacity now = \<lparr>dq_pq = newPriorityQueue capacity, dq_sleeping = False, dq_poll = PollLoop,
     dq_offers1 = 0, dq_offers2 = 0, dq_now = now, dq_sent = []\<rparr>"

definition Offer_push :: "'a \<Rightarrow> int \<Rightarrow> 'a DelayQueue \<Rightarrow> 'a DelayQueue option" where
  "Offer_push elem expiration dq =
     (case heap_Push \<lparr>it_Value = elem, it_Priority = expiration, it_Index = 0\<rparr> (dq_pq dq) of
        None \<Rightarrow> None
      | Some (pq, index) \<Rightarrow>
          Some (dq\<lparr>dq_pq := pq, dq_offers1 := (if index = 0 then dq_offers1 dq + 1 else dq_offers1 dq)\<rparr>))"

definition Offer_cas :: "'a DelayQueue \<Rightarrow> 'a DelayQueue" where
  "Offer_cas dq =
     (if dq_sleeping dq then dq\<lparr>dq_sleeping := False, dq_offers1 := dq_offers1 dq - 1, dq_offers2 := dq_offers2 dq + 1\<rparr>
      else dq\<lparr>dq_offers1 := dq_offers1 dq - 1\<rparr>)"

definition Poll_peek :: "int \<Rightarrow> 'a DelayQueue \<Rightarrow> 'a DelayQueue option" where
  "Poll_peek now dq =
     (case PeekAndShift now (dq_pq dq) of
        None \<Rightarrow> None
      | Some ((Some value, _), pq) \<Rightarrow> Some (dq\<lparr>dq_pq := pq, dq_poll := PollSend (core value)\<rparr>)
      | Some ((None, delta), pq) \<Rightarrow>
          Some (dq\<lparr>dq_pq := pq, dq_sleeping := True,
                   dq_poll := (if delta = 0 then PollIdle else PollTimed (now + delta))\<rparr>))"

inductive dstep :: "'a DelayQueue \<Rightarrow> 'a DelayQueue \<Rightarrow> bool" where
  d_tick: "0 \<le> d \<Longrightarrow> dstep dq (dq\<lparr>dq_now := dq_now dq + d\<rparr>)"
| d_offer: "Offer_push v t dq = Some dq' \<Longrightarrow> dstep dq dq'"
| d_cas: "0 < dq_offers1 dq \<Longrightarrow> dstep dq (Offer_cas dq)"
| d_read: "dq_poll dq = PollLoop \<Longrightarrow> dstep dq (dq\<lparr>dq_poll := PollRead (dq_now dq)\<rparr>)"
| d_peek: "dq_poll dq = PollRead now \<Longrightarrow> Poll_peek now dq = Some dq' \<Longrightarrow> dstep dq dq'"
| d_wake: "dq_poll dq = PollIdle \<or> dq_poll dq = PollTimed T \<or> dq_poll dq = PollDrain \<Longrightarrow> 0 < dq_offers2 dq \<Longrightarrow>
    dstep dq (dq\<lparr>dq_poll := PollLoop, dq_offers2 := dq_offers2 dq - 1\<rparr>)"
| d_fire: "dq_poll dq = PollTimed T \<Longrightarrow> T \<le> dq_now dq \<Longrightarrow>
    dstep dq (dq\<lparr>dq_sleeping := False, dq_poll := (if dq_sleeping dq then PollLoop else PollDrain)\<rparr>)"
| d_send: "dq_poll dq = PollSend x \<Longrightarrow> dstep dq (dq\<lparr>dq_poll := PollLoop, dq_sent := dq_sent dq @ [(x, dq_now dq)]\<rparr>)"
| d_exit: "dq_poll dq = PollIdle \<or> dq_poll dq = PollTimed T \<or> dq_poll dq = PollSend x \<Longrightarrow>
    dstep dq (dq\<lparr>dq_poll := PollExit, dq_sleeping := False\<rparr>)"

inductive dreach :: "nat \<Rightarrow> 'a DelayQueue \<Rightarrow> bool" for cap :: nat where
  dreach_init: "0 < cap \<Longrightarrow> dreach cap (NewDelayQueue cap now)"
| dreach_step: "dreach cap dq \<Longrightarrow> dstep dq dq' \<Longrightarrow> dreach cap dq'"

text \<open>The poller is awake, or waits for what the queue holds, or someone is about to wake it.\<close>

fun poll_ok :: "'a poll_state \<Rightarrow> bool \<Rightarrow> nat \<Rightarrow> nat \<Rightarrow> ('a \<times> int) multiset \<Rightarrow> int \<Rightarrow> bool" where
  "poll_ok PollLoop s o1 o2 b now \<longleftrightarrow> \<not> s \<and> o2 = 0"
| "poll_ok (PollRead n) s o1 o2 b now \<longleftrightarrow> \<not> s \<and> o2 = 0 \<and> n \<le> now"
| "poll_ok PollIdle s o1 o2 b now \<longleftrightarrow> (if s then o2 = 0 \<and> (o1 = 0 \<longrightarrow> b = {#}) else o2 = 1)"
| "poll_ok (PollTimed T) s o1 o2 b now \<longleftrightarrow> (if s then o2 = 0 \<and> (o1 = 0 \<longrightarrow> (\<forall>x \<in># b. T \<le> snd x)) else o2 = 1)"
| "poll_ok PollDrain s o1 o2 b now \<longleftrightarrow> \<not> s \<and> o2 = 1"
| "poll_ok (PollSend x) s o1 o2 b now \<longleftrightarrow> \<not> s \<and> o2 = 0 \<and> snd x \<le> now"
| "poll_ok PollExit s o1 o2 b now \<longleftrightarrow> \<not> s \<and> o2 \<le> 1"

definition dq_inv :: "'a DelayQueue \<Rightarrow> bool" where
  "dq_inv dq \<longleftrightarrow> pq_inv (dq_pq dq) \<and>
     poll_ok (dq_poll dq) (dq_sleeping dq) (dq_offers1 dq) (dq_offers2 dq) (contents (dq_pq dq)) (dq_now dq) \<and>
     (\<forall>(x, t) \<in> set (dq_sent dq). snd x \<le> t)"

lemma heap_Push_root:
  assumes I: "pq_inv pq" and e: "heap_Push x pq = Some (pq', j)" and j: "j \<noteq> 0"
  shows "contents pq \<noteq> {#} \<and> (\<forall>L. (\<forall>y \<in># contents pq. L \<le> snd y) \<longrightarrow> L \<le> it_Priority x)"
proof -
  have P: "pq_inv pq'" "contents pq' = add_mset (core x) (contents pq)" "j < pq_Len pq'" "core (pq_items pq' ! j) = core x"
    using heap_Push_props [OF I, of x] e by (metis option.inject prod.inject)+
  let ?xs = "pq_items pq'"
  have l: "0 < length ?xs" "j < length ?xs" using P(3) by (auto simp: pq_Len_def)
  have "mset (map core ?xs) = add_mset (core (?xs ! j)) (mset (map core (take j ?xs @ drop (Suc j) ?xs)))"
    using l(2) by (subst id_take_nth_drop [OF l(2)]) (simp add: ac_simps)
  then have "contents pq = mset (map core (take j ?xs @ drop (Suc j) ?xs))"
    using P(2,4) by (simp add: contents_def)
  moreover have "?xs ! 0 \<in> set (take j ?xs)" using j l by (metis length_greater_0_conv length_take min_less_iff_conj neq0_conv nth_mem nth_take)
  ultimately have r: "core (?xs ! 0) \<in># contents pq" by auto
  have "it_Priority (?xs ! 0) \<le> snd (core x)" using contents_ge_root [OF P(1), of "core x"] P(2) by simp
  then show ?thesis using r by (fastforce simp: core_def)
qed

lemma Offer_push_inv:
  assumes I: "dq_inv dq" and e: "Offer_push v t dq = Some dq'"
  shows "dq_inv dq'"
proof -
  let ?x = "\<lparr>it_Value = v, it_Priority = t, it_Index = 0\<rparr>"
  obtain pq j where p: "heap_Push ?x (dq_pq dq) = Some (pq, j)"
    and d: "dq' = dq\<lparr>dq_pq := pq, dq_offers1 := (if j = 0 then dq_offers1 dq + 1 else dq_offers1 dq)\<rparr>"
    using e by (auto simp: Offer_push_def split: option.splits)
  have q: "pq_inv (dq_pq dq)" using I by (simp add: dq_inv_def)
  have P: "pq_inv pq" "contents pq = add_mset (v, t) (contents (dq_pq dq))"
    using heap_Push_props [OF q, of ?x] p by (metis core_def item.select_convs(1,2) option.inject prod.inject)+
  have r: "contents (dq_pq dq) \<noteq> {#} \<and> (\<forall>L. (\<forall>y \<in># contents (dq_pq dq). L \<le> snd y) \<longrightarrow> L \<le> t)" if "j \<noteq> 0"
    using heap_Push_root [OF q p that] by simp
  show ?thesis
    using I P r by (cases "dq_poll dq"; cases "j = 0") (auto simp: dq_inv_def d split: if_splits)
qed

lemma Poll_peek_inv:
  assumes I: "dq_inv dq" and p: "dq_poll dq = PollRead now" and e: "Poll_peek now dq = Some dq'"
  shows "dq_inv dq'"
proof -
  have q: "pq_inv (dq_pq dq)" and n: "\<not> dq_sleeping dq" "dq_offers2 dq = 0" "now \<le> dq_now dq"
    and s: "\<forall>(x, t) \<in> set (dq_sent dq). snd x \<le> t" using I p by (auto simp: dq_inv_def)
  consider (due) x where "x \<in># contents (dq_pq dq)" "snd x \<le> now" | (empty) "contents (dq_pq dq) = {#}"
    | (wait) "contents (dq_pq dq) \<noteq> {#}" "\<forall>x \<in># contents (dq_pq dq). now < snd x" by (meson not_le)
  then show ?thesis
  proof cases
    case (due x)
    obtain y q' where "pq_shift now (dq_pq dq) = Some ((Some y, 0), q')" "pq_inv q'" "snd y \<le> now"
      using delay_heap.shift_due [OF q due] by blast
    then show ?thesis using e n s
      by (auto simp: pq_shift_def Poll_peek_def dq_inv_def split: option.splits prod.splits)
  next
    case empty
    then show ?thesis using delay_heap.shift_empty [OF q empty, of now] e n s q
      by (auto simp: pq_shift_def Poll_peek_def dq_inv_def split: option.splits prod.splits)
  next
    case wait
    obtain d where "pq_shift now (dq_pq dq) = Some ((None, d), dq_pq dq)" "0 < d" "\<forall>x \<in># contents (dq_pq dq). now + d \<le> snd x"
      using delay_heap.shift_wait [OF q wait] by blast
    then show ?thesis using e n s q
      by (auto simp: pq_shift_def Poll_peek_def dq_inv_def split: option.splits prod.splits)
  qed
qed

lemma poll_ok_tick: "poll_ok p s o1 o2 b now \<Longrightarrow> 0 \<le> d \<Longrightarrow> poll_ok p s o1 o2 b (now + d)"
  by (cases p) (auto split: if_splits)

lemma dstep_inv: "dstep dq dq' \<Longrightarrow> dq_inv dq \<Longrightarrow> dq_inv dq'"
proof (induction rule: dstep.induct)
  case (d_cas dq)
  then show ?case by (cases "dq_poll dq") (auto simp: dq_inv_def Offer_cas_def split: if_splits)
next
  case (d_offer v t dq dq')
  then show ?case by (simp add: Offer_push_inv)
next
  case (d_peek dq now dq')
  then show ?case by (simp add: Poll_peek_inv)
next
  case (d_tick d dq)
  then show ?case by (simp add: dq_inv_def poll_ok_tick)
next
  case (d_read dq)
  then show ?case by (simp add: dq_inv_def)
next
  case (d_wake dq T)
  then show ?case by (elim disjE) (simp_all add: dq_inv_def split: if_splits)
next
  case (d_fire dq T)
  then show ?case by (simp add: dq_inv_def split: if_splits)
next
  case (d_send dq x)
  then show ?case by (simp add: dq_inv_def)
next
  case (d_exit dq T x)
  then show ?case by (elim disjE) (simp_all add: dq_inv_def split: if_splits)
qed

lemma dreach_inv: "dreach cap dq \<Longrightarrow> dq_inv dq"
proof (induction rule: dreach.induct)
  case (dreach_init now)
  then show ?case by (simp add: dq_inv_def NewDelayQueue_def pq_inv_new)
qed (rule dstep_inv)

section \<open>Properties\<close>

text \<open>
  C32. The slice heap is a priority queue. With a positive initial capacity, in every state of the queue the
  capacity covers the elements and neither \<open>Push\<close> nor \<open>PeekAndShift\<close> panics; a push adds exactly its element
  and reports as index the position where it lies; polling at an instant takes the elements that are due,
  all of them and no other, in the order of their times, and keeps the rest.
\<close>

theorem delay_heap_correct:
  assumes I: "pq_inv pq" and n: "pq_Len pq \<le> n"
  shows "(\<exists>pq' j. heap_Push x pq = Some (pq', j) \<and> pq_inv pq' \<and> contents pq' = add_mset (core x) (contents pq) \<and>
      core (pq_items pq' ! j) = core x \<and> it_Index (pq_items pq' ! j) = int j \<and> pq_Len pq' \<le> pq_cap pq') \<and>
    PeekAndShift now pq \<noteq> None \<and>
    sorted (map snd (fst (drain pq_shift n now pq))) \<and>
    mset (fst (drain pq_shift n now pq)) = {#x \<in># contents pq. snd x \<le> now#} \<and>
    contents (snd (drain pq_shift n now pq)) = {#x \<in># contents pq. now < snd x#} \<and>
    pq_inv (snd (drain pq_shift n now pq))"
proof -
  have "size (contents pq) \<le> n" using n by (simp add: contents_def pq_Len_def)
  note D = delay_heap.drain_due [OF I this, of now]
  obtain pq' j where "heap_Push x pq = Some (pq', j)" "pq_inv pq'" "contents pq' = add_mset (core x) (contents pq)"
    "core (pq_items pq' ! j) = core x" "it_Index (pq_items pq' ! j) = int j"
    using heap_Push_props [OF I] by blast
  moreover from this(2) have "pq_Len pq' \<le> pq_cap pq'" by (simp add: pq_inv_def)
  moreover have "PeekAndShift now pq \<noteq> None"
  proof (cases "0 < pq_Len pq")
    case True
    then obtain y q where "heap_Remove 0 pq = Some (y, q)" using heap_Remove_root [OF I] by metis
    then show ?thesis by (simp add: PeekAndShift_def Let_def)
  qed (simp add: PeekAndShift_def)
  ultimately show ?thesis using D by blast
qed

definition demo_pq :: "nat priorityQueue" where
  "demo_pq = the (pq_push 2 20 (the (pq_push 1 10 (the (pq_push 3 30 (newPriorityQueue 1))))))"

theorem delay_heap_correct_witness:
  "map snd (fst (drain pq_shift 3 25 demo_pq)) = [10, 20] \<and> sorted (map snd (fst (drain pq_shift 3 25 demo_pq))) \<and>
   PeekAndShift 25 demo_pq \<noteq> None"
proof -
  have "pq_inv (newPriorityQueue 1 :: nat priorityQueue)" by (simp add: pq_inv_new)
  from delay_heap.push_ok [OF this, of 3 30]
  obtain q1 where q1: "pq_push 3 30 (newPriorityQueue 1 :: nat priorityQueue) = Some q1" "pq_inv q1" by auto
  from delay_heap.push_ok [OF q1(2), of 1 10] obtain q2 where q2: "pq_push 1 10 q1 = Some q2" "pq_inv q2" by auto
  from delay_heap.push_ok [OF q2(2), of 2 20] obtain q3 where q3: "pq_push 2 20 q2 = Some q3" "pq_inv q3" by auto
  have i: "pq_inv demo_pq" using q1 q2 q3 by (simp add: demo_pq_def)
  have l: "pq_Len demo_pq \<le> 3" "map snd (fst (drain pq_shift 3 25 demo_pq)) = [10, 20]" by code_simp+
  from delay_heap_correct [OF i l(1), of _ 25] l(2) show ?thesis by blast
qed

text \<open>
  C31. No wake-up is lost, whatever the interleaving of the offers with the polling goroutine. While the poller
  waits without a timer although the queue is not empty, or under a timer later than some element, an offer
  is on its way to wake it or already blocked in the send; an offer blocked in the send finds the poller at a
  receive, until the poller exits; at most one offer is blocked; and no element was handed out before its time.
\<close>

theorem delay_no_lost_wakeup:
  assumes "dreach cap dq"
  shows "((dq_poll dq = PollIdle \<and> contents (dq_pq dq) \<noteq> {#} \<or>
        (\<exists>T. dq_poll dq = PollTimed T \<and> (\<exists>x \<in># contents (dq_pq dq). snd x < T))) \<longrightarrow>
      dq_sleeping dq \<and> 0 < dq_offers1 dq \<or> dq_offers2 dq = 1) \<and>
    dq_offers2 dq \<le> 1 \<and>
    (0 < dq_offers2 dq \<longrightarrow> dq_poll dq \<in> {PollIdle, PollDrain, PollExit} \<or> (\<exists>T. dq_poll dq = PollTimed T)) \<and>
    (\<forall>(x, t) \<in> set (dq_sent dq). snd x \<le> t)"
proof -
  have I: "dq_inv dq" using assms by (rule dreach_inv)
  have sent: "\<forall>(x, t) \<in> set (dq_sent dq). snd x \<le> t" using I by (simp add: dq_inv_def)
  have ok: "poll_ok (dq_poll dq) (dq_sleeping dq) (dq_offers1 dq) (dq_offers2 dq) (contents (dq_pq dq)) (dq_now dq)"
    using I by (simp add: dq_inv_def)
  show ?thesis
  proof (cases "dq_poll dq")
    case PollIdle
    then show ?thesis using ok sent by (cases "dq_offers1 dq") (auto split: if_splits)
  next
    case (PollTimed T)
    have "dq_sleeping dq \<and> 0 < dq_offers1 dq \<or> dq_offers2 dq = 1" if "x \<in># contents (dq_pq dq)" "snd x < T" for x
      using ok PollTimed that by (cases "dq_offers1 dq = 0") (auto split: if_splits)
    then show ?thesis using ok sent PollTimed by (auto split: if_splits)
  qed (use ok sent in simp_all)
qed

theorem delay_no_lost_wakeup_witness:
  "\<exists>dq :: nat DelayQueue. dreach 1 dq \<and> dq_poll dq = PollIdle \<and> size (contents (dq_pq dq)) = 1 \<and>
     (dq_sleeping dq \<and> 0 < dq_offers1 dq \<or> dq_offers2 dq = 1)"
proof -
  let ?q0 = "NewDelayQueue 1 0 :: nat DelayQueue" and ?q1 = "NewDelayQueue 1 0 \<lparr>dq_poll := PollRead 0\<rparr> :: nat DelayQueue"
  let ?q2 = "the (Poll_peek 0 ?q1)"
  have p: "dq_poll ?q0 = PollLoop" "dq_now ?q0 = 0" by (simp_all add: NewDelayQueue_def)
  have e: "Poll_peek 0 ?q1 = Some ?q2"
    by (simp add: NewDelayQueue_def Poll_peek_def PeekAndShift_def newPriorityQueue_def pq_Len_def)
  have "Offer_push 7 5 ?q2 \<noteq> None" by code_simp
  then obtain q3 where f: "Offer_push 7 5 ?q2 = Some q3" by blast
  have "dreach 1 ?q0" by (rule dreach_init) simp
  then have "dreach 1 ?q1" using d_read [OF p(1)] p(2) by (metis dreach_step)
  then have "dreach 1 ?q2" by (rule dreach_step) (rule d_peek [OF _ e], simp)
  then have r: "dreach 1 q3" by (rule dreach_step) (rule d_offer [OF f])
  have "map_option dq_poll (Offer_push 7 5 ?q2) = Some PollIdle"
    "map_option (\<lambda>q. map core (pq_items (dq_pq q))) (Offer_push 7 5 ?q2) = Some [(7, 5)]" by code_simp+
  then have c: "dq_poll q3 = PollIdle" "size (contents (dq_pq q3)) = 1" "contents (dq_pq q3) \<noteq> {#}"
    unfolding f by (auto simp: contents_def)
  have "dq_sleeping q3 \<and> 0 < dq_offers1 q3 \<or> dq_offers2 q3 = 1"
    using delay_no_lost_wakeup [OF r] c(1,3) by blast
  with r c show ?thesis by blast
qed

end
