(* ===== verification/Time_Wheel.thy ===== *)
theory Time_Wheel
  imports Delay_Queue "HOL-Library.Signed_Division" "HOL-Library.Monad_Syntax"
begin

text \<open>
  The hierarchical timing wheel of \<open>src/extend/time_wheel\<close>: \<open>time_wheel.go\<close>, \<open>bucket.go\<close>, \<open>timer.go\<close>,
  \<open>schedule.go\<close> and \<open>utils.go\<close>. A timer is its position in the list of all timers, a bucket the pair of the
  level of its wheel and its slot; the overflow wheel of a wheel is the next one in the list. Instants are
  milliseconds, durations nanoseconds. A task that is not asynchronous runs inside the flush of its bucket,
  under the lock of that bucket: taking this lock again would block for ever, which is no value, as is a
  panic and a recursion that does not end. Adding, stopping and processing one expired bucket are each one
  step. Asynchronous tasks are not modelled.
\<close>

section \<open>Time arithmetic and schedules\<close>

definition truncate_ms :: "int \<Rightarrow> int \<Rightarrow> int" where
  "truncate_ms x m = (if m \<le> 0 then x else x - x smod m)"

definition TimeToMS :: "int \<Rightarrow> int" where
  "TimeToMS ns = ns sdiv 1000000"

definition MSToTime :: "int \<Rightarrow> int" where
  "MSToTime ms = ms * 1000000"

datatype Schedule = EverySchedule int | FixedDateSchedule int int int

text \<open>
  \<open>Next\<close> of the fixed date schedule in a time zone at a constant offset of \<open>z\<close> seconds from UTC: the date of \<open>prev\<close> at the
  given hour (the hour of \<open>prev\<close> when negative), minute and second, or a day (an hour) later.
\<close>

definition DAY :: int where "DAY = 86400000000000"
definition HOUR :: int where "HOUR = 3600000000000"
definition MINUTE :: int where "MINUTE = 60000000000"
definition SECOND :: int where "SECOND = 1000000000"

fun sched_Next :: "int \<Rightarrow> Schedule \<Rightarrow> int \<Rightarrow> int" where
  "sched_Next z (EverySchedule interval) prev = prev + interval"
| "sched_Next z (FixedDateSchedule hr mn sc) prev =
     (let day = (prev + z * SECOND) div DAY;
          hour = (if hr \<ge> 0 then hr else ((prev + z * SECOND) mod DAY) div HOUR);
          fixedTime = day * DAY + hour * HOUR + mn * MINUTE + sc * SECOND - z * SECOND;
          remain = fixedTime - prev
      in if remain > 0 then prev + remain
         else if hr \<ge> 0 then fixedTime + 24 * HOUR
         else fixedTime + HOUR)"

section \<open>Timers, buckets, wheels\<close>

type_synonym bref = "nat \<times> nat"

record Timer =
  tm_id :: u64
  tm_expiration :: int
  tm_sched :: "Schedule option"
  tm_bucket :: "bref option"

record bucket =
  bk_expiration :: int
  bk_timers :: "nat list"

record Wheel =
  wh_tick :: int
  wh_size :: int
  wh_interval :: int
  wh_current :: int
  wh_buckets :: "bucket list"

record TimeWheel =
  tw_wheels :: "Wheel list"
  tw_queue :: "bref priorityQueue"
  tw_timers :: "Timer list"
  tw_locked :: "bref option"
  tw_zone :: int
  tw_runs :: "(nat \<times> int \<times> int) list"

definition newBucket :: bucket where
  "newBucket = \<lparr>bk_expiration = - 1, bk_timers = []\<rparr>"

definition newTimingWheel :: "int \<Rightarrow> int \<Rightarrow> int \<Rightarrow> Wheel" where
  "newTimingWheel tickMs wheelSize startMs =
     \<lparr>wh_tick = tickMs, wh_size = wheelSize, wh_interval = tickMs * wheelSize,
      wh_current = truncate_ms startMs tickMs, wh_buckets = replicate (nat wheelSize) newBucket\<rparr>"

text \<open>\<open>NewTimeWheel\<close> answers nil for a tick below one millisecond.\<close>

definition NewTimeWheel :: "int \<Rightarrow> int \<Rightarrow> int \<Rightarrow> int \<Rightarrow> TimeWheel option" where
  "NewTimeWheel tick wheelSize now zone =
     (let tickMs = tick sdiv 1000000 in
      if tickMs \<le> 0 then None
      else Some \<lparr>tw_wheels = [newTimingWheel tickMs wheelSize (TimeToMS now)],
                 tw_queue = newPriorityQueue (nat wheelSize), tw_timers = [], tw_locked = None, tw_zone = zone, tw_runs = []\<rparr>)"

definition get_bucket :: "bref \<Rightarrow> TimeWheel \<Rightarrow> bucket" where
  "get_bucket r w = wh_buckets (tw_wheels w ! fst r) ! snd r"

definition put_bucket :: "bref \<Rightarrow> bucket \<Rightarrow> TimeWheel \<Rightarrow> TimeWheel" where
  "put_bucket r b w =
     w\<lparr>tw_wheels := (tw_wheels w)[fst r := (tw_wheels w ! fst r)
         \<lparr>wh_buckets := (wh_buckets (tw_wheels w ! fst r))[snd r := b]\<rparr>]\<rparr>"

definition put_timer :: "nat \<Rightarrow> Timer \<Rightarrow> TimeWheel \<Rightarrow> TimeWheel" where
  "put_timer p t w = w\<lparr>tw_timers := (tw_timers w)[p := t]\<rparr>"

definition SetExpiration :: "bref \<Rightarrow> int \<Rightarrow> TimeWheel \<Rightarrow> bool \<times> TimeWheel" where
  "SetExpiration r e w =
     (bk_expiration (get_bucket r w) \<noteq> e, put_bucket r ((get_bucket r w)\<lparr>bk_expiration := e\<rparr>) w)"

definition bucket_Add :: "bref \<Rightarrow> nat \<Rightarrow> TimeWheel \<Rightarrow> TimeWheel option" where
  "bucket_Add r p w =
     (if tw_locked w = Some r then None
      else Some (put_timer p ((tw_timers w ! p)\<lparr>tm_bucket := Some r\<rparr>)
             (put_bucket r ((get_bucket r w)\<lparr>bk_timers := bk_timers (get_bucket r w) @ [p]\<rparr>) w)))"

definition bucket_remove :: "bref \<Rightarrow> nat \<Rightarrow> TimeWheel \<Rightarrow> bool \<times> TimeWheel" where
  "bucket_remove r p w =
     (if tm_bucket (tw_timers w ! p) \<noteq> Some r then (False, w)
      else (True, put_timer p ((tw_timers w ! p)\<lparr>tm_bucket := None\<rparr>)
              (put_bucket r ((get_bucket r w)\<lparr>bk_timers := remove1 p (bk_timers (get_bucket r w))\<rparr>) w)))"

definition bucket_Remove :: "bref \<Rightarrow> nat \<Rightarrow> TimeWheel \<Rightarrow> (bool \<times> TimeWheel) option" where
  "bucket_Remove r p w = (if tw_locked w = Some r then None else Some (bucket_remove r p w))"

definition tw_Offer :: "bref \<Rightarrow> int \<Rightarrow> TimeWheel \<Rightarrow> TimeWheel option" where
  "tw_Offer r e w =
     (case heap_Push \<lparr>it_Value = r, it_Priority = e, it_Index = 0\<rparr> (tw_queue w) of
        None \<Rightarrow> None
      | Some (q, _) \<Rightarrow> Some (w\<lparr>tw_queue := q\<rparr>))"

text \<open>\<open>add\<close> into the slot of the timer in one wheel.\<close>

definition add_here :: "nat \<Rightarrow> nat \<Rightarrow> TimeWheel \<Rightarrow> TimeWheel option" where
  "add_here lvl p w =
     (let wh = tw_wheels w ! lvl;
          virtualID = tm_expiration (tw_timers w ! p) sdiv wh_tick wh;
          slot = virtualID smod wh_size wh
      in if slot < 0 \<or> slot \<ge> int (length (wh_buckets wh)) then None
         else case bucket_Add (lvl, nat slot) p w of
           None \<Rightarrow> None
         | Some w \<Rightarrow>
             (case SetExpiration (lvl, nat slot) (virtualID * wh_tick wh) w of
                (True, w) \<Rightarrow> tw_Offer (lvl, nat slot) (bk_expiration (get_bucket (lvl, nat slot) w)) w
              | (False, w) \<Rightarrow> Some w))"

text \<open>The overflow wheel is created on first use.\<close>

definition ensure_overflow :: "nat \<Rightarrow> TimeWheel \<Rightarrow> TimeWheel" where
  "ensure_overflow lvl w =
     (if Suc lvl < length (tw_wheels w) then w
      else (let wh = tw_wheels w ! lvl
            in w\<lparr>tw_wheels := tw_wheels w @ [newTimingWheel (wh_interval wh) (wh_size wh) (wh_current wh)]\<rparr>))"

partial_function (option) tw_add :: "nat \<Rightarrow> nat \<Rightarrow> TimeWheel \<Rightarrow> (bool \<times> TimeWheel) option" where
  "tw_add lvl p w =
     (let wh = tw_wheels w ! lvl; e = tm_expiration (tw_timers w ! p) in
      if e < wh_current wh + wh_tick wh then Some (False, w)
      else if e < wh_current wh + wh_interval wh then
        (case add_here lvl p w of None \<Rightarrow> None | Some w \<Rightarrow> Some (True, w))
      else tw_add (Suc lvl) p (ensure_overflow lvl w))"

text \<open>A task runs: the run is recorded with the expiration it was due at and the clock of the base wheel.\<close>

definition run_task :: "nat \<Rightarrow> int \<Rightarrow> TimeWheel \<Rightarrow> TimeWheel" where
  "run_task p e w = w\<lparr>tw_runs := tw_runs w @ [(p, e, wh_current (tw_wheels w ! 0))]\<rparr>"

definition next_expiration :: "int \<Rightarrow> Schedule \<Rightarrow> int \<Rightarrow> int" where
  "next_expiration z s e = TimeToMS (sched_Next z s (MSToTime e))"

text \<open>
  \<open>addOrRun\<close>, with the task of \<open>ScheduleFunc\<close> in place: a scheduled timer is first added again with its next
  expiration, and then the function of the caller runs. No schedule of the package answers the zero time.
\<close>

partial_function (option) addOrRun :: "nat \<Rightarrow> TimeWheel \<Rightarrow> TimeWheel option" where
  "addOrRun p w =
     Option.bind (tw_add 0 p w) (\<lambda>r. case r of (added, w) \<Rightarrow>
       if added then Some w
       else (case tm_sched (tw_timers w ! p) of
               None \<Rightarrow> Some (run_task p (tm_expiration (tw_timers w ! p)) w)
             | Some s \<Rightarrow>
                 (let t = tw_timers w ! p;
                      w = put_timer p (t\<lparr>tm_expiration := next_expiration (tw_zone w) s (tm_expiration t)\<rparr>) w
                  in Option.bind (addOrRun p w) (\<lambda>w. Some (run_task p (tm_expiration t) w)))))"

fun advanceClock :: "int \<Rightarrow> Wheel list \<Rightarrow> Wheel list" where
  "advanceClock e [] = []"
| "advanceClock e (wh # whs) =
     (if e \<ge> wh_current wh + wh_tick wh
      then (let c = truncate_ms e (wh_tick wh) in wh\<lparr>wh_current := c\<rparr> # advanceClock c whs)
      else wh # whs)"

text \<open>The loop of \<open>Flush\<close> over the timers of the locked bucket.\<close>

fun flush_loop :: "bref \<Rightarrow> nat list \<Rightarrow> TimeWheel \<Rightarrow> TimeWheel option" where
  "flush_loop r [] w = Some w"
| "flush_loop r (p # ps) w =
     (case addOrRun p (snd (bucket_remove r p w)) of None \<Rightarrow> None | Some w \<Rightarrow> flush_loop r ps w)"

definition Flush :: "bref \<Rightarrow> TimeWheel \<Rightarrow> TimeWheel option" where
  "Flush r w =
     (case flush_loop r (bk_timers (get_bucket r w)) (w\<lparr>tw_locked := Some r\<rparr>) of
        None \<Rightarrow> None
      | Some w \<Rightarrow> Some (snd (SetExpiration r (- 1) (w\<lparr>tw_locked := None\<rparr>))))"

text \<open>One round of the two goroutines of \<open>Start\<close>: poll at an instant, then advance the clock and flush.\<close>

definition process_expired :: "int \<Rightarrow> TimeWheel \<Rightarrow> TimeWheel option" where
  "process_expired now w =
     (case PeekAndShift now (tw_queue w) of
        None \<Rightarrow> None
      | Some ((None, _), _) \<Rightarrow> Some w
      | Some ((Some x, _), q) \<Rightarrow>
          (let r = it_Value x;
               w = w\<lparr>tw_queue := q, tw_wheels := advanceClock (bk_expiration (get_bucket r w)) (tw_wheels w)\<rparr>
           in Flush r w))"

definition getAsyncValue :: "bool list \<Rightarrow> bool" where
  "getAsyncValue asyncTask = (case asyncTask of [] \<Rightarrow> False | a # _ \<Rightarrow> a)"

definition new_timer :: "u64 \<Rightarrow> int \<Rightarrow> Schedule option \<Rightarrow> TimeWheel \<Rightarrow> TimeWheel option" where
  "new_timer i e s w =
     addOrRun (length (tw_timers w))
       (w\<lparr>tw_timers := tw_timers w @ [\<lparr>tm_id = i, tm_expiration = e, tm_sched = s, tm_bucket = None\<rparr>]\<rparr>)"

definition AfterFunc :: "u64 \<Rightarrow> int \<Rightarrow> int \<Rightarrow> TimeWheel \<Rightarrow> TimeWheel option" where
  "AfterFunc i now d w = new_timer i (TimeToMS (now + d)) None w"

definition ScheduleFunc :: "u64 \<Rightarrow> int \<Rightarrow> Schedule \<Rightarrow> TimeWheel \<Rightarrow> TimeWheel option" where
  "ScheduleFunc i now s w = new_timer i (TimeToMS (sched_Next (tw_zone w) s now)) (Some s) w"

definition AddEveryFunc :: "u64 \<Rightarrow> int \<Rightarrow> int \<Rightarrow> TimeWheel \<Rightarrow> TimeWheel option" where
  "AddEveryFunc i now d w = ScheduleFunc i now (EverySchedule d) w"

definition NextID :: "u64 \<Rightarrow> u64" where
  "NextID c = c + 1"

text \<open>\<open>Stop\<close> of a timer: its loop ends when the timer is in no bucket.\<close>

partial_function (option) timer_Stop :: "bool \<Rightarrow> nat \<Rightarrow> TimeWheel \<Rightarrow> (bool \<times> TimeWheel) option" where
  "timer_Stop stopped p w =
     (case tm_bucket (tw_timers w ! p) of
        None \<Rightarrow> Some (stopped, w)
      | Some r \<Rightarrow> Option.bind (bucket_Remove r p w) (\<lambda>x. case x of (s, w) \<Rightarrow> timer_Stop s p w))"

declare tw_add.simps [code] addOrRun.simps [code] timer_Stop.simps [code]

section \<open>Invariant\<close>

abbreviation wtick :: "TimeWheel \<Rightarrow> int" where "wtick w \<equiv> wh_tick (tw_wheels w ! 0)"
abbreviation wsize :: "TimeWheel \<Rightarrow> int" where "wsize w \<equiv> wh_size (tw_wheels w ! 0)"
abbreviation wclock :: "TimeWheel \<Rightarrow> int" where "wclock w \<equiv> wh_current (tw_wheels w ! 0)"

text \<open>The shape of the wheel at level \<open>k\<close> when the base clock shows \<open>c\<close>.\<close>

definition wheel_ok :: "int \<Rightarrow> int \<Rightarrow> int \<Rightarrow> nat \<Rightarrow> Wheel \<Rightarrow> bool" where
  "wheel_ok T S c k wh \<longleftrightarrow> wh_tick wh = T * S ^ k \<and> wh_size wh = S \<and> wh_interval wh = T * S ^ k * S \<and>
     length (wh_buckets wh) = nat S \<and> wh_current wh = c div (T * S ^ k) * (T * S ^ k)"

definition geo :: "TimeWheel \<Rightarrow> bool" where
  "geo w \<longleftrightarrow> tw_wheels w \<noteq> [] \<and> 0 < wtick w \<and> 2 \<le> wsize w \<and> 0 \<le> wclock w \<and> wtick w dvd wclock w \<and>
     (\<forall>k < length (tw_wheels w). wheel_ok (wtick w) (wsize w) (wclock w) k (tw_wheels w ! k))"

definition valid_ref :: "TimeWheel \<Rightarrow> bref \<Rightarrow> bool" where
  "valid_ref w r \<longleftrightarrow> fst r < length (tw_wheels w) \<and> int (snd r) < wsize w"

abbreviation ltick :: "TimeWheel \<Rightarrow> nat \<Rightarrow> int" where "ltick w k \<equiv> wtick w * wsize w ^ k"

text \<open>A bucket in use holds timers of one tick of its wheel, within one turn from the clock.\<close>

definition bucket_ok :: "TimeWheel \<Rightarrow> bref \<Rightarrow> bool" where
  "bucket_ok w r \<longleftrightarrow>
     (let b = get_bucket r w; tk = ltick w (fst r) in
      distinct (bk_timers b) \<and>
      (bk_expiration b = - 1 \<longrightarrow> bk_timers b = []) \<and>
      (bk_expiration b \<noteq> - 1 \<longrightarrow>
         tk dvd bk_expiration b \<and> (bk_expiration b div tk) mod wsize w = int (snd r) \<and>
         wclock w \<le> bk_expiration b \<and> bk_expiration b < wclock w div tk * tk + tk * wsize w) \<and>
      (\<forall>p \<in> set (bk_timers b). p < length (tw_timers w) \<and> tm_bucket (tw_timers w ! p) = Some r \<and>
         tm_expiration (tw_timers w ! p) div tk * tk = bk_expiration b))"

definition in_queue :: "TimeWheel \<Rightarrow> bref \<Rightarrow> int \<Rightarrow> bool" where
  "in_queue w r e \<longleftrightarrow> valid_ref w r \<and> bk_expiration (get_bucket r w) = e \<and> e \<noteq> - 1 \<and> tw_locked w \<noteq> Some r"

definition valid_sched :: "Schedule option \<Rightarrow> bool" where
  "valid_sched s \<longleftrightarrow> (case s of
       Some (EverySchedule d) \<Rightarrow> 1000000 \<le> d
     | Some (FixedDateSchedule hr mn sc) \<Rightarrow> 0 \<le> mn \<and> 0 \<le> sc
     | None \<Rightarrow> True)"

definition run_count :: "nat \<Rightarrow> TimeWheel \<Rightarrow> nat" where
  "run_count p w = length (filter (\<lambda>x. fst x = p) (tw_runs w))"

definition pending :: "nat \<Rightarrow> TimeWheel \<Rightarrow> nat" where
  "pending p w = (if tm_bucket (tw_timers w ! p) = None then 0 else 1)"

definition tw_inv :: "TimeWheel \<Rightarrow> bool" where
  "tw_inv w \<longleftrightarrow> geo w \<and> (\<forall>r. valid_ref w r \<longrightarrow> bucket_ok w r) \<and>
     (\<forall>p < length (tw_timers w). \<forall>r. tm_bucket (tw_timers w ! p) = Some r \<longrightarrow>
        valid_ref w r \<and> p \<in> set (bk_timers (get_bucket r w))) \<and>
     pq_inv (tw_queue w) \<and> (\<forall>r e. count (contents (tw_queue w)) (r, e) = (if in_queue w r e then 1 else 0)) \<and>
     (\<forall>r. tw_locked w = Some r \<longrightarrow> valid_ref w r \<and> bk_expiration (get_bucket r w) = wclock w) \<and>
     (\<forall>p < length (tw_timers w). valid_sched (tm_sched (tw_timers w ! p)) \<and>
        (tm_sched (tw_timers w ! p) = None \<longrightarrow> run_count p w + pending p w \<le> 1)) \<and>
     (\<forall>(p, e, c) \<in> set (tw_runs w). p < length (tw_timers w) \<and> e < c + wtick w \<and> c \<le> wclock w)"

lemma tw_invD:
  assumes "tw_inv w"
  shows "geo w" "valid_ref w r \<Longrightarrow> bucket_ok w r"
    and "p < length (tw_timers w) \<Longrightarrow> tm_bucket (tw_timers w ! p) = Some r \<Longrightarrow>
        valid_ref w r \<and> p \<in> set (bk_timers (get_bucket r w))"
    and "pq_inv (tw_queue w)" "count (contents (tw_queue w)) (r, e) = (if in_queue w r e then 1 else 0)"
    and "tw_locked w = Some r \<Longrightarrow> valid_ref w r \<and> bk_expiration (get_bucket r w) = wclock w"
    and "p < length (tw_timers w) \<Longrightarrow> valid_sched (tm_sched (tw_timers w ! p))"
    and "p < length (tw_timers w) \<Longrightarrow> tm_sched (tw_timers w ! p) = None \<Longrightarrow> run_count p w + pending p w \<le> 1"
    and "x \<in> set (tw_runs w) \<Longrightarrow> fst x < length (tw_timers w) \<and> fst (snd x) < snd (snd x) + wtick w \<and> snd (snd x) \<le> wclock w"
  using assms unfolding tw_inv_def by (blast | fastforce)+

lemma tw_invI:
  assumes "geo w" "\<And>r. valid_ref w r \<Longrightarrow> bucket_ok w r"
    "\<And>p r. p < length (tw_timers w) \<Longrightarrow> tm_bucket (tw_timers w ! p) = Some r \<Longrightarrow>
        valid_ref w r \<and> p \<in> set (bk_timers (get_bucket r w))"
    "pq_inv (tw_queue w)" "\<And>r e. count (contents (tw_queue w)) (r, e) = (if in_queue w r e then 1 else 0)"
    "\<And>r. tw_locked w = Some r \<Longrightarrow> valid_ref w r \<and> bk_expiration (get_bucket r w) = wclock w"
    "\<And>p. p < length (tw_timers w) \<Longrightarrow> valid_sched (tm_sched (tw_timers w ! p))"
    "\<And>p. p < length (tw_timers w) \<Longrightarrow> tm_sched (tw_timers w ! p) = None \<Longrightarrow> run_count p w + pending p w \<le> 1"
    "\<And>x. x \<in> set (tw_runs w) \<Longrightarrow> fst x < length (tw_timers w) \<and> fst (snd x) < snd (snd x) + wtick w \<and> snd (snd x) \<le> wclock w"
  shows "tw_inv w"
  unfolding tw_inv_def using assms by fastforce

lemma geo_level:
  assumes "geo w" "k < length (tw_wheels w)"
  shows "wh_tick (tw_wheels w ! k) = ltick w k" "wh_size (tw_wheels w ! k) = wsize w"
    "wh_interval (tw_wheels w ! k) = ltick w k * wsize w" "length (wh_buckets (tw_wheels w ! k)) = nat (wsize w)"
    "wh_current (tw_wheels w ! k) = wclock w div ltick w k * ltick w k"
  using assms unfolding geo_def wheel_ok_def by blast+

lemma geo_pos:
  assumes "geo w"
  shows "0 < ltick w k" "0 < wsize w" "0 \<le> wclock w" "2 \<le> wsize w"
proof -
  have "0 < wtick w" "2 \<le> wsize w" "0 \<le> wclock w" using assms unfolding geo_def by blast+
  then show "0 < ltick w k" "0 < wsize w" "0 \<le> wclock w" "2 \<le> wsize w" by simp_all
qed

section \<open>Arithmetic\<close>

lemma sdiv_pos: "0 \<le> a \<Longrightarrow> 0 < b \<Longrightarrow> a sdiv b = a div b" "0 \<le> a \<Longrightarrow> 0 < b \<Longrightarrow> a smod b = a mod b" for a b :: int
  by (simp_all add: signed_divide_int_def signed_modulo_int_def sgn_if)

lemma truncate_ms_pos: "0 \<le> a \<Longrightarrow> 0 < b \<Longrightarrow> truncate_ms a b = a div b * b"
  by (simp add: truncate_ms_def sdiv_pos minus_mod_eq_div_mult)

lemma trunc_trunc: "0 < a \<Longrightarrow> 0 < b \<Longrightarrow> (c div a * a) div (a * b) * (a * b) = c div (a * b) * (a * b)" for a b c :: int
proof -
  assume "0 < a" "0 < b"
  then have "(a * (c div a)) div (a * b) = c div a div b" "c div (a * b) = c div a div b"
    by (simp_all add: zdiv_zmult2_eq)
  then show ?thesis by (simp only: mult.commute [of "c div a" a])
qed

lemma floor_bounds: "0 < a \<Longrightarrow> c div a * a \<le> c" "0 < a \<Longrightarrow> c < c div a * a + a" for a c :: int
  using mod_pos_pos_trivial pos_mod_bound [of a c] pos_mod_sign [of a c] div_mult_mod_eq [of c a] by linarith+

text \<open>Two numbers in one window of \<open>S\<close> with the same residue are equal.\<close>

lemma same_slot:
  fixes n S :: int
  assumes "n \<le> V" "V < n + S" "n \<le> V'" "V' < n + S" "V mod S = V' mod S"
  shows "V = V'"
proof -
  have "S dvd V - V'" using assms(5) by (simp add: mod_eq_dvd_iff)
  moreover have "\<bar>V - V'\<bar> < S" using assms by linarith
  ultimately have "V - V' = 0" using zdvd_imp_le [of S "\<bar>V - V'\<bar>"] by (metis abs_dvd_iff dvd_abs_iff linorder_not_less zero_less_abs_iff)
  then show ?thesis by simp
qed

lemma floor_div: "0 < a \<Longrightarrow> (c div a * a) div a = c div a" for a c :: int
  by simp

lemma mult_less_div: "0 < a \<Longrightarrow> x * a < y \<Longrightarrow> x * a + a \<le> y \<Longrightarrow> x + 1 \<le> y div a" for a x y :: int
  by (metis distrib_right mult_1 zdiv_mono1 nonzero_mult_div_cancel_right less_irrefl)

section \<open>Adding a timer to a bucket\<close>

lemma put_bucket_simps [simp]:
  "length (tw_wheels (put_bucket r b w)) = length (tw_wheels w)"
  "tw_queue (put_bucket r b w) = tw_queue w" "tw_timers (put_bucket r b w) = tw_timers w"
  "tw_locked (put_bucket r b w) = tw_locked w" "tw_zone (put_bucket r b w) = tw_zone w"
  "tw_runs (put_bucket r b w) = tw_runs w"
  by (simp_all add: put_bucket_def)

lemma put_timer_simps [simp]:
  "tw_wheels (put_timer p t w) = tw_wheels w" "tw_queue (put_timer p t w) = tw_queue w"
  "tw_timers (put_timer p t w) = (tw_timers w)[p := t]" "tw_locked (put_timer p t w) = tw_locked w"
  "tw_zone (put_timer p t w) = tw_zone w" "tw_runs (put_timer p t w) = tw_runs w"
  "get_bucket r (put_timer p t w) = get_bucket r w"
  by (simp_all add: put_timer_def get_bucket_def)

lemma put_bucket_wheel:
  "wh_tick (tw_wheels (put_bucket r b w) ! k) = wh_tick (tw_wheels w ! k)"
  "wh_size (tw_wheels (put_bucket r b w) ! k) = wh_size (tw_wheels w ! k)"
  "wh_interval (tw_wheels (put_bucket r b w) ! k) = wh_interval (tw_wheels w ! k)"
  "wh_current (tw_wheels (put_bucket r b w) ! k) = wh_current (tw_wheels w ! k)"
  "length (wh_buckets (tw_wheels (put_bucket r b w) ! k)) = length (wh_buckets (tw_wheels w ! k))"
proof -
  let ?x = "(tw_wheels w ! fst r)\<lparr>wh_buckets := (wh_buckets (tw_wheels w ! fst r))[snd r := b]\<rparr>"
  have "tw_wheels (put_bucket r b w) ! k = (if k = fst r \<and> k < length (tw_wheels w) then ?x else tw_wheels w ! k)"
    by (cases "fst r < length (tw_wheels w)"; cases "k = fst r") (simp_all add: put_bucket_def list_update_beyond)
  then show "wh_tick (tw_wheels (put_bucket r b w) ! k) = wh_tick (tw_wheels w ! k)"
    "wh_size (tw_wheels (put_bucket r b w) ! k) = wh_size (tw_wheels w ! k)"
    "wh_interval (tw_wheels (put_bucket r b w) ! k) = wh_interval (tw_wheels w ! k)"
    "wh_current (tw_wheels (put_bucket r b w) ! k) = wh_current (tw_wheels w ! k)"
    "length (wh_buckets (tw_wheels (put_bucket r b w) ! k)) = length (wh_buckets (tw_wheels w ! k))"
    by auto
qed

declare put_bucket_wheel [simp]

lemma geo_put [simp]: "geo (put_bucket r b w) \<longleftrightarrow> geo w"
proof -
  have "tw_wheels (put_bucket r b w) = [] \<longleftrightarrow> tw_wheels w = []" by (simp add: put_bucket_def)
  then show ?thesis by (simp add: geo_def wheel_ok_def)
qed

lemma valid_ref_put [simp]: "valid_ref (put_bucket r b w) r' \<longleftrightarrow> valid_ref w r'"
  by (simp add: valid_ref_def)

lemma get_put_bucket:
  assumes "geo w" "valid_ref w r"
  shows "get_bucket r' (put_bucket r b w) = (if r' = r then b else get_bucket r' w)"
proof -
  have l: "fst r < length (tw_wheels w)" "snd r < length (wh_buckets (tw_wheels w ! fst r))"
    using assms geo_level(4) [OF assms(1), of "fst r"] by (auto simp: valid_ref_def)
  then show ?thesis by (cases "fst r' = fst r"; cases "snd r' = snd r") (auto simp: get_bucket_def put_bucket_def prod_eq_iff)
qed

text \<open>The state after timer \<open>p\<close> went into bucket \<open>r\<close> with bucket expiration \<open>E\<close>, the queue becoming \<open>q\<close>.\<close>

definition inserted :: "nat \<Rightarrow> bref \<Rightarrow> int \<Rightarrow> bref priorityQueue \<Rightarrow> TimeWheel \<Rightarrow> TimeWheel" where
  "inserted p r E q w = (put_timer p ((tw_timers w ! p)\<lparr>tm_bucket := Some r\<rparr>)
     (put_bucket r \<lparr>bk_expiration = E, bk_timers = bk_timers (get_bucket r w) @ [p]\<rparr> w))\<lparr>tw_queue := q\<rparr>"

lemma get_bucket_queue [simp]: "get_bucket r (w\<lparr>tw_queue := q\<rparr>) = get_bucket r w"
  by (simp add: get_bucket_def)

lemma inserted_simps [simp]:
  "length (tw_wheels (inserted p r E q w)) = length (tw_wheels w)"
  "tw_timers (inserted p r E q w) = (tw_timers w)[p := (tw_timers w ! p)\<lparr>tm_bucket := Some r\<rparr>]"
  "tw_queue (inserted p r E q w) = q" "tw_locked (inserted p r E q w) = tw_locked w"
  "tw_zone (inserted p r E q w) = tw_zone w" "tw_runs (inserted p r E q w) = tw_runs w"
  "wh_tick (tw_wheels (inserted p r E q w) ! k) = wh_tick (tw_wheels w ! k)"
  "wh_size (tw_wheels (inserted p r E q w) ! k) = wh_size (tw_wheels w ! k)"
  "wh_current (tw_wheels (inserted p r E q w) ! k) = wh_current (tw_wheels w ! k)"
  by (simp_all add: inserted_def)

lemma geo_fields:
  "geo (w\<lparr>tw_queue := q\<rparr>) \<longleftrightarrow> geo w" "geo (put_timer p t w) \<longleftrightarrow> geo w"
  "valid_ref (w\<lparr>tw_queue := q\<rparr>) r \<longleftrightarrow> valid_ref w r" "valid_ref (put_timer p t w) r \<longleftrightarrow> valid_ref w r"
  by (simp_all add: geo_def valid_ref_def)

lemma inserted_geo [simp]: "geo (inserted p r E q w) \<longleftrightarrow> geo w" "valid_ref (inserted p r E q w) r' \<longleftrightarrow> valid_ref w r'"
  by (simp_all add: inserted_def geo_fields)

lemma get_inserted:
  assumes "geo w" "valid_ref w r"
  shows "get_bucket r' (inserted p r E q w) =
    (if r' = r then \<lparr>bk_expiration = E, bk_timers = bk_timers (get_bucket r w) @ [p]\<rparr> else get_bucket r' w)"
  by (simp add: inserted_def get_put_bucket [OF assms])

lemma inserted_bucket_ok:
  assumes I: "tw_inv w" and p: "p < length (tw_timers w)" "tm_bucket (tw_timers w ! p) = None" and r: "valid_ref w r"
    and E: "E = tm_expiration (tw_timers w ! p) div ltick w (fst r) * ltick w (fst r)"
      "(E div ltick w (fst r)) mod wsize w = int (snd r)" "E \<noteq> - 1" "wclock w \<le> E"
      "E < wclock w div ltick w (fst r) * ltick w (fst r) + ltick w (fst r) * wsize w"
    and old: "bk_expiration (get_bucket r w) \<in> {- 1, E}" and r': "valid_ref w r'"
  shows "bucket_ok (inserted p r E q w) r'"
proof -
  note G = tw_invD(1) [OF I] and B = tw_invD(2) [OF I]
  have notin: "p \<notin> set (bk_timers (get_bucket s w))" if "valid_ref w s" for s
    using B [OF that] p(2) by (auto simp: bucket_ok_def Let_def)
  show ?thesis
  proof (cases "r' = r")
    case True
    have "ltick w (fst r) dvd E" using E(1) by simp
    moreover have "tm_expiration (tw_timers w ! x) div ltick w (fst r) * ltick w (fst r) = E"
      if "x \<in> set (bk_timers (get_bucket r w))" for x
      using B [OF r] old that by (auto simp: bucket_ok_def Let_def)
    ultimately show ?thesis
      using True B [OF r] notin [OF r] E p
      by (simp add: bucket_ok_def Let_def get_inserted [OF G r] nth_list_update)
  next
    case False
    have t: "tw_timers (inserted p r E q w) ! x = tw_timers w ! x" if "x \<in> set (bk_timers (get_bucket r' w))" for x
    proof -
      have "x \<noteq> p" using notin [OF r'] that by auto
      then show ?thesis by simp
    qed
    have "get_bucket r' (inserted p r E q w) = get_bucket r' w" using False by (simp add: get_inserted [OF G r])
    then show ?thesis
      using B [OF r'] t by (simp add: bucket_ok_def Let_def del: inserted_simps(2)) simp
  qed
qed

lemma inserted_inv:
  assumes I: "tw_inv w" and p: "p < length (tw_timers w)" "tm_bucket (tw_timers w ! p) = None"
      "tm_sched (tw_timers w ! p) = None \<longrightarrow> run_count p w = 0"
    and r: "valid_ref w r" "tw_locked w \<noteq> Some r"
    and E: "E = tm_expiration (tw_timers w ! p) div ltick w (fst r) * ltick w (fst r)"
      "(E div ltick w (fst r)) mod wsize w = int (snd r)" "E \<noteq> - 1" "wclock w \<le> E"
      "E < wclock w div ltick w (fst r) * ltick w (fst r) + ltick w (fst r) * wsize w"
    and q: "pq_inv q" and old: "bk_expiration (get_bucket r w) = E \<and> contents q = contents (tw_queue w) \<or>
      bk_expiration (get_bucket r w) = - 1 \<and> contents q = add_mset (r, E) (contents (tw_queue w))"
  shows "tw_inv (inserted p r E q w)"
proof -
  let ?w = "inserted p r E q w"
  note G = tw_invD(1) [OF I]
  have b: "bk_expiration (get_bucket r w) \<in> {- 1, E}" using old by auto
  note bo = inserted_bucket_ok [OF I p(1,2) r(1) E b]
  have tb: "valid_ref ?w s \<and> x \<in> set (bk_timers (get_bucket s ?w))"
    if "x < length (tw_timers ?w)" "tm_bucket (tw_timers ?w ! x) = Some s" for x s
  proof (cases "x = p")
    case True
    then have "s = r" using that(2) p(1) by simp
    then show ?thesis using True r(1) by (simp add: get_inserted [OF G r(1)])
  next
    case False
    then have "valid_ref w s \<and> x \<in> set (bk_timers (get_bucket s w))" using that tw_invD(3) [OF I, of x s] by simp
    then show ?thesis by (auto simp: get_inserted [OF G r(1)])
  qed
  have cq: "count (contents (tw_queue ?w)) (s, e) = (if in_queue ?w s e then 1 else 0)" for s e
    using tw_invD(5) [OF I, of s e] old r E(3) by (cases "s = r") (auto simp: in_queue_def get_inserted [OF G r(1)])
  have lk: "valid_ref ?w s \<and> bk_expiration (get_bucket s ?w) = wclock ?w" if "tw_locked ?w = Some s" for s
    using tw_invD(6) [OF I, of s] r(2) that by (auto simp: get_inserted [OF G r(1)])
  have rc: "run_count x ?w = run_count x w" for x by (simp add: run_count_def)
  have once: "valid_sched (tm_sched (tw_timers ?w ! x)) \<and> (tm_sched (tw_timers ?w ! x) = None \<longrightarrow> run_count x ?w + pending x ?w \<le> 1)"
    if "x < length (tw_timers ?w)" for x
    using tw_invD(7,8) [OF I, of x] p that by (cases "x = p") (auto simp: rc pending_def)
  have runs: "\<forall>(x, e, c) \<in> set (tw_runs ?w). x < length (tw_timers ?w) \<and> e < c + wtick ?w \<and> c \<le> wclock ?w"
    using I by (simp add: tw_inv_def)
  show ?thesis unfolding tw_inv_def using G bo tb cq lk once runs q by simp
qed

text \<open>The buckets that expire at the instant the clock shows.\<close>

definition due :: "TimeWheel \<Rightarrow> bref set" where
  "due w = {r. valid_ref w r \<and> bk_expiration (get_bucket r w) = wclock w}"

text \<open>What an addition leaves as it was, the new bucket of the timer apart.\<close>

definition added :: "nat \<Rightarrow> TimeWheel \<Rightarrow> TimeWheel \<Rightarrow> bool" where
  "added p w w' \<longleftrightarrow> tw_inv w' \<and>
     (\<exists>r. tw_timers w' = (tw_timers w)[p := (tw_timers w ! p)\<lparr>tm_bucket := Some r\<rparr>]) \<and>
     tw_runs w' = tw_runs w \<and> tw_locked w' = tw_locked w \<and> tw_zone w' = tw_zone w \<and>
     wclock w' = wclock w \<and> wtick w' = wtick w \<and> wsize w' = wsize w \<and>
     (\<forall>r. tw_locked w = Some r \<longrightarrow> get_bucket r w' = get_bucket r w) \<and> due w' \<subseteq> due w"

definition addable :: "nat \<Rightarrow> TimeWheel \<Rightarrow> bool" where
  "addable p w \<longleftrightarrow> p < length (tw_timers w) \<and> tm_bucket (tw_timers w ! p) = None \<and>
     (tm_sched (tw_timers w ! p) = None \<longrightarrow> run_count p w = 0)"

lemma slot_not_locked:
  assumes I: "tw_inv w" and L: "tw_locked w = Some (lvl, s)"
    and V: "wclock w div ltick w lvl < V" "V < wclock w div ltick w lvl + wsize w" "V mod wsize w = int s"
  shows False
proof -
  note G = geo_pos [OF tw_invD(1) [OF I]]
  have v: "valid_ref w (lvl, s)" and e: "bk_expiration (get_bucket (lvl, s) w) = wclock w" using tw_invD(6) [OF I L] by auto
  have "wclock w \<noteq> - 1" using G(3) by linarith
  then have "(wclock w div ltick w lvl) mod wsize w = int s"
    using tw_invD(2) [OF I v] e by (simp add: bucket_ok_def Let_def)
  then show False using same_slot [of "wclock w div ltick w lvl" "wclock w div ltick w lvl" "wsize w" V] V G(2) by simp
qed

lemma slot_expiration:
  assumes I: "tw_inv w" and v: "valid_ref w (lvl, s)" and n: "bk_expiration (get_bucket (lvl, s) w) \<noteq> - 1"
    and V: "wclock w div ltick w lvl < V" "V < wclock w div ltick w lvl + wsize w" "V mod wsize w = int s"
  shows "bk_expiration (get_bucket (lvl, s) w) = V * ltick w lvl"
proof -
  let ?tk = "ltick w lvl" and ?e = "bk_expiration (get_bucket (lvl, s) w)"
  note G = geo_pos [OF tw_invD(1) [OF I]]
  have t: "0 < ?tk" by (rule G(1))
  have b: "?tk dvd ?e" "(?e div ?tk) mod wsize w = int s" "wclock w \<le> ?e" "?e < wclock w div ?tk * ?tk + ?tk * wsize w"
    using tw_invD(2) [OF I v] n by (simp_all add: bucket_ok_def Let_def)
  have e: "?e = ?e div ?tk * ?tk" using b(1) by simp
  have "wclock w div ?tk \<le> ?e div ?tk" using b(3) t by (simp add: zdiv_mono1)
  moreover have "?e div ?tk < wclock w div ?tk + wsize w"
  proof -
    have "?e div ?tk * ?tk < (wclock w div ?tk + wsize w) * ?tk" using b(4) e by (simp add: algebra_simps)
    then show ?thesis using t by (simp add: mult_less_cancel_right)
  qed
  ultimately have "?e div ?tk = V"
    using same_slot [of "wclock w div ?tk" "?e div ?tk" "wsize w" V] V b(2) by simp
  then show ?thesis using e by simp
qed

lemma put_put:
  assumes "fst r < length (tw_wheels w)"
  shows "put_bucket r b2 (put_timer p t (put_bucket r b1 w)) = put_timer p t (put_bucket r b2 w)"
  using assms by (simp add: put_bucket_def put_timer_def)

lemma bucket_update: "b\<lparr>bk_timers := ps, bk_expiration := e\<rparr> = \<lparr>bk_expiration = e, bk_timers = ps\<rparr>" for b :: bucket
  by (cases b) simp

lemma offer_props:
  "pq_inv q \<Longrightarrow> \<exists>q' j. heap_Push \<lparr>it_Value = r, it_Priority = e, it_Index = 0\<rparr> q = Some (q', j) \<and> pq_inv q' \<and>
     contents q' = add_mset (r, e) (contents q)"
  by (erule heap_Push_props [of q "\<lparr>it_Value = r, it_Priority = e, it_Index = 0\<rparr>"]) (auto simp: core_def)

lemma add_here_step:
  assumes G: "geo w" and l: "lvl < length (tw_wheels w)" and v: "valid_ref w (lvl, s)" and nl: "tw_locked w \<noteq> Some (lvl, s)"
    and V: "tm_expiration (tw_timers w ! p) sdiv wh_tick (tw_wheels w ! lvl) = V"
      "V smod wh_size (tw_wheels w ! lvl) = int s" "V * wh_tick (tw_wheels w ! lvl) = E"
  shows "add_here lvl p w =
      (if bk_expiration (get_bucket (lvl, s) w) \<noteq> E
       then (case heap_Push \<lparr>it_Value = (lvl, s), it_Priority = E, it_Index = 0\<rparr> (tw_queue w) of
               None \<Rightarrow> None | Some (q, _) \<Rightarrow> Some (inserted p (lvl, s) E q w))
       else Some (inserted p (lvl, s) E (tw_queue w) w))"
proof -
  let ?r = "(lvl, s)"
  let ?b = "get_bucket ?r w" and ?t = "(tw_timers w ! p)\<lparr>tm_bucket := Some ?r\<rparr>"
  let ?w1 = "put_timer p ?t (put_bucket ?r (?b\<lparr>bk_timers := bk_timers ?b @ [p]\<rparr>) w)"
  let ?w2 = "put_timer p ?t (put_bucket ?r \<lparr>bk_expiration = E, bk_timers = bk_timers ?b @ [p]\<rparr> w)"
  have g1: "get_bucket ?r ?w1 = ?b\<lparr>bk_timers := bk_timers ?b @ [p]\<rparr>" by (simp add: get_put_bucket [OF G v])
  have pe: "put_bucket ?r ((get_bucket ?r ?w1)\<lparr>bk_expiration := E\<rparr>) ?w1 = ?w2"
    unfolding g1 bucket_update using l by (intro put_put) simp
  have "bk_expiration (get_bucket ?r ?w1) = bk_expiration ?b" unfolding g1 by simp
  then have se: "SetExpiration ?r E ?w1 = (bk_expiration ?b \<noteq> E, ?w2)"
    unfolding SetExpiration_def pe by simp
  have ad: "bucket_Add ?r p w = Some ?w1" using nl by (simp add: bucket_Add_def)
  have "int s < int (length (wh_buckets (tw_wheels w ! lvl)))"
    using v geo_level(4) [OF G l] by (simp add: valid_ref_def)
  then have ah: "add_here lvl p w = (case SetExpiration ?r E ?w1 of
      (True, w) \<Rightarrow> tw_Offer ?r (bk_expiration (get_bucket ?r w)) w | (False, w) \<Rightarrow> Some w)"
    unfolding add_here_def Let_def V nat_int by (simp add: ad del: put_timer_simps)
  show ?thesis unfolding ah se
    by (auto simp: tw_Offer_def get_put_bucket [OF G v] inserted_def split: option.split prod.split)
qed

lemma add_here_ok:
  assumes I: "tw_inv w" and p: "addable p w" and l: "lvl < length (tw_wheels w)"
    and lo: "wclock w div ltick w lvl * ltick w lvl + ltick w lvl \<le> tm_expiration (tw_timers w ! p)"
    and hi: "tm_expiration (tw_timers w ! p) < wclock w div ltick w lvl * ltick w lvl + ltick w lvl * wsize w"
  shows "\<exists>w'. add_here lvl p w = Some w' \<and> added p w w'"
proof -
  let ?tk = "ltick w lvl" and ?e = "tm_expiration (tw_timers w ! p)" and ?n = "wclock w div ltick w lvl"
  let ?V = "?e div ?tk" and ?s = "nat (?e div ?tk mod wsize w)"
  let ?r = "(lvl, ?s)" and ?E = "?V * ?tk"
  note Ge = tw_invD(1) [OF I] and G = geo_pos [OF tw_invD(1) [OF I]]
  have tk: "0 < ?tk" by (rule G(1))
  have n0: "0 \<le> ?n * ?tk" using G(3) tk by (simp add: pos_imp_zdiv_nonneg_iff)
  have e0: "0 \<le> ?e" using lo n0 tk by linarith
  have V: "?n < ?V" "?V < ?n + wsize w"
  proof -
    have "(?n + 1) * ?tk \<le> ?e" using lo by (simp add: algebra_simps)
    then have "?n + 1 \<le> ?V" using tk by (metis zdiv_mono1 nonzero_mult_div_cancel_right less_irrefl)
    then show "?n < ?V" by simp
    have "?V * ?tk < (?n + wsize w) * ?tk" using hi floor_bounds(1) [OF tk, of ?e] by (simp add: algebra_simps)
    then show "?V < ?n + wsize w" using tk by (simp add: mult_less_cancel_right)
  qed
  have m: "int ?s = ?V mod wsize w" "int ?s < wsize w" using G(2) by simp_all
  have v: "valid_ref w ?r" using l m by (simp add: valid_ref_def)
  have nl: "tw_locked w \<noteq> Some ?r" 
  proof
    assume "tw_locked w = Some ?r"
    then show False by (rule slot_not_locked [OF I _ V m(1) [symmetric]])
  qed
  have cE': "wclock w < ?E"
  proof -
    have "(?n + 1) * ?tk \<le> ?E" using V(1) tk by (intro mult_right_mono) auto
    then show ?thesis using floor_bounds(2) [OF tk, of "wclock w"] by (simp add: algebra_simps)
  qed
  then have cE: "wclock w \<le> ?E" by simp
  have En: "?E \<noteq> - 1" using cE G(3) by linarith
  have Eb: "?E < ?n * ?tk + ?tk * wsize w" using hi floor_bounds(1) [OF tk, of ?e] by linarith
  have "?E div ?tk = ?V" using tk by (intro nonzero_mult_div_cancel_right) linarith
  then have Es: "(?E div ?tk) mod wsize w = int ?s" by (simp only: m(1))
  have pp: "p < length (tw_timers w)" "tm_bucket (tw_timers w ! p) = None" "tm_sched (tw_timers w ! p) = None \<longrightarrow> run_count p w = 0"
    using p by (auto simp: addable_def)
  have V0: "0 \<le> ?V" using e0 pos_imp_zdiv_nonneg_iff [OF tk] by blast
  have slot: "?e sdiv ?tk = ?V" "?V smod wsize w = int ?s"
    unfolding m(1) by (rule sdiv_pos(1) [OF e0 tk], rule sdiv_pos(2) [OF V0 G(2)])
  note ins = inserted_inv [OF I _ _ _ v nl, of p ?E, unfolded fst_conv snd_conv, OF pp refl Es En cE Eb]
  note step = add_here_step [OF Ge l v nl, of p ?V ?E, unfolded geo_level(1,2) [OF Ge l], OF slot refl]
  have dn: "added p w (inserted p ?r ?E q w)" if "tw_inv (inserted p ?r ?E q w)" for q
    using that nl cE' by (auto simp: added_def due_def get_inserted [OF Ge v] split: if_splits)
  show ?thesis
  proof (cases "bk_expiration (get_bucket ?r w) = ?E")
    case True
    then have "tw_inv (inserted p ?r ?E (tw_queue w) w)"
      by (intro ins tw_invD(4) [OF I] disjI1 conjI refl)
    then show ?thesis using True step dn by simp
  next
    case False
    then have o: "bk_expiration (get_bucket ?r w) = - 1"
      using slot_expiration [OF I v _ V m(1) [symmetric]] by blast
    obtain q j where q: "heap_Push \<lparr>it_Value = ?r, it_Priority = ?E, it_Index = 0\<rparr> (tw_queue w) = Some (q, j)" "pq_inv q"
        "contents q = add_mset (?r, ?E) (contents (tw_queue w))"
      using offer_props [OF tw_invD(4) [OF I]] by blast
    have "tw_inv (inserted p ?r ?E q w)" by (intro ins disjI2 conjI q o)
    then show ?thesis using False step q dn by simp
  qed
qed

section \<open>The hierarchy\<close>

definition grown :: "TimeWheel \<Rightarrow> TimeWheel \<Rightarrow> bool" where
  "grown w w' \<longleftrightarrow> tw_inv w' \<and> length (tw_wheels w) \<le> length (tw_wheels w') \<and> tw_timers w' = tw_timers w \<and>
     tw_runs w' = tw_runs w \<and> tw_locked w' = tw_locked w \<and> tw_zone w' = tw_zone w \<and> wclock w' = wclock w \<and>
     wtick w' = wtick w \<and> wsize w' = wsize w \<and> (\<forall>r. valid_ref w r \<longrightarrow> get_bucket r w' = get_bucket r w) \<and> due w' \<subseteq> due w"

lemma grown_added: "grown w w' \<Longrightarrow> tw_inv w \<Longrightarrow> added p w' w'' \<Longrightarrow> added p w w''"
  using tw_invD(6) [of w] by (auto simp: grown_def added_def)

lemma grown_addable: "grown w w' \<Longrightarrow> addable p w' \<longleftrightarrow> addable p w"
  by (auto simp: grown_def addable_def run_count_def)

lemma new_wheel_ok:
  assumes G: "geo w" and l: "length (tw_wheels w) = Suc k"
  shows "wheel_ok (wtick w) (wsize w) (wclock w) (Suc k)
    (newTimingWheel (wh_interval (tw_wheels w ! k)) (wh_size (tw_wheels w ! k)) (wh_current (tw_wheels w ! k)))"
proof -
  have k: "k < length (tw_wheels w)" using l by simp
  note P = geo_pos [OF G] and L = geo_level [OF G k]
  have t: "ltick w k * wsize w = ltick w (Suc k)" by simp
  have "0 \<le> wclock w div ltick w k * ltick w k" using P(1) [of k] P(3) by (simp add: pos_imp_zdiv_nonneg_iff)
  then have "truncate_ms (wclock w div ltick w k * ltick w k) (ltick w k * wsize w) =
      (wclock w div ltick w k * ltick w k) div (ltick w k * wsize w) * (ltick w k * wsize w)"
    by (rule truncate_ms_pos [OF _ mult_pos_pos [OF P(1,2)]])
  also have "\<dots> = wclock w div ltick w (Suc k) * ltick w (Suc k)"
    unfolding t [symmetric] by (rule trunc_trunc [OF P(1,2)])
  finally have "truncate_ms (wclock w div ltick w k * ltick w k) (ltick w k * wsize w) = wclock w div ltick w (Suc k) * ltick w (Suc k)" .
  then show ?thesis unfolding L wheel_ok_def newTimingWheel_def by (simp add: mult.assoc)
qed

lemma ensure_overflow_grown:
  assumes I: "tw_inv w" and l: "lvl < length (tw_wheels w)"
  shows "grown w (ensure_overflow lvl w) \<and> Suc lvl < length (tw_wheels (ensure_overflow lvl w))"
proof (cases "Suc lvl < length (tw_wheels w)")
  case True
  then show ?thesis using I by (simp add: ensure_overflow_def grown_def)
next
  case False
  then have len: "length (tw_wheels w) = Suc lvl" using l by simp
  let ?n = "newTimingWheel (wh_interval (tw_wheels w ! lvl)) (wh_size (tw_wheels w ! lvl)) (wh_current (tw_wheels w ! lvl))"
  let ?w = "w\<lparr>tw_wheels := tw_wheels w @ [?n]\<rparr>"
  note G = tw_invD(1) [OF I]
  have e: "ensure_overflow lvl w = ?w" using False by (simp add: ensure_overflow_def Let_def)
  have base': "(tw_wheels w @ [?n]) ! 0 = tw_wheels w ! 0" using len by (simp add: nth_append)
  then have base: "tw_wheels ?w ! 0 = tw_wheels w ! 0" by simp
  have g: "geo ?w"
    using G new_wheel_ok [OF G len] unfolding geo_def base
    by (auto simp: nth_append len less_Suc_eq)
  have vr: "valid_ref ?w r \<longleftrightarrow> valid_ref w r \<or> fst r = Suc lvl \<and> int (snd r) < wsize w" for r
    unfolding valid_ref_def base by (auto simp: len)
  have old: "get_bucket r ?w = get_bucket r w" if "valid_ref w r" for r
    using that by (auto simp: get_bucket_def valid_ref_def nth_append)
  have sz: "wh_size (tw_wheels w ! lvl) = wsize w" using geo_level(2) [OF G l] .
  have new: "get_bucket r ?w = newBucket" if "fst r = Suc lvl" "int (snd r) < wsize w" for r
    using that len by (simp add: get_bucket_def nth_append newTimingWheel_def sz)
  have bo: "bucket_ok ?w r" if v: "valid_ref ?w r" for r
  proof (cases "valid_ref w r")
    case True
    then show ?thesis using tw_invD(2) [OF I True] old [OF True] by (simp add: bucket_ok_def base')
  next
    case False
    then show ?thesis using v vr new by (simp add: bucket_ok_def newBucket_def)
  qed
  have iq: "in_queue ?w r x \<longleftrightarrow> in_queue w r x" for r x
    using vr [of r] old [of r] new [of r] by (auto simp: in_queue_def newBucket_def valid_ref_def len)
  have "tw_inv ?w"
    unfolding tw_inv_def
  proof (intro conjI)
    show "\<forall>p < length (tw_timers ?w). \<forall>r. tm_bucket (tw_timers ?w ! p) = Some r \<longrightarrow> valid_ref ?w r \<and> p \<in> set (bk_timers (get_bucket r ?w))"
      using tw_invD(3) [OF I] vr old by simp
    show "\<forall>r. tw_locked ?w = Some r \<longrightarrow> valid_ref ?w r \<and> bk_expiration (get_bucket r ?w) = wclock ?w"
      using tw_invD(6) [OF I] vr old base' by simp
    show "\<forall>p < length (tw_timers ?w). valid_sched (tm_sched (tw_timers ?w ! p)) \<and>
        (tm_sched (tw_timers ?w ! p) = None \<longrightarrow> run_count p ?w + pending p ?w \<le> 1)"
      using tw_invD(7,8) [OF I] by (simp add: run_count_def pending_def)
    show "\<forall>(p, e, c) \<in> set (tw_runs ?w). p < length (tw_timers ?w) \<and> e < c + wtick ?w \<and> c \<le> wclock ?w"
      using I base' by (simp add: tw_inv_def)
  qed (use g bo iq tw_invD(4,5) [OF I] in simp_all)
  moreover have "due ?w \<subseteq> due w"
    using vr old new base' geo_pos(3) [OF G] by (auto simp: due_def newBucket_def)
  ultimately show ?thesis unfolding e using old base' len by (simp add: grown_def)
qed

lemma tw_add_ok:
  assumes "tw_inv w" "addable p w" "lvl < length (tw_wheels w)"
    "wclock w div ltick w lvl * ltick w lvl + ltick w lvl \<le> tm_expiration (tw_timers w ! p)"
  shows "\<exists>w'. tw_add lvl p w = Some (True, w') \<and> added p w w'"
  using assms
proof (induction "nat (tm_expiration (tw_timers w ! p)) - lvl" arbitrary: lvl w rule: less_induct)
  case less
  let ?e = "tm_expiration (tw_timers w ! p)" and ?c = "wclock w div ltick w lvl * ltick w lvl"
  note I = less.prems(1) and Ge = tw_invD(1) [OF less.prems(1)]
  note L = geo_level [OF Ge less.prems(3)] and P = geo_pos [OF Ge]
  have nlt: "\<not> ?e < ?c + ltick w lvl" using less.prems(4) by simp
  show ?case
  proof (cases "?e < ?c + ltick w lvl * wsize w")
    case True
    obtain w' where w': "add_here lvl p w = Some w'" "added p w w'"
      using add_here_ok [OF less.prems True] by blast
    then show ?thesis using True nlt by (subst tw_add.simps) (simp add: Let_def L)
  next
    case False
    let ?w = "ensure_overflow lvl w"
    have g: "grown w ?w" "Suc lvl < length (tw_wheels ?w)" using ensure_overflow_grown [OF I less.prems(3)] by auto
    have eq: "tm_expiration (tw_timers ?w ! p) = ?e" "wclock ?w = wclock w" "wtick ?w = wtick w" "wsize ?w = wsize w" "tw_inv ?w"
      using g(1) by (simp_all add: grown_def)
    have up: "tw_add lvl p w = tw_add (Suc lvl) p ?w"
      using False nlt by (subst tw_add.simps) (simp add: Let_def L)
    have c0: "0 \<le> ?c" using P(1) [of lvl] P(3) by (simp add: pos_imp_zdiv_nonneg_iff)
    have big: "int lvl < ltick w lvl * wsize w"
    proof -
      have "int lvl < 2 ^ Suc lvl" by (induction lvl) auto
      also have "\<dots> \<le> wsize w ^ Suc lvl" using P(4) by (intro power_mono) auto
      also have "\<dots> \<le> wtick w * wsize w ^ Suc lvl" using P(1) [of 0] P(2) by simp
      finally show ?thesis by (simp add: mult.assoc mult.commute [of "wsize w"])
    qed
    have dec: "nat (tm_expiration (tw_timers ?w ! p)) - Suc lvl < nat ?e - lvl"
      using False c0 big by (simp add: eq)
    have lo: "wclock ?w div ltick ?w (Suc lvl) * ltick ?w (Suc lvl) + ltick ?w (Suc lvl) \<le> tm_expiration (tw_timers ?w ! p)"
    proof -
      have t: "ltick w (Suc lvl) = ltick w lvl * wsize w" by simp
      have "wclock w div (ltick w lvl * wsize w) * (ltick w lvl * wsize w) \<le> ?c"
        using trunc_trunc [OF P(1) [of lvl] P(2), of "wclock w"]
          floor_bounds(1) [OF mult_pos_pos [OF P(1) [of lvl] P(2)], of ?c] by linarith
      then show ?thesis using False unfolding eq t by linarith
    qed
    obtain w' where "tw_add (Suc lvl) p ?w = Some (True, w')" "added p ?w w'"
      using less.hyps [OF dec eq(5) _ g(2) lo] grown_addable [OF g(1)] less.prems(2) by blast
    then show ?thesis using up grown_added [OF g(1) I] by auto
  qed
qed

section \<open>Schedules move forward\<close>

lemma sdiv_ge_div: "0 < m \<Longrightarrow> x div m \<le> x sdiv m" for x m :: int
  by (simp add: sdiv_int_div_0 signed_divide_int_eq_divide_int)

lemma fixed_next_later:
  assumes "0 \<le> mn" "0 \<le> sc"
  shows "prev < sched_Next z (FixedDateSchedule hr mn sc) prev"
proof -
  let ?l = "prev + z * SECOND"
  have a: "?l < ?l div DAY * DAY + DAY" using floor_bounds(2) [of DAY ?l] by (simp add: DAY_def)
  have b: "?l mod DAY < ?l mod DAY div HOUR * HOUR + HOUR" using floor_bounds(2) [of HOUR "?l mod DAY"] by (simp add: HOUR_def)
  have c: "?l = ?l div DAY * DAY + ?l mod DAY" by simp
  have d: "0 \<le> mn * MINUTE" "0 \<le> sc * SECOND" "0 \<le> hr \<Longrightarrow> 0 \<le> hr * HOUR" "24 * HOUR = DAY"
    using assms by (simp_all add: MINUTE_def SECOND_def HOUR_def DAY_def)
  let ?f = "\<lambda>h. ?l div DAY * DAY + h * HOUR + mn * MINUTE + sc * SECOND - z * SECOND"
  show ?thesis
  proof (cases "hr \<ge> 0")
    case True
    then have "sched_Next z (FixedDateSchedule hr mn sc) prev = (if ?f hr - prev > 0 then prev + (?f hr - prev) else ?f hr + 24 * HOUR)"
      by (simp add: Let_def)
    moreover have "prev < ?f hr + 24 * HOUR" using a d(1,2,4) d(3) [OF True] by linarith
    ultimately show ?thesis by simp
  next
    case False
    let ?h = "?l mod DAY div HOUR"
    have "sched_Next z (FixedDateSchedule hr mn sc) prev = (if ?f ?h - prev > 0 then prev + (?f ?h - prev) else ?f ?h + HOUR)"
      using False by (simp add: Let_def)
    moreover have "prev < ?f ?h + HOUR" using b c d(1,2) by linarith
    ultimately show ?thesis by simp
  qed
qed

lemma fixed_next_aligned: "1000000 dvd prev \<Longrightarrow> 1000000 dvd sched_Next z (FixedDateSchedule hr mn sc) prev"
proof -
  have "1000000 dvd HOUR" "1000000 dvd MINUTE" "1000000 dvd SECOND" "1000000 dvd DAY"
    by (simp_all add: HOUR_def MINUTE_def SECOND_def DAY_def)
  then show "1000000 dvd prev \<Longrightarrow> 1000000 dvd sched_Next z (FixedDateSchedule hr mn sc) prev"
    by (simp add: Let_def dvd_diff dvd_add dvd_mult)
qed

lemma next_expiration_later:
  assumes "valid_sched (Some s)"
  shows "e < next_expiration z s e"
proof (cases s)
  case (EverySchedule d)
  have "(e + 1) * 1000000 div 1000000 \<le> (e * 1000000 + d) div 1000000"
    using assms EverySchedule by (intro zdiv_mono1) (auto simp: valid_sched_def)
  then show ?thesis
    using sdiv_ge_div [of 1000000 "e * 1000000 + d"] EverySchedule
    by (simp add: next_expiration_def TimeToMS_def MSToTime_def)
next
  case (FixedDateSchedule hr mn sc)
  let ?n = "sched_Next z s (e * 1000000)"
  have "e * 1000000 < ?n" "1000000 dvd ?n"
    using fixed_next_later [of mn sc "e * 1000000"] fixed_next_aligned [of "e * 1000000"] assms FixedDateSchedule
    by (auto simp: valid_sched_def)
  then have "(e + 1) * 1000000 \<le> ?n" by (auto elim!: dvdE)
  then have "(e + 1) * 1000000 div 1000000 \<le> ?n div 1000000" by (intro zdiv_mono1) simp_all
  then show ?thesis using sdiv_ge_div [of 1000000 ?n] by (simp add: next_expiration_def TimeToMS_def MSToTime_def)
qed

section \<open>Adding or running\<close>

lemma not_in_bucket:
  "tw_inv w \<Longrightarrow> tm_bucket (tw_timers w ! p) = None \<Longrightarrow> valid_ref w r \<Longrightarrow> p \<notin> set (bk_timers (get_bucket r w))"
  using tw_invD(2) [of w r] by (auto simp: bucket_ok_def Let_def)

lemma reschedule_inv:
  assumes I: "tw_inv w" and p: "p < length (tw_timers w)" "tm_bucket (tw_timers w ! p) = None"
  shows "tw_inv (put_timer p ((tw_timers w ! p)\<lparr>tm_expiration := e\<rparr>) w)"
proof -
  let ?w = "put_timer p ((tw_timers w ! p)\<lparr>tm_expiration := e\<rparr>) w"
  have bo: "bucket_ok ?w r" if v: "valid_ref w r" for r
  proof -
    have t: "tw_timers ?w ! x = tw_timers w ! x" if "x \<in> set (bk_timers (get_bucket r w))" for x
    proof -
      have "x \<noteq> p" using not_in_bucket [OF I p(2) v] that by auto
      then show ?thesis by simp
    qed
    then show ?thesis
      using tw_invD(2) [OF I v] by (simp add: bucket_ok_def Let_def del: put_timer_simps(3)) simp
  qed
  have tb: "tm_bucket (tw_timers ?w ! x) = tm_bucket (tw_timers w ! x)" "tm_sched (tw_timers ?w ! x) = tm_sched (tw_timers w ! x)" for x
    using p(1) by (cases "x = p"; simp)+
  have g: "geo ?w" "valid_ref ?w = valid_ref w" using tw_invD(1) [OF I] by (auto simp: geo_fields fun_eq_iff)
  have c: "run_count x ?w = run_count x w" "in_queue ?w = in_queue w" for x
    by (auto simp: run_count_def in_queue_def fun_eq_iff g)
  have l: "length (tw_timers ?w) = length (tw_timers w)" "tw_queue ?w = tw_queue w" "tw_locked ?w = tw_locked w" "tw_runs ?w = tw_runs w"
    "tw_wheels ?w = tw_wheels w" "get_bucket r ?w = get_bucket r w" for r by simp_all
  show ?thesis
    by (rule tw_invI, unfold l g(2) tb c pending_def)
      (use g(1) bo tw_invD [OF I] in \<open>simp_all add: pending_def del: put_timer_simps(3)\<close>)
qed

lemma run_task_simps [simp]:
  "tw_wheels (run_task p e w) = tw_wheels w" "tw_timers (run_task p e w) = tw_timers w" "tw_queue (run_task p e w) = tw_queue w"
  "tw_locked (run_task p e w) = tw_locked w" "tw_zone (run_task p e w) = tw_zone w"
  "tw_runs (run_task p e w) = tw_runs w @ [(p, e, wclock w)]" "get_bucket r (run_task p e w) = get_bucket r w"
  by (simp_all add: run_task_def get_bucket_def)

lemma due_fields [simp]: "due (run_task p e w) = due w" "due (put_timer p t w) = due w"
  by (simp_all add: due_def valid_ref_def)

lemma run_task_inv:
  assumes I: "tw_inv w" and p: "p < length (tw_timers w)" "e < wclock w + wtick w"
    and once: "tm_sched (tw_timers w ! p) = None \<Longrightarrow> addable p w"
  shows "tw_inv (run_task p e w)"
proof -
  let ?w = "run_task p e w"
  have g: "geo ?w \<longleftrightarrow> geo w" "valid_ref ?w = valid_ref w" "bucket_ok ?w = bucket_ok w" "in_queue ?w = in_queue w"
    by (auto simp: geo_def valid_ref_def bucket_ok_def in_queue_def fun_eq_iff)
  have "tm_sched (tw_timers w ! x) = None \<longrightarrow> run_count x ?w + pending x ?w \<le> 1" if "x < length (tw_timers w)" for x
    using tw_invD(8) [OF I that] once by (cases "x = p") (auto simp: run_count_def pending_def addable_def)
  then show ?thesis
    using I p(2) p(1) unfolding tw_inv_def g by (simp add: g)
qed

text \<open>
  What \<open>addOrRun\<close> does to the wheel: the other timers and the locked bucket stay as they are, every run it
  makes is one of its timer, a one-shot timer either waits or has run once, a scheduled timer waits.
\<close>

definition waits :: "nat \<Rightarrow> TimeWheel \<Rightarrow> bool" where
  "waits p w \<longleftrightarrow> tm_bucket (tw_timers w ! p) \<noteq> None \<and> wclock w + wtick w \<le> tm_expiration (tw_timers w ! p)"

definition settled :: "nat \<Rightarrow> TimeWheel \<Rightarrow> TimeWheel \<Rightarrow> bool" where
  "settled p w w' \<longleftrightarrow> tw_inv w' \<and> length (tw_timers w') = length (tw_timers w) \<and>
     (\<forall>x. x \<noteq> p \<longrightarrow> tw_timers w' ! x = tw_timers w ! x) \<and> tm_sched (tw_timers w' ! p) = tm_sched (tw_timers w ! p) \<and>
     tm_id (tw_timers w' ! p) = tm_id (tw_timers w ! p) \<and>
     tw_locked w' = tw_locked w \<and> tw_zone w' = tw_zone w \<and> wclock w' = wclock w \<and> wtick w' = wtick w \<and> wsize w' = wsize w \<and>
     (\<forall>r. tw_locked w = Some r \<longrightarrow> get_bucket r w' = get_bucket r w) \<and> due w' \<subseteq> due w \<and>
     (\<exists>new. tw_runs w' = tw_runs w @ new \<and> list_all (\<lambda>x. fst x = p) new) \<and>
     (tm_sched (tw_timers w ! p) = None \<longrightarrow>
        (if tm_expiration (tw_timers w ! p) < wclock w + wtick w
         then tw_timers w' = tw_timers w \<and> tw_runs w' = tw_runs w @ [(p, tm_expiration (tw_timers w ! p), wclock w)]
         else waits p w' \<and> tm_expiration (tw_timers w' ! p) = tm_expiration (tw_timers w ! p) \<and> tw_runs w' = tw_runs w)) \<and>
     (tm_sched (tw_timers w ! p) \<noteq> None \<longrightarrow> waits p w')"

lemma added_settled:
  assumes "added p w w'" "addable p w" "wclock w + wtick w \<le> tm_expiration (tw_timers w ! p)"
  shows "settled p w w'"
proof -
  obtain r where t: "tw_timers w' = (tw_timers w)[p := (tw_timers w ! p)\<lparr>tm_bucket := Some r\<rparr>]"
    using assms(1) unfolding added_def by blast
  then show ?thesis using assms by (simp add: added_def settled_def addable_def waits_def)
qed

lemma tw_add_expired: "tm_expiration (tw_timers w ! p) < wclock w + wtick w \<Longrightarrow> tw_add 0 p w = Some (False, w)"
  by (subst tw_add.simps) (simp add: Let_def)

lemma tw_add_future:
  assumes "tw_inv w" "addable p w" "wclock w + wtick w \<le> tm_expiration (tw_timers w ! p)"
  shows "\<exists>w'. tw_add 0 p w = Some (True, w') \<and> settled p w w'"
proof -
  have "tw_wheels w \<noteq> []" "wtick w dvd wclock w" using tw_invD(1) [OF assms(1)] unfolding geo_def by blast+
  then have "0 < length (tw_wheels w)" "wclock w div ltick w 0 * ltick w 0 + ltick w 0 \<le> tm_expiration (tw_timers w ! p)"
    using assms(3) by simp_all
  then show ?thesis using tw_add_ok [OF assms(1,2)] added_settled [OF _ assms(2,3)] by blast
qed

lemma run_settled:
  assumes I: "tw_inv w" and a: "addable p w" and s: "tm_sched (tw_timers w ! p) = None"
    and e: "tm_expiration (tw_timers w ! p) < wclock w + wtick w"
  shows "settled p w (run_task p (tm_expiration (tw_timers w ! p)) w)"
proof -
  have "tw_inv (run_task p (tm_expiration (tw_timers w ! p)) w)"
    using a by (intro run_task_inv [OF I _ e]) (auto simp: addable_def)
  then show ?thesis using s e by (simp add: settled_def)
qed

lemma rescheduled_settled:
  assumes "settled p (put_timer p ((tw_timers w ! p)\<lparr>tm_expiration := e'\<rparr>) w) w'" "p < length (tw_timers w)"
    "tm_sched (tw_timers w ! p) = Some s" "e < wclock w + wtick w"
  shows "settled p w (run_task p e w')"
proof -
  let ?w = "put_timer p ((tw_timers w ! p)\<lparr>tm_expiration := e'\<rparr>) w"
  obtain new where n: "tw_runs w' = tw_runs w @ new" "list_all (\<lambda>x. fst x = p) new"
    using assms(1) unfolding settled_def by auto
  have q: "tw_inv w'" "length (tw_timers w') = length (tw_timers w)" "tm_sched (tw_timers w' ! p) = Some s" "waits p w'"
    "wclock w' = wclock w" "wtick w' = wtick w" "wsize w' = wsize w" "tw_locked w' = tw_locked w" "tw_zone w' = tw_zone w"
    "x \<noteq> p \<Longrightarrow> tw_timers w' ! x = tw_timers w ! x" "tw_locked w = Some r \<Longrightarrow> get_bucket r w' = get_bucket r w"
    "due w' \<subseteq> due w" "tm_id (tw_timers w' ! p) = tm_id (tw_timers w ! p)" for x r
    using assms(1-3) unfolding settled_def by simp_all
  have "tw_inv (run_task p e w')" by (rule run_task_inv) (use q assms in simp_all)
  then show ?thesis using q(2-13) n assms(3) by (simp add: settled_def waits_def)
qed

lemma addOrRun_ok:
  assumes "tw_inv w" "addable p w"
  shows "\<exists>w'. addOrRun p w = Some w' \<and> settled p w w'"
  using assms
proof (induction "nat (wclock w + wtick w - tm_expiration (tw_timers w ! p))" arbitrary: w rule: less_induct)
  case less
  let ?t = "tw_timers w ! p"
  have p: "p < length (tw_timers w)" "tm_bucket ?t = None" using less.prems(2) by (auto simp: addable_def)
  show ?case
  proof (cases "tm_expiration ?t < wclock w + wtick w")
    case False
    then obtain w' where "tw_add 0 p w = Some (True, w')" "settled p w w'" using tw_add_future [OF less.prems] by auto
    then show ?thesis by (subst addOrRun.simps) simp
  next
    case True
    note no = tw_add_expired [OF True]
    show ?thesis
    proof (cases "tm_sched ?t")
      case None
      then have "addOrRun p w = Some (run_task p (tm_expiration ?t) w)" by (subst addOrRun.simps) (simp add: no)
      then show ?thesis using run_settled [OF less.prems None True] by blast
    next
      case (Some s)
      let ?e = "next_expiration (tw_zone w) s (tm_expiration ?t)"
      let ?w = "put_timer p (?t\<lparr>tm_expiration := ?e\<rparr>) w"
      have later: "tm_expiration ?t < ?e"
        using next_expiration_later [of s] tw_invD(7) [OF less.prems(1) p(1)] Some by simp
      have I: "tw_inv ?w" "addable p ?w" using reschedule_inv [OF less.prems(1) p] p Some by (simp_all add: addable_def)
      have dec: "nat (wclock ?w + wtick ?w - tm_expiration (tw_timers ?w ! p)) < nat (wclock w + wtick w - tm_expiration ?t)"
        using later True p(1) by simp
      obtain w' where w': "addOrRun p ?w = Some w'" "settled p ?w w'" using less.hyps [OF dec I] by blast
      then have "addOrRun p w = Some (run_task p (tm_expiration ?t) w')" using Some by (subst addOrRun.simps) (simp add: no Let_def)
      then show ?thesis using rescheduled_settled [OF w'(2) p(1) Some True] by blast
    qed
  qed
qed

section \<open>Removing a timer\<close>

text \<open>The state after timer \<open>p\<close> left its bucket \<open>r\<close>.\<close>

definition removed :: "nat \<Rightarrow> bref \<Rightarrow> TimeWheel \<Rightarrow> TimeWheel" where
  "removed p r w = put_timer p ((tw_timers w ! p)\<lparr>tm_bucket := None\<rparr>)
     (put_bucket r ((get_bucket r w)\<lparr>bk_timers := remove1 p (bk_timers (get_bucket r w))\<rparr>) w)"

lemma bucket_remove_eq: "tm_bucket (tw_timers w ! p) = Some r \<Longrightarrow> bucket_remove r p w = (True, removed p r w)"
  by (simp add: bucket_remove_def removed_def)

lemma removed_simps [simp]:
  "length (tw_wheels (removed p r w)) = length (tw_wheels w)"
  "tw_timers (removed p r w) = (tw_timers w)[p := (tw_timers w ! p)\<lparr>tm_bucket := None\<rparr>]"
  "tw_queue (removed p r w) = tw_queue w" "tw_locked (removed p r w) = tw_locked w"
  "tw_zone (removed p r w) = tw_zone w" "tw_runs (removed p r w) = tw_runs w"
  "wh_tick (tw_wheels (removed p r w) ! k) = wh_tick (tw_wheels w ! k)"
  "wh_size (tw_wheels (removed p r w) ! k) = wh_size (tw_wheels w ! k)"
  "wh_current (tw_wheels (removed p r w) ! k) = wh_current (tw_wheels w ! k)"
  "geo (removed p r w) \<longleftrightarrow> geo w" "valid_ref (removed p r w) r' \<longleftrightarrow> valid_ref w r'"
  by (simp_all add: removed_def geo_fields)

lemma get_removed:
  assumes "geo w" "valid_ref w r"
  shows "get_bucket r' (removed p r w) =
    (if r' = r then (get_bucket r w)\<lparr>bk_timers := remove1 p (bk_timers (get_bucket r w))\<rparr> else get_bucket r' w)"
  by (simp add: removed_def get_put_bucket [OF assms])

lemma removed_bucket_ok:
  assumes I: "tw_inv w" and p: "p < length (tw_timers w)" "tm_bucket (tw_timers w ! p) = Some r" and r': "valid_ref w r'"
  shows "bucket_ok (removed p r w) r'"
proof -
  note G = tw_invD(1) [OF I] and v = conjunct1 [OF tw_invD(3) [OF I p]]
  have B: "bucket_ok w r'" using tw_invD(2) [OF I] r' by blast
  have keep: "set (bk_timers (get_bucket r' (removed p r w))) = set (bk_timers (get_bucket r' w)) - {p}"
  proof (cases "r' = r")
    case True
    then show ?thesis using B by (simp add: get_removed [OF G v] bucket_ok_def Let_def)
  next
    case False
    then have "p \<notin> set (bk_timers (get_bucket r' w))" using B p(2) by (auto simp: bucket_ok_def Let_def)
    then show ?thesis using False by (simp add: get_removed [OF G v])
  qed
  have x: "bk_expiration (get_bucket r' (removed p r w)) = bk_expiration (get_bucket r' w)"
      "distinct (bk_timers (get_bucket r' (removed p r w)))"
      "bk_timers (get_bucket r' w) = [] \<Longrightarrow> bk_timers (get_bucket r' (removed p r w)) = []"
    using B by (auto simp: get_removed [OF G v] bucket_ok_def Let_def)
  show ?thesis using B x unfolding bucket_ok_def Let_def keep x(1) by simp
qed

lemma removed_inv:
  assumes I: "tw_inv w" and p: "p < length (tw_timers w)" "tm_bucket (tw_timers w ! p) = Some r"
  shows "tw_inv (removed p r w)"
proof -
  let ?w = "removed p r w"
  note G = tw_invD(1) [OF I] and v = conjunct1 [OF tw_invD(3) [OF I p]]
  have x: "bk_expiration (get_bucket s ?w) = bk_expiration (get_bucket s w)" for s by (simp add: get_removed [OF G v])
  have iq: "in_queue ?w s e \<longleftrightarrow> in_queue w s e" "run_count y ?w = run_count y w" for s e y
    by (simp_all add: in_queue_def x run_count_def)
  show ?thesis
  proof (rule tw_invI)
    fix y s
    assume y: "y < length (tw_timers ?w)" "tm_bucket (tw_timers ?w ! y) = Some s"
    then have "y \<noteq> p" using p(1) by auto
    then show "valid_ref ?w s \<and> y \<in> set (bk_timers (get_bucket s ?w))"
      using y tw_invD(3) [OF I, of y s] by (auto simp: get_removed [OF G v])
  next
    fix y
    assume y: "y < length (tw_timers ?w)"
    then show "valid_sched (tm_sched (tw_timers ?w ! y))" using tw_invD(7) [OF I, of y] by (cases "y = p") simp_all
    assume "tm_sched (tw_timers ?w ! y) = None"
    then show "run_count y ?w + pending y ?w \<le> 1"
      using y tw_invD(8) [OF I, of y] by (cases "y = p") (auto simp: iq pending_def)
  qed (use G removed_bucket_ok [OF I p] tw_invD(4,5,6,9) [OF I] iq x in simp_all)
qed

lemma removed_addable:
  assumes "tw_inv w" "p < length (tw_timers w)" "tm_bucket (tw_timers w ! p) = Some r"
  shows "addable p (removed p r w)"
  using tw_invD(8) [OF assms(1,2)] assms(2,3) by (simp add: addable_def run_count_def pending_def)

section \<open>Flushing a bucket\<close>

text \<open>A timer that was not stopped: one-shot, it waits or has run once; scheduled, it waits.\<close>

definition live :: "nat \<Rightarrow> TimeWheel \<Rightarrow> bool" where
  "live p w \<longleftrightarrow> (if tm_sched (tw_timers w ! p) = None then run_count p w + pending p w = 1 else pending p w = 1)"

definition kept :: "TimeWheel \<Rightarrow> TimeWheel \<Rightarrow> bool" where
  "kept w w' \<longleftrightarrow> length (tw_timers w') = length (tw_timers w) \<and> tw_zone w' = tw_zone w \<and> wclock w' = wclock w \<and>
     wtick w' = wtick w \<and> wsize w' = wsize w \<and> due w' \<subseteq> due w \<and> (\<exists>new. tw_runs w' = tw_runs w @ new) \<and>
     (\<forall>x < length (tw_timers w). tm_sched (tw_timers w' ! x) = tm_sched (tw_timers w ! x) \<and>
        (tm_sched (tw_timers w ! x) = None \<longrightarrow> tm_expiration (tw_timers w' ! x) = tm_expiration (tw_timers w ! x)) \<and>
        (live x w \<longrightarrow> live x w'))"

lemma kept_refl: "kept w w"
  by (simp add: kept_def)

lemma kept_trans: "kept w w' \<Longrightarrow> kept w' w'' \<Longrightarrow> kept w w''"
  unfolding kept_def by auto

lemma due_removed:
  assumes "geo w" "valid_ref w r"
  shows "due (removed p r w) = due w"
  by (auto simp: due_def get_removed [OF assms] split: if_splits)

lemma filter_fst_none: "list_all (\<lambda>x. fst x = p) xs \<Longrightarrow> y \<noteq> p \<Longrightarrow> filter (\<lambda>x. fst x = y) xs = []"
  by (induction xs) auto

lemma settled_kept:
  assumes I: "tw_inv w" and p: "p < length (tw_timers w)" "tm_bucket (tw_timers w ! p) = Some r"
    and S: "settled p (removed p r w) w'"
  shows "kept w w'"
proof -
  let ?w = "removed p r w"
  note G = tw_invD(1) [OF I] and v = conjunct1 [OF tw_invD(3) [OF I p]]
  obtain new where n: "tw_runs w' = tw_runs w @ new" "list_all (\<lambda>x. fst x = p) new" using S unfolding settled_def by auto
  have f: "length (tw_timers w') = length (tw_timers w)" "tw_zone w' = tw_zone w" "wclock w' = wclock w" "wtick w' = wtick w"
    "wsize w' = wsize w" "due w' \<subseteq> due w" "tm_sched (tw_timers w' ! p) = tm_sched (tw_timers w ! p)"
    "x \<noteq> p \<Longrightarrow> tw_timers w' ! x = tw_timers w ! x" for x
    using S p unfolding settled_def by (simp_all add: due_removed [OF G v])
  have other: "live x w' \<longleftrightarrow> live x w" if "x \<noteq> p" for x
    using f(8) [OF that] filter_fst_none [OF n(2) that] by (simp add: live_def run_count_def pending_def n)
  have e: "tm_expiration (tw_timers w' ! p) = tm_expiration (tw_timers w ! p)" if "tm_sched (tw_timers w ! p) = None"
    using S that p(1) unfolding settled_def by (auto split: if_splits)
  have rc: "run_count p w = 0" if "tm_sched (tw_timers w ! p) = None"
    using removed_addable [OF I p] that p(1) by (simp add: addable_def run_count_def)
  have "live p w'"
  proof (cases "tm_sched (tw_timers w ! p) = None")
    case True
    then show ?thesis
      using S p(1) rc unfolding settled_def live_def by (auto simp: run_count_def pending_def waits_def split: if_splits)
  next
    case False
    then show ?thesis using S p(1) unfolding settled_def live_def by (auto simp: pending_def waits_def)
  qed
  then show ?thesis unfolding kept_def using f n other e by metis
qed

lemma flush_loop_ok:
  assumes "tw_inv w" "tw_locked w = Some r" "bk_timers (get_bucket r w) = ps"
  shows "\<exists>w'. flush_loop r ps w = Some w' \<and> tw_inv w' \<and> tw_locked w' = Some r \<and> bk_timers (get_bucket r w') = [] \<and> kept w w'"
  using assms
proof (induction ps arbitrary: w)
  case Nil
  then show ?case by (simp add: kept_refl)
next
  case (Cons p ps)
  note I = Cons.prems(1) and G = tw_invD(1) [OF Cons.prems(1)] and v = conjunct1 [OF tw_invD(6) [OF Cons.prems(1,2)]]
  have p: "p < length (tw_timers w)" "tm_bucket (tw_timers w ! p) = Some r"
    using tw_invD(2) [OF I v] Cons.prems(3) by (auto simp: bucket_ok_def Let_def)
  obtain w1 where w1: "addOrRun p (removed p r w) = Some w1" "settled p (removed p r w) w1"
    using addOrRun_ok [OF removed_inv [OF I p] removed_addable [OF I p]] by blast
  have b: "bk_timers (get_bucket r w1) = ps" "tw_inv w1" "tw_locked w1 = Some r"
    using w1(2) Cons.prems(2,3) unfolding settled_def by (simp_all add: get_removed [OF G v])
  obtain w' where w': "flush_loop r ps w1 = Some w'" "tw_inv w'" "tw_locked w' = Some r" "bk_timers (get_bucket r w') = []" "kept w1 w'"
    using Cons.IH [OF b(2,3,1)] by blast
  have "kept w w'" by (rule kept_trans [OF settled_kept [OF I p w1(2)] w'(5)])
  then show ?case using w' w1(1) by (simp add: bucket_remove_eq [OF p(2)])
qed

text \<open>The end of \<open>Flush\<close>: the emptied bucket is unlocked and can be offered again.\<close>

definition released :: "bref \<Rightarrow> TimeWheel \<Rightarrow> TimeWheel" where
  "released r w = snd (SetExpiration r (- 1) (w\<lparr>tw_locked := None\<rparr>))"

lemma get_bucket_locked [simp]: "get_bucket r (w\<lparr>tw_locked := l\<rparr>) = get_bucket r w"
  by (simp add: get_bucket_def)

lemma geo_locked [simp]: "geo (w\<lparr>tw_locked := l\<rparr>) \<longleftrightarrow> geo w" "valid_ref (w\<lparr>tw_locked := l\<rparr>) r \<longleftrightarrow> valid_ref w r"
  by (simp_all add: geo_def valid_ref_def)

lemma released_simps [simp]:
  "length (tw_wheels (released r w)) = length (tw_wheels w)" "tw_timers (released r w) = tw_timers w"
  "tw_queue (released r w) = tw_queue w" "tw_locked (released r w) = None"
  "tw_zone (released r w) = tw_zone w" "tw_runs (released r w) = tw_runs w"
  "wh_tick (tw_wheels (released r w) ! k) = wh_tick (tw_wheels w ! k)"
  "wh_size (tw_wheels (released r w) ! k) = wh_size (tw_wheels w ! k)"
  "wh_current (tw_wheels (released r w) ! k) = wh_current (tw_wheels w ! k)"
  "geo (released r w) \<longleftrightarrow> geo w" "valid_ref (released r w) r' \<longleftrightarrow> valid_ref w r'"
  by (simp_all add: released_def SetExpiration_def)

lemma get_released:
  assumes "geo w" "valid_ref w r"
  shows "get_bucket r' (released r w) = (if r' = r then (get_bucket r w)\<lparr>bk_expiration := - 1\<rparr> else get_bucket r' w)"
  using get_put_bucket [of "w\<lparr>tw_locked := None\<rparr>" r r'] assms by (simp add: released_def SetExpiration_def)

lemma released_inv:
  assumes I: "tw_inv w" and L: "tw_locked w = Some r" and e: "bk_timers (get_bucket r w) = []"
  shows "tw_inv (released r w)" "kept w (released r w)" "r \<notin> due (released r w)"
proof -
  let ?w = "released r w"
  note G = tw_invD(1) [OF I] and v = conjunct1 [OF tw_invD(6) [OF I L]]
  note P = geo_pos(3) [OF G]
  have bo: "bucket_ok ?w s" if "valid_ref w s" for s
    using tw_invD(2) [OF I that] e by (cases "s = r") (simp_all add: bucket_ok_def Let_def get_released [OF G v])
  have iq: "in_queue ?w s x \<longleftrightarrow> in_queue w s x" "run_count y ?w = run_count y w" "pending y ?w = pending y w" for s x y
    using L by (auto simp: in_queue_def get_released [OF G v] run_count_def pending_def split: if_splits)
  have tb: "valid_ref w s \<and> y \<in> set (bk_timers (get_bucket s ?w))"
    if "y < length (tw_timers w)" "tm_bucket (tw_timers w ! y) = Some s" for y s
    using tw_invD(3) [OF I that] e by (auto simp: get_released [OF G v])
  show "tw_inv ?w"
    by (rule tw_invI) (use G bo tb iq tw_invD(4,5,7,8,9) [OF I] in simp_all)
  have d: "due ?w = due w - {r}" using P by (auto simp: due_def get_released [OF G v] split: if_splits)
  show "kept w ?w" "r \<notin> due ?w" using d iq by (simp_all add: kept_def live_def)
qed

lemma Flush_ok:
  assumes I: "tw_inv (w\<lparr>tw_locked := Some r\<rparr>)"
  shows "\<exists>w'. Flush r w = Some w' \<and> tw_inv w' \<and> tw_locked w' = None \<and> kept (w\<lparr>tw_locked := Some r\<rparr>) w' \<and> r \<notin> due w'"
proof -
  obtain w' where w': "flush_loop r (bk_timers (get_bucket r w)) (w\<lparr>tw_locked := Some r\<rparr>) = Some w'" "tw_inv w'"
      "tw_locked w' = Some r" "bk_timers (get_bucket r w') = []" "kept (w\<lparr>tw_locked := Some r\<rparr>) w'"
    using flush_loop_ok [OF I, of r "bk_timers (get_bucket r w)"] by (simp del: split_paired_Ex) blast
  note R = released_inv [OF w'(2,3,4)]
  have "Flush r w = Some (released r w')" unfolding Flush_def w'(1) by (simp add: released_def)
  then show ?thesis using R kept_trans [OF w'(5) R(2)] by simp
qed

section \<open>Advancing the clocks\<close>

lemma same_current: "wh_current wh = c \<Longrightarrow> wh\<lparr>wh_current := c\<rparr> = wh" for wh :: Wheel
  by (cases wh) simp

lemma div_eq_above: "0 \<le> b \<Longrightarrow> x div a = y div a \<Longrightarrow> x div (a * b) = y div (a * b)" for a b x y :: int
  by (simp add: zdiv_zmult2_eq)

lemma advanceClock_nth:
  fixes T S c E e :: int
  assumes "0 < T" "0 < S" "0 \<le> c" "c \<le> E" "0 \<le> e" "e div (T * S ^ k) = E div (T * S ^ k)"
    "\<And>i. i < length whs \<Longrightarrow> wheel_ok T S c (k + i) (whs ! i)"
  shows "length (advanceClock e whs) = length whs \<and> (\<forall>i < length whs.
     advanceClock e whs ! i = (whs ! i)\<lparr>wh_current := E div (T * S ^ (k + i)) * (T * S ^ (k + i))\<rparr>)"
  using assms(5,6,7)
proof (induction whs arbitrary: e k)
  case (Cons wh whs)
  let ?t = "T * S ^ k"
  have t: "0 < ?t" using assms by simp
  have w0: "wh_current wh = c div ?t * ?t" "wh_tick wh = ?t" using Cons.prems(3) [of 0] by (simp_all add: wheel_ok_def)
  have rest: "wheel_ok T S c (Suc k + i) (whs ! i)" if "i < length whs" for i using Cons.prems(3) [of "Suc i"] that by simp
  show ?case
  proof (cases "e \<ge> wh_current wh + wh_tick wh")
    case True
    let ?c = "truncate_ms e ?t"
    have c: "?c = E div ?t * ?t" using truncate_ms_pos [OF Cons.prems(1) t] Cons.prems(2) by simp
    have c0: "0 \<le> ?c" using t assms unfolding c by (simp add: pos_imp_zdiv_nonneg_iff)
    have t1: "T * S ^ Suc k = ?t * S" by simp
    have "?c div (?t * S) * (?t * S) = E div (?t * S) * (?t * S)" unfolding c by (rule trunc_trunc [OF t assms(2)])
    then have "?c div (?t * S) = E div (?t * S)" using mult_pos_pos [OF t assms(2)] by (simp only: mult_right_cancel)
    then have d: "?c div (T * S ^ Suc k) = E div (T * S ^ Suc k)" unfolding t1 .
    have ad: "advanceClock e (wh # whs) = wh\<lparr>wh_current := ?c\<rparr> # advanceClock ?c whs"
      using True by (simp add: Let_def w0(2))
    show ?thesis unfolding ad using Cons.IH [OF c0 d rest] c by (auto simp: nth_Cons split: nat.split)
  next
    case False
    have "e < (c div ?t + 1) * ?t" using False by (simp add: w0 algebra_simps)
    then have "e div ?t < c div ?t + 1" using floor_bounds(1) [OF t, of e] t by (smt (verit) mult_less_cancel_right)
    then have eq: "E div ?t = c div ?t" using Cons.prems(2) zdiv_mono1 [OF assms(4) t] by linarith
    have up: "E div (T * S ^ (k + i)) = c div (T * S ^ (k + i))" for i
      using div_eq_above [OF _ eq, of "S ^ i"] assms(2) by (simp add: power_add mult.assoc)
    have "((wh # whs) ! i)\<lparr>wh_current := E div (T * S ^ (k + i)) * (T * S ^ (k + i))\<rparr> = (wh # whs) ! i" if "i < Suc (length whs)" for i
      using Cons.prems(3) [of i] that unfolding up by (intro same_current) (simp add: wheel_ok_def)
    then show ?thesis using False by simp
  qed
qed simp

lemma peek_due:
  assumes "pq_inv q" "y \<in># contents q" "snd y \<le> now"
  obtains x q' where "PeekAndShift now q = Some ((Some x, 0), q')" "pq_inv q'" "contents q = add_mset (it_Value x, it_Priority x) (contents q')"
    "it_Priority x \<le> now" "\<And>z. z \<in># contents q \<Longrightarrow> it_Priority x \<le> snd z"
proof -
  obtain y q' where y: "pq_shift now q = Some ((Some y, 0), q')" "pq_inv q'" "contents q = add_mset y (contents q')"
      "snd y \<le> now" "\<forall>z \<in># contents q. snd y \<le> snd z"
    using delay_heap.shift_due [OF assms] by blast
  then obtain x where x: "PeekAndShift now q = Some ((Some x, 0), q')" "y = (it_Value x, it_Priority x)"
    by (auto simp: pq_shift_def core_def)
  have z: "it_Priority x \<le> snd z" if "z \<in># contents q" for z using y(5) that x(2) by auto
  show ?thesis by (rule that [OF x(1) y(2) _ _ z]) (use y x(2) in simp_all)
qed

lemma peek_none:
  assumes "pq_inv q" "\<And>x. x \<in># contents q \<Longrightarrow> now < snd x"
  shows "\<exists>d. PeekAndShift now q = Some ((None, d), q)"
  using delay_heap.shift_none [OF assms(1), of now] assms(2) by (auto simp: pq_shift_def)

text \<open>The state in which the bucket \<open>r\<close>, polled at its expiration \<open>E\<close>, is about to be flushed.\<close>

definition opened :: "bref \<Rightarrow> int \<Rightarrow> bref priorityQueue \<Rightarrow> TimeWheel \<Rightarrow> TimeWheel" where
  "opened r E q w = w\<lparr>tw_queue := q, tw_wheels := advanceClock E (tw_wheels w), tw_locked := Some r\<rparr>"

lemma opened_wheels:
  assumes G: "geo w" and E: "wclock w \<le> E" "wtick w dvd E"
  shows "length (tw_wheels (opened r E q w)) = length (tw_wheels w)" "geo (opened r E q w)"
    "wclock (opened r E q w) = E" "wtick (opened r E q w) = wtick w" "wsize (opened r E q w) = wsize w"
    "valid_ref (opened r E q w) s \<longleftrightarrow> valid_ref w s" "valid_ref w s \<Longrightarrow> get_bucket s (opened r E q w) = get_bucket s w"
proof -
  let ?w = "opened r E q w"
  have ne: "0 < length (tw_wheels w)" "0 < wtick w" "2 \<le> wsize w" "0 \<le> wclock w"
    and ok: "\<And>k. k < length (tw_wheels w) \<Longrightarrow> wheel_ok (wtick w) (wsize w) (wclock w) k (tw_wheels w ! k)"
    using G unfolding geo_def by blast+
  have A: "length (advanceClock E (tw_wheels w)) = length (tw_wheels w)"
    "k < length (tw_wheels w) \<Longrightarrow> advanceClock E (tw_wheels w) ! k = (tw_wheels w ! k)\<lparr>wh_current := E div ltick w k * ltick w k\<rparr>" for k
    using advanceClock_nth [of "wtick w" "wsize w" "wclock w" E E 0 "tw_wheels w"] ne ok E(1) by simp_all
  show l: "length (tw_wheels ?w) = length (tw_wheels w)" by (simp add: opened_def A(1))
  have n: "tw_wheels ?w ! k = (tw_wheels w ! k)\<lparr>wh_current := E div ltick w k * ltick w k\<rparr>" if "k < length (tw_wheels w)" for k
    using A(2) [OF that] by (simp add: opened_def)
  show b: "wclock ?w = E" "wtick ?w = wtick w" "wsize ?w = wsize w" using n [OF ne(1)] E(2) by simp_all
  show g: "valid_ref ?w s \<longleftrightarrow> valid_ref w s" unfolding valid_ref_def b l ..
  show "get_bucket s ?w = get_bucket s w" if "valid_ref w s" for s using n [of "fst s"] that by (simp add: get_bucket_def valid_ref_def)
  have "wheel_ok (wtick w) (wsize w) E k (tw_wheels ?w ! k)" if "k < length (tw_wheels w)" for k
    using ok [OF that] unfolding n [OF that] wheel_ok_def by simp
  moreover have "tw_wheels ?w \<noteq> []" using l ne(1) by auto
  ultimately show "geo ?w" unfolding geo_def b l using ne E by simp
qed

lemma bucket_min:
  assumes I: "tw_inv w" and L: "tw_locked w = None" and m: "\<And>z. z \<in># contents (tw_queue w) \<Longrightarrow> E \<le> snd z"
    and v: "valid_ref w s" "bk_expiration (get_bucket s w) \<noteq> - 1"
  shows "E \<le> bk_expiration (get_bucket s w)"
proof -
  have "in_queue w s (bk_expiration (get_bucket s w))" using v L by (simp add: in_queue_def)
  then have "(s, bk_expiration (get_bucket s w)) \<in># contents (tw_queue w)"
    using tw_invD(5) [OF I, of s "bk_expiration (get_bucket s w)"] by (simp add: count_inI)
  then show ?thesis using m [of "(s, bk_expiration (get_bucket s w))"] by simp
qed

lemma opened_inv:
  assumes I: "tw_inv w" and L: "tw_locked w = None" and q: "pq_inv q" "contents (tw_queue w) = add_mset (r, E) (contents q)"
    and m: "\<And>z. z \<in># contents (tw_queue w) \<Longrightarrow> E \<le> snd z"
  shows "tw_inv (opened r E q w)" "wclock w \<le> E" "bk_expiration (get_bucket r w) = E" "wtick w dvd E" "valid_ref w r"
proof -
  let ?w = "opened r E q w"
  note G = tw_invD(1) [OF I]
  note P = geo_pos [OF G]
  have "in_queue w r E" using tw_invD(5) [OF I, of r E] q(2) by (simp split: if_splits)
  then have r: "valid_ref w r" "bk_expiration (get_bucket r w) = E" "E \<noteq> - 1" by (simp_all add: in_queue_def)
  then have b: "ltick w (fst r) dvd E" "wclock w \<le> E" using tw_invD(2) [OF I r(1)] by (simp_all add: bucket_ok_def Let_def)
  show "valid_ref w r" "bk_expiration (get_bucket r w) = E" by (rule r)+
  show le: "wclock w \<le> E" by (rule b)
  show dv: "wtick w dvd E" using b(1) by (rule dvd_mult_left)
  note O = opened_wheels [OF G le dv, where r = r and q = q]
  have ti: "tw_timers ?w = tw_timers w" "tw_runs ?w = tw_runs w" "tw_queue ?w = q" "tw_locked ?w = Some r" by (simp_all add: opened_def)
  have bo: "bucket_ok ?w s" if s: "valid_ref w s" for s
  proof -
    let ?k = "ltick w (fst s)"
    have "wclock w div ?k * ?k \<le> E div ?k * ?k"
      using zdiv_mono1 [OF le P(1) [of "fst s"]] P(1) [of "fst s"] by (intro mult_right_mono) auto
    then show ?thesis
      using tw_invD(2) [OF I s] bucket_min [OF I L m s] unfolding bucket_ok_def Let_def O(3-5) O(7) [OF s] ti by auto
  qed
  have iq: "in_queue ?w s e \<longleftrightarrow> in_queue w s e \<and> s \<noteq> r" for s e
    using L by (auto simp: in_queue_def O(6) O(7) ti)
  have cq: "count (contents q) (s, e) = (if in_queue ?w s e then 1 else 0)" for s e
    using tw_invD(5) [OF I, of s e] r unfolding q(2) iq by (auto simp: in_queue_def split: if_splits)
  have c: "run_count x ?w = run_count x w" "pending x ?w = pending x w" for x by (simp_all add: run_count_def pending_def ti)
  show "tw_inv ?w"
  proof (rule tw_invI)
    show "valid_ref ?w s \<and> bk_expiration (get_bucket s ?w) = wclock ?w" if "tw_locked ?w = Some s" for s
      using that r O(3,6,7) ti by simp
    show "fst x < length (tw_timers ?w) \<and> fst (snd x) < snd (snd x) + wtick ?w \<and> snd (snd x) \<le> wclock ?w" if "x \<in> set (tw_runs ?w)" for x
      using tw_invD(9) [OF I, of x] that le O(3,4) ti by simp
    show "valid_ref ?w s \<and> x \<in> set (bk_timers (get_bucket s ?w))" if "x < length (tw_timers ?w)" "tm_bucket (tw_timers ?w ! x) = Some s" for x s
      using tw_invD(3) [OF I, of x s] that O(6,7) ti by simp
  qed (use O(2,6) bo q(1) cq tw_invD(7,8) [OF I] c ti in simp_all)
qed

text \<open>One round of the polling goroutine: either nothing is due, or the first bucket is flushed and the rounds get closer to the end.\<close>

definition rounds :: "int \<Rightarrow> TimeWheel \<Rightarrow> nat \<times> nat" where
  "rounds now w = (nat (now - wclock w), card (due w))"

definition after_round :: "TimeWheel \<Rightarrow> TimeWheel \<Rightarrow> bool" where
  "after_round w w' \<longleftrightarrow> tw_inv w' \<and> tw_locked w' = None \<and> wclock w \<le> wclock w' \<and> wtick w' = wtick w \<and> tw_zone w' = tw_zone w \<and>
     length (tw_timers w') = length (tw_timers w) \<and> (\<exists>new. tw_runs w' = tw_runs w @ new) \<and>
     (\<forall>x < length (tw_timers w). tm_sched (tw_timers w' ! x) = tm_sched (tw_timers w ! x) \<and>
        (tm_sched (tw_timers w ! x) = None \<longrightarrow> tm_expiration (tw_timers w' ! x) = tm_expiration (tw_timers w ! x)) \<and>
        (live x w \<longrightarrow> live x w'))"

lemma finite_due: "finite (due w)"
proof (rule finite_subset)
  show "due w \<subseteq> {..<length (tw_wheels w)} \<times> {..<nat (wsize w)}" by (auto simp: due_def valid_ref_def)
qed simp

definition nothing_due :: "int \<Rightarrow> TimeWheel \<Rightarrow> bool" where
  "nothing_due now w \<longleftrightarrow> (\<forall>x \<in># contents (tw_queue w). now < snd x)"

lemma process_nothing: "tw_inv w \<Longrightarrow> nothing_due now w \<Longrightarrow> process_expired now w = Some w"
  using peek_none [of "tw_queue w" now] tw_invD(4) [of w] by (auto simp: process_expired_def nothing_due_def)

lemma process_due:
  assumes I: "tw_inv w" and L: "tw_locked w = None" and d: "\<not> nothing_due now w"
  shows "\<exists>w'. process_expired now w = Some w' \<and> after_round w w' \<and> wclock w' \<le> now \<and>
    (rounds now w', rounds now w) \<in> less_than <*lex*> less_than"
proof -
  obtain y where y: "y \<in># contents (tw_queue w)" "snd y \<le> now" using d by (auto simp: nothing_due_def not_less)
  obtain x q where x: "PeekAndShift now (tw_queue w) = Some ((Some x, 0), q)" "pq_inv q"
      "contents (tw_queue w) = add_mset (it_Value x, it_Priority x) (contents q)" "it_Priority x \<le> now"
      "\<And>z. z \<in># contents (tw_queue w) \<Longrightarrow> it_Priority x \<le> snd z"
    using peek_due [OF tw_invD(4) [OF I] y] by blast
  let ?r = "it_Value x" and ?E = "it_Priority x"
  let ?w1 = "w\<lparr>tw_queue := q, tw_wheels := advanceClock ?E (tw_wheels w)\<rparr>"
  let ?o = "opened ?r ?E q w"
  note O = opened_inv [OF I L x(2,3,5)]
  note W = opened_wheels [OF tw_invD(1) [OF I] O(2,4), where r = ?r and q = q]
  have op: "?w1\<lparr>tw_locked := Some ?r\<rparr> = ?o" by (simp add: opened_def)
  obtain w' where w': "Flush ?r ?w1 = Some w'" "tw_inv w'" "tw_locked w' = None" "kept ?o w'" "?r \<notin> due w'"
    using Flush_ok [where w = ?w1 and r = ?r] O(1) unfolding op by blast
  have p: "process_expired now w = Some w'" using x(1) w'(1) by (simp add: process_expired_def Let_def O(3))
  have t: "tw_timers ?o = tw_timers w" "tw_runs ?o = tw_runs w" "tw_zone ?o = tw_zone w" "live n ?o = live n w" for n
    by (simp_all add: opened_def live_def run_count_def pending_def)
  have k: "wclock w' = ?E" "wtick w' = wtick w" "due w' \<subseteq> due ?o" using w'(4) W(3,4) by (simp_all add: kept_def)
  have "after_round w w'" using w'(2-4) k O(2) unfolding after_round_def kept_def t by simp
  moreover have "(rounds now w', rounds now w) \<in> less_than <*lex*> less_than"
  proof (cases "?E = wclock w")
    case True
    have e: "wclock ?o = wclock w" using W(3) True by (rule trans)
    have "due ?o = due w" unfolding due_def e using W(6,7) by auto
    then have "due w' \<subset> due w" using k(3) w'(5) O(3,5) True by (auto simp: due_def)
    then show ?thesis using True k(1) psubset_card_mono [OF finite_due] by (simp add: rounds_def)
  next
    case False
    then show ?thesis using O(2) x(4) k(1) by (simp add: rounds_def)
  qed
  ultimately show ?thesis using p k(1) x(4) by auto
qed

section \<open>Stopping and creating timers\<close>

lemma timer_Stop_ok:
  assumes I: "tw_inv w" and L: "tw_locked w = None" and p: "p < length (tw_timers w)"
  shows "timer_Stop b p w = (case tm_bucket (tw_timers w ! p) of None \<Rightarrow> Some (b, w) | Some r \<Rightarrow> Some (True, removed p r w))"
proof (cases "tm_bucket (tw_timers w ! p)")
  case None
  then show ?thesis by (subst timer_Stop.simps) simp
next
  case (Some r)
  then have "bucket_Remove r p w = Some (True, removed p r w)" using L by (simp add: bucket_Remove_def bucket_remove_eq)
  moreover have "timer_Stop True p (removed p r w) = Some (True, removed p r w)" using p by (subst timer_Stop.simps) simp
  ultimately show ?thesis using Some by (subst timer_Stop.simps) simp
qed

lemma appended_inv:
  fixes i :: u64 and e :: int
  assumes I: "tw_inv w" and s: "valid_sched s"
  defines "w' \<equiv> w\<lparr>tw_timers := tw_timers w @ [\<lparr>tm_id = i, tm_expiration = e, tm_sched = s, tm_bucket = None\<rparr>]\<rparr>"
  shows "tw_inv w'" "addable (length (tw_timers w)) w'" "run_count (length (tw_timers w)) w = 0"
proof -
  show c: "run_count (length (tw_timers w)) w = 0"
  proof -
    have "fst x \<noteq> length (tw_timers w)" if "x \<in> set (tw_runs w)" for x using tw_invD(9) [OF I that] by simp
    then show ?thesis unfolding run_count_def by (simp add: filter_empty_conv)
  qed
  have f: "tw_wheels w' = tw_wheels w" "tw_queue w' = tw_queue w" "tw_locked w' = tw_locked w" "tw_runs w' = tw_runs w"
    "length (tw_timers w') = Suc (length (tw_timers w))" "run_count x w' = run_count x w"
    "x < length (tw_timers w) \<Longrightarrow> tw_timers w' ! x = tw_timers w ! x" for x
    by (simp_all add: w'_def nth_append run_count_def)
  have n: "tm_bucket (tw_timers w' ! length (tw_timers w)) = None" "tm_sched (tw_timers w' ! length (tw_timers w)) = s"
    by (simp_all add: w'_def)
  show "addable (length (tw_timers w)) w'" using c f n by (simp add: addable_def)
  have g: "geo w' \<longleftrightarrow> geo w" "valid_ref w' = valid_ref w" "get_bucket r w' = get_bucket r w" "in_queue w' = in_queue w" for r
    by (auto simp: geo_def valid_ref_def get_bucket_def in_queue_def f fun_eq_iff)
  have bo: "bucket_ok w' r" if "valid_ref w r" for r
    using tw_invD(2) [OF I that] unfolding bucket_ok_def Let_def f(1) g(3) by (auto simp: f(5,7))
  show "tw_inv w'"
  proof (rule tw_invI)
    fix x
    assume x: "x < length (tw_timers w')"
    show "valid_sched (tm_sched (tw_timers w' ! x))"
      using x tw_invD(7) [OF I, of x] s n f(5,7) by (cases "x < length (tw_timers w)") (auto simp: less_Suc_eq)
    show "run_count x w' + pending x w' \<le> 1" if "tm_sched (tw_timers w' ! x) = None"
      using that x tw_invD(8) [OF I, of x] c n f(5-7) by (cases "x < length (tw_timers w)") (auto simp: less_Suc_eq pending_def)
    show "valid_ref w' r \<and> x \<in> set (bk_timers (get_bucket r w'))" if "tm_bucket (tw_timers w' ! x) = Some r" for r
      using that x tw_invD(3) [OF I, of x r] n f(5,7) g by (cases "x < length (tw_timers w)") (auto simp: less_Suc_eq)
  next
    show "fst x < length (tw_timers w') \<and> fst (snd x) < snd (snd x) + wtick w' \<and> snd (snd x) \<le> wclock w'" if "x \<in> set (tw_runs w')" for x
      using tw_invD(9) [OF I, of x] that by (auto simp: f)
  qed (use bo g f tw_invD(1,4,5,6) [OF I] in simp_all)
qed

lemma new_timer_ok:
  assumes I: "tw_inv w" and s: "valid_sched s"
  shows "\<exists>w'. new_timer i e s w = Some w' \<and> tw_inv w' \<and> tw_locked w' = tw_locked w \<and> wclock w' = wclock w \<and>
    length (tw_timers w') = Suc (length (tw_timers w)) \<and> live (length (tw_timers w)) w' \<and>
    (\<forall>x < length (tw_timers w). live x w \<longrightarrow> live x w')"
proof -
  let ?n = "length (tw_timers w)" and ?t = "\<lparr>tm_id = i, tm_expiration = e, tm_sched = s, tm_bucket = None\<rparr>"
  let ?w = "w\<lparr>tw_timers := tw_timers w @ [?t]\<rparr>"
  note A = appended_inv(1,2) [OF I s, of i e] appended_inv(3) [OF I s]
  obtain w' where w': "addOrRun ?n ?w = Some w'" "settled ?n ?w w'" using addOrRun_ok [OF A(1,2)] by blast
  obtain new where n: "tw_runs w' = tw_runs w @ new" "list_all (\<lambda>x. fst x = ?n) new" using w'(2) unfolding settled_def by auto
  have f: "tw_inv w'" "tw_locked w' = tw_locked w" "wclock w' = wclock w" "length (tw_timers w') = Suc ?n"
    "x \<noteq> ?n \<Longrightarrow> tw_timers w' ! x = (tw_timers w @ [?t]) ! x" "tm_sched (tw_timers w' ! ?n) = s" for x
    using w'(2) unfolding settled_def by simp_all
  have old: "live x w \<longrightarrow> live x w'" if "x < ?n" for x
    using f(5) [of x] filter_fst_none [OF n(2), of x] that by (simp add: live_def run_count_def pending_def n(1) nth_append)
  have "live ?n w'"
  proof (cases s)
    case None
    then have "if e < wclock w + wtick w then tw_timers w' = tw_timers w @ [?t] \<and> tw_runs w' = tw_runs w @ [(?n, e, wclock w)]
      else waits ?n w' \<and> tw_runs w' = tw_runs w"
      using w'(2) unfolding settled_def by (simp split: if_splits)
    then show ?thesis using None A(3) f(6) by (auto simp: live_def run_count_def pending_def waits_def split: if_splits)
  next
    case (Some a)
    then have "waits ?n w'" using w'(2) unfolding settled_def by simp
    then show ?thesis using Some f(6) by (auto simp: live_def pending_def waits_def)
  qed
  then show ?thesis using w'(1) f(1-4) old by (simp add: new_timer_def)
qed

section \<open>Reachable wheels\<close>

text \<open>
  What a wheel goes through, with the instant in nanoseconds and the timers that were stopped: it is made with at
  least two slots, time passes, timers are created (an interval of at least a millisecond, a fixed date with
  no negative minute or second) and stopped, an expired bucket is polled.
\<close>

inductive tw_reach :: "int \<Rightarrow> nat set \<Rightarrow> TimeWheel \<Rightarrow> bool" where
  make: "NewTimeWheel tick sz now z = Some w \<Longrightarrow> 2 \<le> sz \<Longrightarrow> 0 \<le> now \<Longrightarrow> tw_reach now {} w"
| tick: "tw_reach now S w \<Longrightarrow> now \<le> now' \<Longrightarrow> tw_reach now' S w"
| after_func: "tw_reach now S w \<Longrightarrow> AfterFunc i now d w = Some w' \<Longrightarrow> tw_reach now S w'"
| schedule_func: "tw_reach now S w \<Longrightarrow> valid_sched (Some s) \<Longrightarrow> ScheduleFunc i now s w = Some w' \<Longrightarrow> tw_reach now S w'"
| stop: "tw_reach now S w \<Longrightarrow> p < length (tw_timers w) \<Longrightarrow> timer_Stop False p w = Some (b, w') \<Longrightarrow> tw_reach now (insert p S) w'"
| poll: "tw_reach now S w \<Longrightarrow> process_expired (TimeToMS now) w = Some w' \<Longrightarrow> tw_reach now S w'"

definition sys_inv :: "int \<Rightarrow> nat set \<Rightarrow> TimeWheel \<Rightarrow> bool" where
  "sys_inv now S w \<longleftrightarrow> tw_inv w \<and> tw_locked w = None \<and> 0 \<le> now \<and> wclock w \<le> TimeToMS now \<and>
     (\<forall>p < length (tw_timers w). p \<notin> S \<longrightarrow> live p w)"

lemma TimeToMS_mono: "0 \<le> a \<Longrightarrow> a \<le> b \<Longrightarrow> TimeToMS a \<le> TimeToMS b"
  by (simp add: TimeToMS_def sdiv_pos zdiv_mono1)

lemma NewTimeWheel_inv:
  assumes n: "NewTimeWheel tick sz now z = Some w" and p: "2 \<le> sz" "0 \<le> now"
  shows "sys_inv now {} w"
proof -
  let ?t = "tick sdiv 1000000" and ?m = "TimeToMS now"
  have t: "0 < ?t" using n by (simp add: NewTimeWheel_def Let_def split: if_splits)
  have w: "w = \<lparr>tw_wheels = [newTimingWheel ?t sz ?m], tw_queue = newPriorityQueue (nat sz), tw_timers = [], tw_locked = None,
      tw_zone = z, tw_runs = []\<rparr>"
    using n t by (simp add: NewTimeWheel_def Let_def)
  have m: "0 \<le> ?m" using p(2) by (simp add: TimeToMS_def sdiv_pos pos_imp_zdiv_nonneg_iff)
  have c: "truncate_ms ?m ?t = ?m div ?t * ?t" by (rule truncate_ms_pos [OF m t])
  have c0: "0 \<le> ?m div ?t * ?t" using m t by (simp add: pos_imp_zdiv_nonneg_iff)
  have b: "wtick w = ?t" "wsize w = sz" "wclock w = ?m div ?t * ?t" "length (tw_wheels w) = 1" by (simp_all add: w newTimingWheel_def c)
  have G: "geo w" unfolding geo_def b using t p(1) c0 by (simp add: w newTimingWheel_def wheel_ok_def c)
  have gb: "get_bucket r w = newBucket" if "valid_ref w r" for r
  proof -
    have "fst r = 0" "snd r < nat sz" using that p(1) by (auto simp: w valid_ref_def newTimingWheel_def)
    then show ?thesis by (simp add: w get_bucket_def newTimingWheel_def)
  qed
  have q: "pq_inv (tw_queue w)" "contents (tw_queue w) = {#}"
    using p(1) by (simp_all add: w pq_inv_new)
  have "tw_inv w"
  proof (rule tw_invI)
    show "bucket_ok w r" if "valid_ref w r" for r using gb [OF that] by (simp add: bucket_ok_def newBucket_def)
    show "count (contents (tw_queue w)) (r, e) = (if in_queue w r e then 1 else 0)" for r e
      using gb [of r] q(2) by (auto simp: in_queue_def newBucket_def)
  qed (use G q(1) in \<open>simp_all add: w\<close>)
  then show ?thesis using p(2) floor_bounds(1) [OF t, of ?m] b(3) by (simp add: sys_inv_def) (simp add: w)
qed

lemma sys_invD:
  assumes "sys_inv now S w"
  shows "tw_inv w" "tw_locked w = None" "0 \<le> now" "wclock w \<le> TimeToMS now"
    "p < length (tw_timers w) \<Longrightarrow> p \<notin> S \<Longrightarrow> live p w"
  using assms by (simp_all add: sys_inv_def)

lemma new_timer_sys:
  assumes S: "sys_inv now S w" and v: "valid_sched s"
  shows "\<exists>w'. new_timer i e s w = Some w' \<and> sys_inv now S w'"
proof -
  obtain w' where w': "new_timer i e s w = Some w'" "tw_inv w'" "tw_locked w' = tw_locked w" "wclock w' = wclock w"
      "length (tw_timers w') = Suc (length (tw_timers w))" "live (length (tw_timers w)) w'"
      "\<And>x. x < length (tw_timers w) \<Longrightarrow> live x w \<Longrightarrow> live x w'"
    using new_timer_ok [OF sys_invD(1) [OF S] v] by blast
  then have "sys_inv now S w'" using sys_invD [OF S] by (auto simp: sys_inv_def less_Suc_eq)
  then show ?thesis using w'(1) by blast
qed

lemma timer_Stop_sys:
  assumes S: "sys_inv now S w" and p: "p < length (tw_timers w)"
  shows "\<exists>b' w'. timer_Stop b p w = Some (b', w') \<and> sys_inv now (insert p S) w'"
proof (cases "tm_bucket (tw_timers w ! p)")
  case None
  then show ?thesis using timer_Stop_ok [OF sys_invD(1,2) [OF S] p] S by (simp add: sys_inv_def)
next
  case (Some r)
  have "live x (removed p r w) \<longleftrightarrow> live x w" if "x \<noteq> p" for x using that by (simp add: live_def run_count_def pending_def)
  then have "sys_inv now (insert p S) (removed p r w)"
    using S removed_inv [OF sys_invD(1) [OF S] p Some] by (simp add: sys_inv_def)
  then show ?thesis using timer_Stop_ok [OF sys_invD(1,2) [OF S] p] Some by (intro exI [of _ True]) simp
qed

lemma process_sys:
  assumes S: "sys_inv now S w" and d: "\<not> nothing_due (TimeToMS now) w"
  shows "\<exists>w'. process_expired (TimeToMS now) w = Some w' \<and> sys_inv now S w' \<and> after_round w w' \<and>
    (rounds (TimeToMS now) w', rounds (TimeToMS now) w) \<in> less_than <*lex*> less_than"
proof -
  obtain w' where w': "process_expired (TimeToMS now) w = Some w'" "after_round w w'" "wclock w' \<le> TimeToMS now"
      "(rounds (TimeToMS now) w', rounds (TimeToMS now) w) \<in> less_than <*lex*> less_than"
    using process_due [OF sys_invD(1,2) [OF S] d] by blast
  have "sys_inv now S w'" using w'(2,3) S by (simp add: sys_inv_def after_round_def)
  then show ?thesis using w' by blast
qed

lemma process_total:
  assumes "sys_inv now S w"
  shows "\<exists>w'. process_expired (TimeToMS now) w = Some w' \<and> sys_inv now S w'"
  using process_sys [OF assms] process_nothing [OF sys_invD(1) [OF assms]] assms by blast

lemma reach_sys_inv: "tw_reach now S w \<Longrightarrow> sys_inv now S w"
proof (induction rule: tw_reach.induct)
  case (make tick sz now z w)
  then show ?case by (rule NewTimeWheel_inv)
next
  case (tick now S w now')
  then show ?case using TimeToMS_mono [of now now'] by (simp add: sys_inv_def)
next
  case (after_func now S w i d w')
  then show ?case using new_timer_sys [OF after_func.IH, of None i "TimeToMS (now + d)"] by (simp add: AfterFunc_def valid_sched_def)
next
  case (schedule_func now S w s i w')
  then show ?case
    using new_timer_sys [OF schedule_func.IH schedule_func.hyps(2), of i "TimeToMS (sched_Next (tw_zone w) s now)"]
    by (simp add: ScheduleFunc_def)
next
  case (stop now S w p b w')
  then show ?case using timer_Stop_sys [OF stop.IH stop.hyps(2), of False] by auto
next
  case (poll now S w w')
  then show ?case using process_total [OF poll.IH] by auto
qed

lemma pending_later:
  assumes S: "sys_inv now S w" and n: "nothing_due m w" and p: "p < length (tw_timers w)" "pending p w = 1"
  shows "m < tm_expiration (tw_timers w ! p)"
proof -
  note I = sys_invD(1) [OF S] and L = sys_invD(2) [OF S]
  obtain r where r: "tm_bucket (tw_timers w ! p) = Some r" using p(2) by (auto simp: pending_def split: if_splits)
  have v: "valid_ref w r" "p \<in> set (bk_timers (get_bucket r w))" using tw_invD(3) [OF I p(1) r] by auto
  let ?e = "bk_expiration (get_bucket r w)" and ?t = "ltick w (fst r)"
  have b: "?e \<noteq> - 1" "tm_expiration (tw_timers w ! p) div ?t * ?t = ?e"
    using tw_invD(2) [OF I v(1)] v(2) by (auto simp: bucket_ok_def Let_def)
  have "in_queue w r ?e" using v(1) b(1) L by (simp add: in_queue_def)
  then have "(r, ?e) \<in># contents (tw_queue w)" using tw_invD(5) [OF I, of r ?e] by (simp add: count_inI)
  then have "m < ?e" using n by (auto simp: nothing_due_def)
  then show ?thesis using b(2) floor_bounds(1) [OF geo_pos(1) [OF tw_invD(1) [OF I]], of "tm_expiration (tw_timers w ! p)" "fst r"] by linarith
qed

text \<open>The loop of \<open>Start\<close>: rounds at one instant.\<close>

primrec polls :: "nat \<Rightarrow> int \<Rightarrow> TimeWheel \<Rightarrow> TimeWheel option" where
  "polls 0 now w = Some w"
| "polls (Suc n) now w = Option.bind (process_expired now w) (polls n now)"

lemma polls_drain:
  assumes "sys_inv now S w" "tw_reach now S w"
  shows "\<exists>n w'. polls n (TimeToMS now) w = Some w' \<and> tw_reach now S w' \<and> nothing_due (TimeToMS now) w' \<and>
    length (tw_timers w') = length (tw_timers w) \<and>
    (\<forall>x < length (tw_timers w). tm_sched (tw_timers w' ! x) = tm_sched (tw_timers w ! x) \<and>
      (tm_sched (tw_timers w ! x) = None \<longrightarrow> tm_expiration (tw_timers w' ! x) = tm_expiration (tw_timers w ! x)))"
  using assms
proof (induction "rounds (TimeToMS now) w" arbitrary: w rule: wf_induct_rule [OF wf_lex_prod [OF wf_less_than wf_less_than]])
  case (1 w)
  show ?case
  proof (cases "nothing_due (TimeToMS now) w")
    case True
    then show ?thesis using 1(3) by (intro exI [of _ 0] exI [of _ w]) simp
  next
    case False
    obtain w1 where w1: "process_expired (TimeToMS now) w = Some w1" "sys_inv now S w1" "after_round w w1"
        "(rounds (TimeToMS now) w1, rounds (TimeToMS now) w) \<in> less_than <*lex*> less_than"
      using process_sys [OF 1(2) False] by blast
    obtain n w' where w': "polls n (TimeToMS now) w1 = Some w'" "tw_reach now S w'" "nothing_due (TimeToMS now) w'"
        "length (tw_timers w') = length (tw_timers w1)"
        "\<forall>x < length (tw_timers w1). tm_sched (tw_timers w' ! x) = tm_sched (tw_timers w1 ! x) \<and>
          (tm_sched (tw_timers w1 ! x) = None \<longrightarrow> tm_expiration (tw_timers w' ! x) = tm_expiration (tw_timers w1 ! x))"
      using 1(1) [OF w1(4) w1(2) poll [OF 1(3) w1(1)]] by blast
    have "polls (Suc n) (TimeToMS now) w = Some w'" using w1(1) w'(1) by simp
    moreover have "length (tw_timers w1) = length (tw_timers w)" "\<forall>x < length (tw_timers w). tm_sched (tw_timers w1 ! x) = tm_sched (tw_timers w ! x) \<and>
        (tm_sched (tw_timers w ! x) = None \<longrightarrow> tm_expiration (tw_timers w1 ! x) = tm_expiration (tw_timers w ! x))"
      using w1(3) unfolding after_round_def by auto
    ultimately show ?thesis using w'(2-5) by (intro exI [of _ "Suc n"] exI [of _ w']) simp
  qed
qed


text \<open>
  No task runs more than one tick before it is due, or with a clock ahead of the time; a one-shot timer
  runs at most once, and as long as it was not stopped it waits in a bucket or has run exactly once.
\<close>

theorem time_wheel_runs:
  assumes "tw_reach now S w" "p < length (tw_timers w)"
  shows "list_all (\<lambda>(q, e, c). e < c + wh_tick (tw_wheels w ! 0) \<and> c \<le> TimeToMS now) (tw_runs w) \<and>
    (tm_sched (tw_timers w ! p) = None \<longrightarrow> run_count p w + pending p w \<le> 1) \<and> (p \<notin> S \<longrightarrow> live p w)"
proof -
  note S = sys_invD [OF reach_sys_inv [OF assms(1)]]
  have "e < c + wtick w \<and> c \<le> TimeToMS now" if "(q, e, c) \<in> set (tw_runs w)" for q e c
    using tw_invD(9) [OF S(1) that] S(4) by simp
  then show ?thesis using tw_invD(8) [OF S(1) assms(2)] S(5) [OF assms(2)] by (auto simp: list_all_iff)
qed


section \<open>Fixed dates and short intervals\<close>

lemma next_in_class:
  fixes prev a t D :: int
  assumes "0 < D" "prev < a" "a \<le> prev + D" "prev < t" "t mod D = a mod D"
  shows "a \<le> t"
proof (rule ccontr)
  assume n: "\<not> a \<le> t"
  have "D dvd a - t" using assms(5) [symmetric] by (simp add: mod_eq_dvd_iff)
  then have "D \<le> a - t" using n by (intro zdvd_imp_le) simp_all
  then show False using assms n by linarith
qed

lemma shift_mod: "(x + z) mod D = (y + z) mod D \<longleftrightarrow> x mod D = y mod D" for x y z D :: int
  by (simp add: mod_eq_dvd_iff)

text \<open>
  C36. The next fixed date is the first instant after the previous one that shows the given hour, minute and
  second in the zone of the wheel, and without an hour the first with the given minute and second.
\<close>

theorem fixed_date_next:
  assumes "0 \<le> mn" "mn < 60" "0 \<le> sc" "sc < 60" "hr < 24"
  shows "prev < sched_Next z (FixedDateSchedule hr mn sc) prev \<and>
    (let n = sched_Next z (FixedDateSchedule hr mn sc) prev; D = (if hr \<ge> 0 then DAY else HOUR);
         show_at = (if hr \<ge> 0 then hr * HOUR else 0) + mn * MINUTE + sc * SECOND
     in (n + z * SECOND) mod D = show_at \<and> (\<forall>t. prev < t \<longrightarrow> (t + z * SECOND) mod D = show_at \<longrightarrow> n \<le> t))"
proof -
  let ?l = "prev + z * SECOND" and ?n = "sched_Next z (FixedDateSchedule hr mn sc) prev"
  let ?m = "mn * MINUTE + sc * SECOND"
  note later = fixed_next_later [OF assms(1,3), of prev z hr]
  have m: "0 \<le> ?m" "?m < HOUR" using assms by (simp_all add: MINUTE_def SECOND_def HOUR_def)
  have least: "\<forall>t. prev < t \<longrightarrow> (t + z * SECOND) mod D = a \<longrightarrow> ?n \<le> t"
    if "0 < D" "?n \<le> prev + D" "(?n + z * SECOND) mod D = a" for D a
    using next_in_class [OF that(1) later that(2)] that(3) shift_mod [of _ "z * SECOND" D ?n] by metis
  show ?thesis
  proof (cases "hr \<ge> 0")
    case True
    let ?a = "hr * HOUR + ?m" and ?d = "?l div DAY * DAY"
    have a: "0 \<le> ?a" "?a < DAY" using True assms by (simp_all add: MINUTE_def SECOND_def HOUR_def DAY_def)
    have d: "?d \<le> ?l" "?l < ?d + DAY" "24 * HOUR = DAY" "0 < DAY"
      using floor_bounds [of DAY ?l] by (simp_all add: DAY_def HOUR_def)
    have n: "?n + z * SECOND = ?d + ?a \<or> ?n + z * SECOND = ?d + ?a + DAY" "?n \<le> prev + DAY"
      using True a d by (auto simp: Let_def)
    have "(?d + ?a) mod DAY = ?a mod DAY" "(?d + ?a + DAY) mod DAY = ?a mod DAY"
      by (simp_all only: mod_add_self2 mod_mult_self3)
    then have "(?n + z * SECOND) mod DAY = ?a mod DAY" using n(1) by (elim disjE) (simp_all only:)
    then have "(?n + z * SECOND) mod DAY = ?a" using a by (simp only: mod_pos_pos_trivial)
    then show ?thesis using True later least [OF d(4) n(2)] by (simp add: Let_def add.assoc del: sched_Next.simps)
  next
    case False
    let ?h = "?l mod DAY div HOUR * HOUR" and ?d = "?l div DAY * DAY"
    have dv: "HOUR dvd ?d + ?h" by (simp add: DAY_def HOUR_def)
    have d: "?d + ?h \<le> ?l" "?l < ?d + ?h + HOUR" "0 < HOUR"
    proof -
      have "?h \<le> ?l mod DAY" "?l mod DAY < ?h + HOUR" using floor_bounds [of HOUR "?l mod DAY"] by (simp_all add: HOUR_def)
      then show "?d + ?h \<le> ?l" "?l < ?d + ?h + HOUR" using div_mult_mod_eq [of ?l DAY] by linarith+
    qed (simp add: HOUR_def)
    have n: "?n + z * SECOND = ?d + ?h + ?m \<or> ?n + z * SECOND = ?d + ?h + ?m + HOUR" "?n \<le> prev + HOUR"
      using False m d by (auto simp: Let_def)
    have "(?d + ?h + ?m) mod HOUR = ?m" using dv m by (metis mod_add_left_eq dvd_imp_mod_0 add_0 mod_pos_pos_trivial)
    then have "(?n + z * SECOND) mod HOUR = ?m" using n(1) by (elim disjE) (simp_all only: mod_add_self2)
    then show ?thesis using False later least [OF d(3) n(2)] by (simp add: Let_def del: sched_Next.simps)
  qed
qed

lemma addOrRun_stuck:
  assumes "addOrRun p w = Some w'"
  shows "\<not> (p < length (tw_timers w) \<and> tm_sched (tw_timers w ! p) = Some s \<and>
    next_expiration (tw_zone w) s (tm_expiration (tw_timers w ! p)) = tm_expiration (tw_timers w ! p) \<and>
    tm_expiration (tw_timers w ! p) < wclock w + wtick w)"
  using assms
proof (induction p w w' rule: addOrRun.raw_induct [rotated, consumes 1])
  case (1 rec p w y)
  show ?case
  proof
    assume a: "p < length (tw_timers w) \<and> tm_sched (tw_timers w ! p) = Some s \<and>
      next_expiration (tw_zone w) s (tm_expiration (tw_timers w ! p)) = tm_expiration (tw_timers w ! p) \<and>
      tm_expiration (tw_timers w ! p) < wclock w + wtick w"
    then have st: "put_timer p (tw_timers w ! p) w = w" by (simp add: put_timer_def)
    have "rec p w \<noteq> None" using 1(2) a by (auto simp: st tw_add_expired Let_def bind_eq_Some_conv)
    then show False using 1(1) a by blast
  qed
qed

text \<open>
  An interval below one millisecond does not move the expiration of the timer: \<open>AddEveryFunc\<close> never
  answers once the timer falls into the current tick, since adding or running it recurses for ever.
\<close>

theorem every_short_interval_diverges:
  assumes "0 \<le> now" "0 \<le> d" "d < 1000000" "TimeToMS (now + d) < wh_current (tw_wheels w ! 0) + wh_tick (tw_wheels w ! 0)"
  shows "AddEveryFunc i now d w = None"
proof -
  let ?e = "TimeToMS (now + d)"
  let ?t = "\<lparr>tm_id = i, tm_expiration = ?e, tm_sched = Some (EverySchedule d), tm_bucket = None\<rparr>"
  let ?w = "w\<lparr>tw_timers := tw_timers w @ [?t]\<rparr>"
  have "0 \<le> ?e" using assms by (simp add: TimeToMS_def sdiv_pos pos_imp_zdiv_nonneg_iff)
  then have "next_expiration z (EverySchedule d) ?e = ?e" for z
    using assms by (simp add: next_expiration_def MSToTime_def TimeToMS_def sdiv_pos)
  then have "addOrRun (length (tw_timers w)) ?w \<noteq> Some w'" for w'
    using addOrRun_stuck [of "length (tw_timers w)" ?w w' "EverySchedule d"] assms by auto
  then show ?thesis by (auto simp: AddEveryFunc_def ScheduleFunc_def new_timer_def)
qed

section \<open>Witnesses\<close>

text \<open>A wheel of four slots of one millisecond, and the same with one timer due after three milliseconds.\<close>

definition demo_wheel :: TimeWheel where
  "demo_wheel = the (NewTimeWheel 1000000 4 0 0)"

definition demo_wheel1 :: TimeWheel where
  "demo_wheel1 = the (AfterFunc 7 0 3000000 demo_wheel)"

lemma demo_reach: "tw_reach 0 {} demo_wheel" "tw_reach 5000000 {} demo_wheel1"
proof -
  have "NewTimeWheel 1000000 4 0 0 = Some demo_wheel"
    by (simp add: demo_wheel_def NewTimeWheel_def Let_def sdiv_pos)
  then show d: "tw_reach 0 {} demo_wheel" by (rule tw_reach.make) simp_all
  have "AfterFunc 7 0 3000000 demo_wheel = Some demo_wheel1"
    using new_timer_sys [OF reach_sys_inv [OF d], of None 7 "TimeToMS (0 + 3000000)"]
    by (auto simp: demo_wheel1_def AfterFunc_def valid_sched_def)
  then show "tw_reach 5000000 {} demo_wheel1" using tw_reach.tick [OF tw_reach.after_func [OF d]] by simp
qed

lemma demo_fields: "length (tw_timers demo_wheel1) = 1" "tm_sched (tw_timers demo_wheel1 ! 0) = None"
  "tm_expiration (tw_timers demo_wheel1 ! 0) = 3" "wclock demo_wheel = 0" "wtick demo_wheel = 1"
  by code_simp+


lemma time_wheel_runs_witness: "run_count 0 demo_wheel1 + pending 0 demo_wheel1 \<le> 1 \<and> live 0 demo_wheel1"
  using time_wheel_runs [OF demo_reach(2), of 0] by (simp add: demo_fields)


lemma fixed_date_next_witness:
  "0 < sched_Next 28800 (FixedDateSchedule 8 30 0) 0 \<and>
   (sched_Next 28800 (FixedDateSchedule 8 30 0) 0 + 28800 * SECOND) mod DAY = 8 * HOUR + 30 * MINUTE"
  using fixed_date_next [of 30 0 8 0 28800] by (simp add: Let_def del: sched_Next.simps)

lemma every_short_interval_diverges_witness: "AddEveryFunc 1 0 500 demo_wheel = None"
  using every_short_interval_diverges [of 0 500 demo_wheel 1] by (simp add: demo_fields TimeToMS_def sdiv_pos)

end
