(* ===== verification/Discovery.thy ===== *)
theory Discovery
  imports Node_Id Session "HOL-Library.Multiset"
begin

text \<open>
  Node discovery: the member table of \<open>src/net/discovery/discovery_default.go\<close> and the master protocol of
  \<open>discovery_nats.go\<close> on top of it. A member table is an association list in the order a \<open>Range\<close> visits it;
  nothing here depends on that order. A listener is a number, and the table logs which listener saw which
  member. The second part is the transition system of one master and its clients over NATS: the handling of
  a registration at the master is one step, as the callback of a subscription is serial; the answer to a
  registration and the published messages travel separately; a request may fail at any time.
\<close>

section \<open>The member table\<close>

record Member =
  mb_NodeID :: string
  mb_NodeType :: string
  mb_Address :: string
  mb_Settings :: "(string, string) gomap"

record DiscoveryDefault =
  memberMap :: "(string, Member) gomap"
  onAddListener :: "nat list"
  onRemoveListener :: "nat list"
  added_log :: "(nat \<times> Member) list"
  removed_log :: "(nat \<times> Member) list"

definition new_discovery :: DiscoveryDefault where
  "new_discovery = \<lparr>memberMap = [], onAddListener = [], onRemoveListener = [], added_log = [], removed_log = []\<rparr>"

definition PreInit :: "DiscoveryDefault \<Rightarrow> DiscoveryDefault" where
  "PreInit n = n\<lparr>memberMap := []\<rparr>"

text \<open>\<open>StringIn\<close>: the first index and whether there is one.\<close>

fun StringIn :: "string \<Rightarrow> string list \<Rightarrow> nat \<times> bool" where
  "StringIn v [] = (0, False)"
| "StringIn v (x # xs) = (if x = v then (0, True) else case StringIn v xs of (i, True) \<Rightarrow> (Suc i, True) | (_, False) \<Rightarrow> (0, False))"

definition ListByType :: "string \<Rightarrow> string list \<Rightarrow> DiscoveryDefault \<Rightarrow> Member list" where
  "ListByType nodeType filterNodeID n =
     filter (\<lambda>m. mb_NodeType m = nodeType \<and> \<not> snd (StringIn (mb_NodeID m) filterNodeID)) (map snd (memberMap n))"

definition disc_Map :: "DiscoveryDefault \<Rightarrow> (string, Member) gomap" where
  "disc_Map n = fold (\<lambda>m acc. AList.update (mb_NodeID m) m acc) (map snd (memberMap n)) []"

text \<open>\<open>Random\<close>: \<open>r\<close> is what \<open>rand.Intn\<close> answers for the length of the list.\<close>

definition disc_Random :: "(nat \<Rightarrow> nat) \<Rightarrow> string \<Rightarrow> DiscoveryDefault \<Rightarrow> Member option" where
  "disc_Random r nodeType n =
     (let memberList = ListByType nodeType [] n; memberLen = length memberList in
      if memberLen < 1 then None
      else if memberLen = 1 then Some (memberList ! 0)
      else Some (memberList ! r memberLen))"

definition GetMember :: "string \<Rightarrow> DiscoveryDefault \<Rightarrow> Member option" where
  "GetMember nodeID n = (if nodeID = [] then None else map_of (memberMap n) nodeID)"

definition disc_GetType :: "string \<Rightarrow> DiscoveryDefault \<Rightarrow> string + string" where
  "disc_GetType nodeID n =
     (case GetMember nodeID n of
        None \<Rightarrow> Inl (''nodeID = '' @ nodeID @ '' not found.'')
      | Some m \<Rightarrow> Inr (mb_NodeType m))"

definition AddMember :: "Member \<Rightarrow> DiscoveryDefault \<Rightarrow> DiscoveryDefault" where
  "AddMember m n =
     (if map_of (memberMap n) (mb_NodeID m) \<noteq> None then n
      else n\<lparr>memberMap := AList.update (mb_NodeID m) m (memberMap n),
             added_log := added_log n @ map (\<lambda>l. (l, m)) (onAddListener n)\<rparr>)"

definition RemoveMember :: "string \<Rightarrow> DiscoveryDefault \<Rightarrow> DiscoveryDefault" where
  "RemoveMember nodeID n =
     (case map_of (memberMap n) nodeID of
        None \<Rightarrow> n
      | Some m \<Rightarrow> n\<lparr>memberMap := AList.delete nodeID (memberMap n),
                    removed_log := removed_log n @ map (\<lambda>l. (l, m)) (onRemoveListener n)\<rparr>)"

definition OnAddMember :: "nat option \<Rightarrow> DiscoveryDefault \<Rightarrow> DiscoveryDefault" where
  "OnAddMember listener n =
     (case listener of None \<Rightarrow> n | Some l \<Rightarrow> n\<lparr>onAddListener := onAddListener n @ [l]\<rparr>)"

definition OnRemoveMember :: "nat option \<Rightarrow> DiscoveryDefault \<Rightarrow> DiscoveryDefault" where
  "OnRemoveMember listener n =
     (case listener of None \<Rightarrow> n | Some l \<Rightarrow> n\<lparr>onRemoveListener := onRemoveListener n @ [l]\<rparr>)"

text \<open>
  \<open>Load\<close> of the profile: the nodes of each type in turn. An entry without an id or with an id that is taken
  ends the list of its type. No table stands for a missing \<open>node\<close> property.
\<close>

record node_item =
  ni_node_id :: string
  ni_rpc_address :: string
  ni_settings :: "(string, string) gomap"

fun load_type :: "string \<Rightarrow> node_item list \<Rightarrow> DiscoveryDefault \<Rightarrow> DiscoveryDefault" where
  "load_type nodeType [] n = n"
| "load_type nodeType (item # items) n =
     (if ni_node_id item = [] then n
      else if GetMember (ni_node_id item) n \<noteq> None then n
      else load_type nodeType items
        (n\<lparr>memberMap := AList.update (ni_node_id item)
            \<lparr>mb_NodeID = ni_node_id item, mb_NodeType = nodeType, mb_Address = ni_rpc_address item,
             mb_Settings = fold (\<lambda>(k, v). AList.update k v) (ni_settings item) []\<rparr> (memberMap n)\<rparr>))"

definition disc_Load :: "(string \<times> node_item list) list option \<Rightarrow> DiscoveryDefault \<Rightarrow> DiscoveryDefault" where
  "disc_Load nodeConfig n =
     (case nodeConfig of None \<Rightarrow> n | Some types \<Rightarrow> fold (\<lambda>(t, items). load_type t items) types n)"

section \<open>The master protocol\<close>

text \<open>What is published to the clients (and, for \<open>Unregister\<close>, to all nodes).\<close>

datatype dmsg = AddMsg Member | UnregisterMsg string

text \<open>
  A node: its own member, its table, the published messages it has not handled yet, and, for a client, the
  member list of a registration that was answered but not received.
\<close>

record dnode =
  dn_this :: Member
  dn_table :: DiscoveryDefault
  dn_inbox :: "dmsg list"
  dn_answer :: "Member list option"

record dnet =
  ds_master :: string
  ds_nodes :: "string \<rightharpoonup> dnode"
  ds_started :: "Member set"
  ds_left :: "string set"

definition isMaster :: "dnet \<Rightarrow> string \<Rightarrow> bool" where
  "isMaster d i \<longleftrightarrow> i = ds_master d"

text \<open>A publication reaches every subscribed node.\<close>

definition publish_all :: "dmsg \<Rightarrow> (string \<Rightarrow> bool) \<Rightarrow> dnet \<Rightarrow> dnet" where
  "publish_all m subscribed d =
     d\<lparr>ds_nodes := (\<lambda>i. map_option (\<lambda>x. if subscribed i then x\<lparr>dn_inbox := dn_inbox x @ [m]\<rparr> else x) (ds_nodes d i))\<rparr>"

text \<open>The start of a node: \<open>Load\<close> up to its subscriptions; the master enters itself.\<close>

definition start_node :: "Member \<Rightarrow> dnet \<Rightarrow> dnet" where
  "start_node m d =
     (let t = PreInit new_discovery;
          t = (if isMaster d (mb_NodeID m) then AddMember m t else t)
      in d\<lparr>ds_nodes := (ds_nodes d)(mb_NodeID m \<mapsto> \<lparr>dn_this = m, dn_table = t, dn_inbox = [], dn_answer = None\<rparr>),
           ds_started := insert m (ds_started d)\<rparr>)"

text \<open>The handler of the registration at the master: the new table and the answer.\<close>

definition on_register :: "Member \<Rightarrow> DiscoveryDefault \<Rightarrow> Member list \<times> DiscoveryDefault" where
  "on_register newMember t =
     (let t = AddMember newMember t
      in (filter (\<lambda>m. mb_NodeID m \<noteq> mb_NodeID newMember) (map snd (memberMap t)), t))"

text \<open>The handlers of the published messages at a node.\<close>

definition on_published :: "bool \<Rightarrow> string \<Rightarrow> dmsg \<Rightarrow> DiscoveryDefault \<Rightarrow> DiscoveryDefault" where
  "on_published master self m t =
     (case m of
        AddMsg x \<Rightarrow> if master then t else if GetMember (mb_NodeID x) t = None then AddMember x t else t
      | UnregisterMsg i \<Rightarrow> if i = self then t else RemoveMember i t)"

text \<open>
  The steps: a node starts; a client that does not know the master registers, which the master handles; its
  answer arrives or is lost; a node handles a published message; a node stops.
\<close>

definition registerToMaster :: "string \<Rightarrow> dnet \<Rightarrow> dnet" where
  "registerToMaster c d =
     (case (ds_nodes d c, ds_nodes d (ds_master d)) of
        (Some x, Some m) \<Rightarrow>
          (let (answer, t) = on_register (dn_this x) (dn_table m);
               d = d\<lparr>ds_nodes := (ds_nodes d)(ds_master d \<mapsto> m\<lparr>dn_table := t\<rparr>, c \<mapsto> x\<lparr>dn_answer := Some answer\<rparr>)\<rparr>
           in publish_all (AddMsg (dn_this x)) (\<lambda>i. i \<noteq> ds_master d) d)
      | _ \<Rightarrow> d)"

definition register_answered :: "string \<Rightarrow> dnode \<Rightarrow> dnet \<Rightarrow> dnet" where
  "register_answered c x d =
     (case dn_answer x of
        None \<Rightarrow> d
      | Some ms \<Rightarrow> d\<lparr>ds_nodes := (ds_nodes d)(c \<mapsto> x\<lparr>dn_table := fold AddMember ms (dn_table x), dn_answer := None\<rparr>)\<rparr>)"

definition nats_Stop :: "string \<Rightarrow> dnet \<Rightarrow> dnet" where
  "nats_Stop i d =
     (let d = publish_all (UnregisterMsg i) (\<lambda>_. True) d
      in d\<lparr>ds_nodes := (ds_nodes d)(i := None), ds_left := insert i (ds_left d)\<rparr>)"

inductive dstep :: "dnet \<Rightarrow> dnet \<Rightarrow> bool" where
  start: "ds_nodes d (mb_NodeID m) = None \<Longrightarrow> mb_NodeID m \<noteq> [] \<Longrightarrow> dstep d (start_node m d)"
| checkMaster: "ds_nodes d c = Some x \<Longrightarrow> \<not> isMaster d c \<Longrightarrow> GetMember (ds_master d) (dn_table x) = None \<Longrightarrow>
    dn_answer x = None \<Longrightarrow> dstep d (registerToMaster c d)"
| answered: "ds_nodes d c = Some x \<Longrightarrow> dn_answer x = Some ms \<Longrightarrow> dstep d (register_answered c x d)"
| request_failed: "ds_nodes d c = Some x \<Longrightarrow> dn_answer x = Some ms \<Longrightarrow>
    dstep d (d\<lparr>ds_nodes := (ds_nodes d)(c \<mapsto> x\<lparr>dn_answer := None\<rparr>)\<rparr>)"
| deliver: "ds_nodes d i = Some x \<Longrightarrow> dn_inbox x = m # ms \<Longrightarrow>
    dstep d (d\<lparr>ds_nodes := (ds_nodes d)(i \<mapsto> x\<lparr>dn_inbox := ms, dn_table := on_published (isMaster d i) i m (dn_table x)\<rparr>)\<rparr>)"
| leave: "ds_nodes d i = Some x \<Longrightarrow> dstep d (nats_Stop i d)"

definition dinit :: "string \<Rightarrow> dnet" where
  "dinit master = \<lparr>ds_master = master, ds_nodes = Map.empty, ds_started = {}, ds_left = {}\<rparr>"

inductive dreachable :: "string \<Rightarrow> dnet \<Rightarrow> bool" where
  init: "master \<noteq> [] \<Longrightarrow> dreachable master (dinit master)"
| step: "dreachable master d \<Longrightarrow> dstep d d' \<Longrightarrow> dreachable master d'"

section \<open>Lemmas on the table\<close>

definition members :: "DiscoveryDefault \<Rightarrow> Member set" where
  "members n = snd ` set (memberMap n)"

lemma members_new [simp]: "members new_discovery = {}" "members (PreInit n) = {}"
  by (simp_all add: members_def new_discovery_def PreInit_def)

definition table_ok :: "DiscoveryDefault \<Rightarrow> bool" where
  "table_ok n \<longleftrightarrow> distinct (map fst (memberMap n)) \<and> (\<forall>(k, m) \<in> set (memberMap n). k = mb_NodeID m)"

lemma table_ok_new [simp]: "table_ok new_discovery" "table_ok (PreInit n)" "memberMap new_discovery = []" "memberMap (PreInit n) = []"
  by (simp_all add: table_ok_def new_discovery_def PreInit_def)

lemma update_new: "map_of xs k = None \<Longrightarrow> AList.update k v xs = xs @ [(k, v)]"
  by (induction xs) auto

lemma AddMember_map:
  "memberMap (AddMember m n) = (if map_of (memberMap n) (mb_NodeID m) = None then memberMap n @ [(mb_NodeID m, m)] else memberMap n)"
  by (simp add: AddMember_def update_new)

lemma table_ok_AddMember: "table_ok n \<Longrightarrow> table_ok (AddMember m n)"
  by (auto simp: table_ok_def AddMember_map map_of_eq_None_iff image_iff)

lemma table_ok_RemoveMember: "table_ok n \<Longrightarrow> table_ok (RemoveMember i n)"
  using distinct_keys_delete [of "memberMap n" i]
  by (auto simp: table_ok_def RemoveMember_def AList.delete_eq split: option.splits)

lemma keys_AddMember [simp]: "mkeys (memberMap (AddMember m n)) = insert (mb_NodeID m) (mkeys (memberMap n))"
proof (cases "mb_NodeID m \<in> mkeys (memberMap n)")
  case True
  then show ?thesis by (auto simp: AddMember_map map_of_None_keys)
next
  case False
  then show ?thesis by (simp add: AddMember_map map_of_None_keys)
qed

lemma keys_RemoveMember [simp]: "mkeys (memberMap (RemoveMember i n)) = mkeys (memberMap n) - {i}"
proof (cases "map_of (memberMap n) i")
  case None
  then have "i \<notin> mkeys (memberMap n)" by (simp add: map_of_None_keys)
  then show ?thesis unfolding RemoveMember_def None by simp
next
  case (Some m)
  then show ?thesis by (simp add: RemoveMember_def)
qed

lemma members_AddMember: "members (AddMember m n) \<subseteq> insert m (members n)"
  by (auto simp: AddMember_map members_def)

lemma members_RemoveMember: "members (RemoveMember i n) \<subseteq> members n"
  by (auto simp: RemoveMember_def AList.delete_eq members_def split: option.splits)

lemma keys_fold_AddMember [simp]: "mkeys (memberMap (fold AddMember ms n)) = mb_NodeID ` set ms \<union> mkeys (memberMap n)"
  by (induction ms arbitrary: n) auto

lemma members_fold_AddMember: "members (fold AddMember ms n) \<subseteq> set ms \<union> members n"
proof (induction ms arbitrary: n)
  case (Cons m ms)
  show ?case using Cons.IH [of "AddMember m n"] members_AddMember [of m n] by auto
qed simp

lemma table_ok_fold: "table_ok n \<Longrightarrow> table_ok (fold AddMember ms n)"
  by (induction ms arbitrary: n) (simp_all add: table_ok_AddMember)

lemma GetMember_keys: "i \<noteq> [] \<Longrightarrow> GetMember i n = None \<longleftrightarrow> i \<notin> mkeys (memberMap n)"
  by (simp add: GetMember_def map_of_None_keys)

text \<open>
  The member table. Adding a member with a free id enters it and tells every listener once; with an id
  that is taken it changes nothing, so the first entry of an id wins. Removing a member takes out its id only
  and tells every listener of removals once, or does nothing when the id is unknown. Lists by type hold
  exactly the members of the type that are not filtered out, and the random choice is one of them.
\<close>

theorem member_table:
  assumes "table_ok n" "mb_NodeID m \<noteq> []" "\<forall>k. 0 < k \<longrightarrow> r k < k"
  shows "table_ok (AddMember m n) \<and> table_ok (RemoveMember i n) \<and>
    (case GetMember (mb_NodeID m) n of
       Some _ \<Rightarrow> AddMember m n = n
     | None \<Rightarrow> GetMember (mb_NodeID m) (AddMember m n) = Some m \<and>
         added_log (AddMember m n) = added_log n @ map (\<lambda>l. (l, m)) (onAddListener n)) \<and>
    (i \<noteq> mb_NodeID m \<longrightarrow> GetMember i (AddMember m n) = GetMember i n) \<and>
    GetMember i (RemoveMember i n) = None \<and> (i \<noteq> j \<longrightarrow> GetMember j (RemoveMember i n) = GetMember j n) \<and>
    (i \<noteq> [] \<longrightarrow> removed_log (RemoveMember i n) = removed_log n @
       (case GetMember i n of None \<Rightarrow> [] | Some x \<Rightarrow> map (\<lambda>l. (l, x)) (onRemoveListener n))) \<and>
    set (ListByType t fs n) = {x \<in> members n. mb_NodeType x = t \<and> mb_NodeID x \<notin> set fs} \<and>
    (case disc_Random r t n of
       None \<Rightarrow> ListByType t [] n = []
     | Some x \<Rightarrow> x \<in> members n \<and> mb_NodeType x = t)"
proof (intro conjI)
  have si: "snd (StringIn v xs) \<longleftrightarrow> v \<in> set xs" for v xs by (induction xs) (auto split: prod.splits bool.splits)
  show l: "set (ListByType t fs n) = {x \<in> members n. mb_NodeType x = t \<and> mb_NodeID x \<notin> set fs}" for fs
    by (auto simp: ListByType_def si members_def)
  have "disc_Random r t n = Some x \<Longrightarrow> x \<in> set (ListByType t [] n)" for x
    using assms(3) by (auto simp: disc_Random_def Let_def split: if_splits)
  then show "case disc_Random r t n of None \<Rightarrow> ListByType t [] n = [] | Some x \<Rightarrow> x \<in> members n \<and> mb_NodeType x = t"
    using l [of "[]"] by (auto simp: disc_Random_def Let_def split: option.splits if_splits)
  show "case GetMember (mb_NodeID m) n of
      Some _ \<Rightarrow> AddMember m n = n
    | None \<Rightarrow> GetMember (mb_NodeID m) (AddMember m n) = Some m \<and>
        added_log (AddMember m n) = added_log n @ map (\<lambda>l. (l, m)) (onAddListener n)"
    using assms(2) by (auto simp: GetMember_def AddMember_def split: option.splits)
  show "i \<noteq> mb_NodeID m \<longrightarrow> GetMember i (AddMember m n) = GetMember i n"
    by (simp add: GetMember_def AddMember_def)
  show "GetMember i (RemoveMember i n) = None" "i \<noteq> j \<longrightarrow> GetMember j (RemoveMember i n) = GetMember j n"
    by (auto simp: GetMember_def RemoveMember_def split: option.splits)
  show "i \<noteq> [] \<longrightarrow> removed_log (RemoveMember i n) = removed_log n @
      (case GetMember i n of None \<Rightarrow> [] | Some x \<Rightarrow> map (\<lambda>l. (l, x)) (onRemoveListener n))"
    by (auto simp: GetMember_def RemoveMember_def split: option.splits)
qed (simp_all add: table_ok_AddMember table_ok_RemoveMember assms(1))

section \<open>Invariant of the protocol\<close>

definition add_ids :: "dnode \<Rightarrow> string set" where
  "add_ids x = {mb_NodeID a |a. AddMsg a \<in> set (dn_inbox x)}"

definition answer_ids :: "dnode \<Rightarrow> string set" where
  "answer_ids x = (case dn_answer x of None \<Rightarrow> {} | Some ms \<Rightarrow> mb_NodeID ` set ms)"

abbreviation keys_of :: "dnode \<Rightarrow> string set" where
  "keys_of x \<equiv> mkeys (memberMap (dn_table x))"

text \<open>Everything a node holds, has been told or is about to be told was started.\<close>

definition sound_node :: "dnet \<Rightarrow> string \<Rightarrow> dnode \<Rightarrow> bool" where
  "sound_node d i x \<longleftrightarrow> mb_NodeID (dn_this x) = i \<and> dn_this x \<in> ds_started d \<and> table_ok (dn_table x) \<and>
     members (dn_table x) \<subseteq> ds_started d \<and> (\<forall>a. AddMsg a \<in> set (dn_inbox x) \<longrightarrow> a \<in> ds_started d) \<and>
     (\<forall>ms. dn_answer x = Some ms \<longrightarrow> set ms \<subseteq> ds_started d) \<and>
     (\<forall>j. UnregisterMsg j \<in> set (dn_inbox x) \<longrightarrow> j \<in> ds_left d)"

text \<open>A client that knows the master knows, or is about to be told of, everyone the master knows, and no one else.\<close>

definition synced_node :: "dnet \<Rightarrow> dnode \<Rightarrow> dnode \<Rightarrow> bool" where
  "synced_node d m x \<longleftrightarrow>
     (ds_master d \<in> keys_of x \<longrightarrow> keys_of m - ds_left d \<subseteq> keys_of x \<union> add_ids x) \<and>
     (dn_answer x \<noteq> None \<longrightarrow> keys_of m - ds_left d \<subseteq> keys_of x \<union> add_ids x \<union> answer_ids x) \<and>
     (keys_of x \<union> add_ids x \<union> answer_ids x) - ds_left d \<subseteq> keys_of m \<and>
     ds_master d \<notin> add_ids x"

definition dinv :: "dnet \<Rightarrow> bool" where
  "dinv d \<longleftrightarrow> (\<forall>i x. ds_nodes d i = Some x \<longrightarrow> sound_node d i x) \<and>
     (\<forall>m. ds_master d \<notin> ds_left d \<longrightarrow> ds_nodes d (ds_master d) = Some m \<longrightarrow>
        ds_master d \<in> keys_of m \<and> add_ids m = {} \<and> dn_answer m = None \<and>
        (\<forall>c x. c \<noteq> ds_master d \<longrightarrow> ds_nodes d c = Some x \<longrightarrow> synced_node d m x)) \<and>
     (ds_master d \<notin> ds_left d \<longrightarrow> ds_nodes d (ds_master d) = None \<longrightarrow>
        (\<forall>c x. ds_nodes d c = Some x \<longrightarrow> keys_of x = {} \<and> add_ids x = {} \<and> dn_answer x = None))"

lemma publish_fields [simp]:
  "ds_master (publish_all m f d) = ds_master d" "ds_started (publish_all m f d) = ds_started d" "ds_left (publish_all m f d) = ds_left d"
  "ds_nodes (publish_all m f d) i = map_option (\<lambda>x. if f i then x\<lparr>dn_inbox := dn_inbox x @ [m]\<rparr> else x) (ds_nodes d i)"
  by (simp_all add: publish_all_def)

lemma register_fields:
  assumes "ds_nodes d c = Some x" "ds_nodes d (ds_master d) = Some m" "c \<noteq> ds_master d"
  shows "ds_master (registerToMaster c d) = ds_master d" "ds_started (registerToMaster c d) = ds_started d"
    "ds_left (registerToMaster c d) = ds_left d"
    "ds_nodes (registerToMaster c d) (ds_master d) = Some (m\<lparr>dn_table := AddMember (dn_this x) (dn_table m)\<rparr>)"
    "ds_nodes (registerToMaster c d) c = Some (x\<lparr>dn_answer := Some (fst (on_register (dn_this x) (dn_table m))),
       dn_inbox := dn_inbox x @ [AddMsg (dn_this x)]\<rparr>)"
    "i \<noteq> c \<Longrightarrow> i \<noteq> ds_master d \<Longrightarrow> ds_nodes (registerToMaster c d) i =
       map_option (\<lambda>y. y\<lparr>dn_inbox := dn_inbox y @ [AddMsg (dn_this x)]\<rparr>) (ds_nodes d i)"
  using assms by (simp_all add: registerToMaster_def on_register_def Let_def)

lemma image_filter_ne: "f ` {y \<in> Y. f y \<noteq> a} = f ` Y - {a}"
  by auto

lemma register_answer_ids:
  assumes "table_ok t"
  shows "mb_NodeID ` set (fst (on_register m t)) = mkeys (memberMap (AddMember m t)) - {mb_NodeID m}"
proof -
  let ?T = "memberMap (AddMember m t)"
  have "\<forall>(k, y) \<in> set ?T. k = mb_NodeID y" using table_ok_AddMember [OF assms, of m] by (simp add: table_ok_def)
  then have "(\<lambda>p. mb_NodeID (snd p)) ` set ?T = mkeys ?T" by (intro image_cong) auto
  then have "mb_NodeID ` snd ` set ?T = mkeys ?T" by (simp add: image_image)
  then show ?thesis unfolding on_register_def Let_def fst_conv set_filter set_map image_filter_ne by (rule arg_cong)
qed

lemma register_answer_members: "set (fst (on_register m t)) \<subseteq> insert m (members t)"
  using members_AddMember [of m t] by (auto simp: on_register_def Let_def members_def)

lemma inbox_ids [simp]:
  "add_ids (x\<lparr>dn_inbox := dn_inbox x @ [AddMsg a]\<rparr>) = insert (mb_NodeID a) (add_ids x)"
  "add_ids (x\<lparr>dn_inbox := dn_inbox x @ [UnregisterMsg i]\<rparr>) = add_ids x"
  "add_ids (x\<lparr>dn_table := t\<rparr>) = add_ids x" "add_ids (x\<lparr>dn_answer := q\<rparr>) = add_ids x"
  "answer_ids (x\<lparr>dn_inbox := b\<rparr>) = answer_ids x" "answer_ids (x\<lparr>dn_table := t\<rparr>) = answer_ids x"
  "answer_ids (x\<lparr>dn_answer := Some ms\<rparr>) = mb_NodeID ` set ms" "answer_ids (x\<lparr>dn_answer := None\<rparr>) = {}"
  by (auto simp: add_ids_def answer_ids_def)

lemma dinvD:
  assumes "dinv d"
  shows "ds_nodes d i = Some x \<Longrightarrow> sound_node d i x"
    "ds_master d \<notin> ds_left d \<Longrightarrow> ds_nodes d (ds_master d) = Some m \<Longrightarrow> ds_master d \<in> keys_of m \<and> add_ids m = {} \<and> dn_answer m = None"
    "ds_master d \<notin> ds_left d \<Longrightarrow> ds_nodes d (ds_master d) = Some m \<Longrightarrow> c \<noteq> ds_master d \<Longrightarrow> ds_nodes d c = Some x \<Longrightarrow> synced_node d m x"
    "ds_master d \<notin> ds_left d \<Longrightarrow> ds_nodes d (ds_master d) = None \<Longrightarrow> ds_nodes d c = Some x \<Longrightarrow> keys_of x = {} \<and> add_ids x = {} \<and> dn_answer x = None"
  using assms unfolding dinv_def by blast+

lemma start_dinv:
  assumes I: "dinv d" and n: "ds_nodes d (mb_NodeID m) = None"
  shows "dinv (start_node m d)"
proof -
  let ?i = "mb_NodeID m" and ?d = "start_node m d"
  have f: "ds_master ?d = ds_master d" "ds_left ?d = ds_left d" "ds_started ?d = insert m (ds_started d)"
    by (simp_all add: start_node_def Let_def)
  define t where "t = (if isMaster d ?i then AddMember m (PreInit new_discovery) else PreInit new_discovery)"
  let ?x = "\<lparr>dn_this = m, dn_table = t, dn_inbox = [], dn_answer = None\<rparr>"
  have nd: "ds_nodes ?d = (ds_nodes d)(?i \<mapsto> ?x)" by (simp add: start_node_def Let_def t_def)
  have t: "table_ok t" "members t \<subseteq> {m}" "mkeys (memberMap t) = (if isMaster d ?i then {?i} else {})"
    using members_AddMember [of m "PreInit new_discovery"] by (auto simp: t_def table_ok_AddMember)
  have e: "add_ids ?x = {}" "answer_ids ?x = {}" by (simp_all add: add_ids_def answer_ids_def)
  have s: "sound_node ?d i x" if "ds_nodes ?d i = Some x" for i x
  proof (cases "i = ?i")
    case True
    then have "x = ?x" using that by (simp add: nd)
    moreover have "members t \<subseteq> insert m (ds_started d)" using t(2) by blast
    ultimately show ?thesis using True t(1) by (simp add: f sound_node_def)
  next
    case False
    then show ?thesis using that dinvD(1) [OF I, of i x] by (auto simp: nd f sound_node_def)
  qed
  show ?thesis
  proof (cases "isMaster d ?i")
    case True
    then have m: "?i = ds_master d" by (simp add: isMaster_def)
    have "synced_node ?d ?x x" if "ds_master d \<notin> ds_left d" "c \<noteq> ds_master d" "ds_nodes d c = Some x" for c x
      using dinvD(4) [OF I that(1) n [unfolded m] that(3)] t(3) by (simp add: synced_node_def f answer_ids_def)
    then show ?thesis unfolding dinv_def using s t(3) True m e by (auto simp: nd f)
  next
    case False
    then have m: "?i \<noteq> ds_master d" by (simp add: isMaster_def)
    have "synced_node ?d y x" if "ds_master d \<notin> ds_left d" "ds_nodes d (ds_master d) = Some y" "c \<noteq> ds_master d" "ds_nodes ?d c = Some x" for c x y
      using dinvD(3) [OF I that(1,2,3), of x] that t(3) False e by (auto simp: synced_node_def f nd split: if_splits)
    then show ?thesis unfolding dinv_def using s t(3) False m e dinvD(2,4) [OF I] by (auto simp: nd f)
  qed
qed

lemma register_dinv:
  assumes I: "dinv d" and x: "ds_nodes d c = Some x" and c: "\<not> isMaster d c"
  shows "dinv (registerToMaster c d)"
proof (cases "ds_nodes d (ds_master d)")
  case None
  then show ?thesis using I by (cases "ds_nodes d c") (simp_all add: registerToMaster_def)
next
  case (Some m)
  let ?d = "registerToMaster c d" and ?a = "dn_this x"
  have cm: "c \<noteq> ds_master d" using c by (simp add: isMaster_def)
  note F = register_fields [OF x Some cm]
  note X = dinvD(1) [OF I x] and M = dinvD(1) [OF I Some]
  have a: "mb_NodeID ?a = c" "?a \<in> ds_started d" using X by (auto simp: sound_node_def)
  have tm: "table_ok (dn_table m)" "members (dn_table m) \<subseteq> ds_started d" using M by (auto simp: sound_node_def)
  let ?m = "m\<lparr>dn_table := AddMember ?a (dn_table m)\<rparr>" and ?ans = "fst (on_register ?a (dn_table m))"
  have am: "members (AddMember ?a (dn_table m)) \<subseteq> ds_started d" 
    by (rule order_trans [OF members_AddMember]) (use a(2) tm(2) in simp)
  have ans: "set ?ans \<subseteq> ds_started d" "mb_NodeID ` set ?ans = insert c (keys_of m) - {c}"
    using register_answer_members [of ?a "dn_table m"] a tm register_answer_ids [OF tm(1), of ?a] by auto
  have s: "sound_node ?d i y" if iy: "ds_nodes ?d i = Some y" for i y
  proof -
    consider "i = c" | "i = ds_master d" | "i \<noteq> c" "i \<noteq> ds_master d" by blast
    then show ?thesis
    proof cases
      case 1
      then show ?thesis using iy F X ans(1) a by (auto simp: sound_node_def)
    next
      case 2
      then show ?thesis using iy F M am tm(1) by (auto simp: sound_node_def table_ok_AddMember)
    next
      case 3
      then obtain z where "ds_nodes d i = Some z" "y = z\<lparr>dn_inbox := dn_inbox z @ [AddMsg ?a]\<rparr>" using iy F(6) by auto
      then show ?thesis using dinvD(1) [OF I, of i z] a F(1-3) by (auto simp: sound_node_def)
    qed
  qed
  have sy: "synced_node ?d ?m y" if l: "ds_master d \<notin> ds_left d" and y: "k \<noteq> ds_master d" "ds_nodes ?d k = Some y" for k y
  proof (cases "k = c")
    case True
    then have y': "y = x\<lparr>dn_answer := Some ?ans, dn_inbox := dn_inbox x @ [AddMsg ?a]\<rparr>" using y(2) F(5) by simp
    have ids: "add_ids y = insert c (add_ids x)" "answer_ids y = insert c (keys_of m) - {c}" "keys_of y = keys_of x"
      unfolding y' using ans(2) a(1) by (auto simp: add_ids_def answer_ids_def)
    show ?thesis using dinvD(3) [OF I l Some cm x] cm a(1) by (auto simp: synced_node_def F(1,3) ids)
  next
    case False
    then obtain z where z: "ds_nodes d k = Some z" "y = z\<lparr>dn_inbox := dn_inbox z @ [AddMsg ?a]\<rparr>" using y F(6) by auto
    then show ?thesis using dinvD(3) [OF I l Some y(1) z(1)] a(1) cm by (auto simp: synced_node_def F(1,3))
  qed
  show ?thesis unfolding dinv_def F(1-4) using s sy dinvD(2) [OF I _ Some] by (auto simp: F(1,3))
qed

lemma synced_cong:
  assumes "keys_of m' - ds_left d = keys_of m - ds_left d"
  shows "synced_node d m' x \<longleftrightarrow> synced_node d m x"
proof -
  have "A - ds_left d \<subseteq> B \<longleftrightarrow> A - ds_left d \<subseteq> B - ds_left d" for A B by auto
  then show ?thesis unfolding synced_node_def using assms by metis
qed

text \<open>A step that changes one node only.\<close>

lemma node_dinv:
  assumes I: "dinv d" and x: "ds_nodes d i = Some x" and s: "sound_node d i x'"
    and master: "i = ds_master d \<Longrightarrow> ds_master d \<notin> ds_left d \<Longrightarrow>
      keys_of x' - ds_left d = keys_of x - ds_left d \<and> add_ids x' = {} \<and> dn_answer x' = None"
    and client: "\<And>m. i \<noteq> ds_master d \<Longrightarrow> ds_master d \<notin> ds_left d \<Longrightarrow> ds_nodes d (ds_master d) = Some m \<Longrightarrow>
      synced_node d m x \<Longrightarrow> synced_node d m x'"
    and alone: "i \<noteq> ds_master d \<Longrightarrow> keys_of x = {} \<Longrightarrow> add_ids x = {} \<Longrightarrow> dn_answer x = None \<Longrightarrow>
      keys_of x' = {} \<and> add_ids x' = {} \<and> dn_answer x' = None"
  shows "dinv (d\<lparr>ds_nodes := (ds_nodes d)(i \<mapsto> x')\<rparr>)"
proof -
  let ?d = "d\<lparr>ds_nodes := (ds_nodes d)(i \<mapsto> x')\<rparr>"
  have sn: "sound_node ?d = sound_node d" "synced_node ?d = synced_node d" by (simp_all add: sound_node_def synced_node_def fun_eq_iff)
  have "sound_node d j y" if "ds_nodes ?d j = Some y" for j y
    using that s dinvD(1) [OF I, of j y] by (cases "j = i") auto
  moreover have "ds_master d \<in> keys_of m \<and> add_ids m = {} \<and> dn_answer m = None \<and>
      (\<forall>c y. c \<noteq> ds_master d \<longrightarrow> ds_nodes ?d c = Some y \<longrightarrow> synced_node d m y)"
    if l: "ds_master d \<notin> ds_left d" and m: "ds_nodes ?d (ds_master d) = Some m" for m
  proof (cases "i = ds_master d")
    case True
    then have m': "m = x'" "ds_nodes d (ds_master d) = Some x" using m x by auto
    note K = master [OF True l]
    have "synced_node d x' y" if "c \<noteq> ds_master d" "ds_nodes d c = Some y" for c y
      using dinvD(3) [OF I l m'(2) that] K by (simp add: synced_cong [of x' d x])
    then show ?thesis using dinvD(2) [OF I l m'(2)] K l True m'(1) by auto
  next
    case False
    then have m': "ds_nodes d (ds_master d) = Some m" using m by simp
    have "synced_node d m y" if "c \<noteq> ds_master d" "ds_nodes ?d c = Some y" for c y
      using that dinvD(3) [OF I l m' _ x] dinvD(3) [OF I l m' that(1)] client [OF False l m'] False by (cases "c = i") auto
    then show ?thesis using dinvD(2) [OF I l m'] by blast
  qed
  moreover have "keys_of y = {} \<and> add_ids y = {} \<and> dn_answer y = None"
    if "ds_master d \<notin> ds_left d" "ds_nodes ?d (ds_master d) = None" "ds_nodes ?d c = Some y" for c y
  proof -
    have i: "i \<noteq> ds_master d" "ds_nodes d (ds_master d) = None" using that(2) by (auto split: if_splits)
    show ?thesis using that(3) dinvD(4) [OF I that(1) i(2)] alone [OF i(1)] x by (cases "c = i") auto
  qed
  ultimately show ?thesis unfolding dinv_def sn by simp
qed

lemma deliver_dinv:
  assumes I: "dinv d" and x: "ds_nodes d i = Some x" and q: "dn_inbox x = m # ms"
  shows "dinv (d\<lparr>ds_nodes := (ds_nodes d)(i \<mapsto> x\<lparr>dn_inbox := ms, dn_table := on_published (isMaster d i) i m (dn_table x)\<rparr>)\<rparr>)"
proof -
  let ?x = "x\<lparr>dn_inbox := ms, dn_table := on_published (isMaster d i) i m (dn_table x)\<rparr>"
  note X = dinvD(1) [OF I x]
  have sub: "set ms \<subseteq> set (dn_inbox x)" using q by auto
  show ?thesis
  proof (cases m)
    case (AddMsg a)
    let ?t = "dn_table ?x"
    have t: "?t = (if isMaster d i \<or> GetMember (mb_NodeID a) (dn_table x) \<noteq> None then dn_table x else AddMember a (dn_table x))"
      by (simp add: on_published_def AddMsg)
    have a: "a \<in> ds_started d" "add_ids x = insert (mb_NodeID a) (add_ids ?x)" "answer_ids ?x = answer_ids x"
      using X q by (auto simp: AddMsg sound_node_def add_ids_def)
    have k: "\<not> isMaster d i \<Longrightarrow> keys_of ?x = insert (mb_NodeID a) (keys_of x)"
    proof -
      have "GetMember (mb_NodeID a) (dn_table x) \<noteq> None \<Longrightarrow> mb_NodeID a \<in> keys_of x"
        by (auto simp: GetMember_def split: if_splits dest!: map_of_SomeD intro: rev_image_eqI)
      moreover assume "\<not> isMaster d i"
      then have "dn_table ?x = (if GetMember (mb_NodeID a) (dn_table x) \<noteq> None then dn_table x else AddMember a (dn_table x))" using t by simp
      ultimately show ?thesis by (simp add: insert_absorb del: dnode.select_convs)
    qed
    have "sound_node d i ?x"
      using X sub a(1) members_AddMember [of a "dn_table x"] by (auto simp: sound_node_def t table_ok_AddMember)
    then show ?thesis
    proof (rule node_dinv [OF I x])
      show "keys_of ?x - ds_left d = keys_of x - ds_left d \<and> add_ids ?x = {} \<and> dn_answer ?x = None"
        if "i = ds_master d" "ds_master d \<notin> ds_left d"
        using dinvD(2) [OF I that(2), of x] x that a(2) by simp
      show "synced_node d y ?x" if "i \<noteq> ds_master d" "synced_node d y x" for y
        using that k a by (auto simp: synced_node_def isMaster_def)
      show "keys_of ?x = {} \<and> add_ids ?x = {} \<and> dn_answer ?x = None" if "add_ids x = {}" using a(2) that by simp
    qed
  next
    case (UnregisterMsg j)
    have j: "j \<in> ds_left d" using X q by (auto simp: sound_node_def UnregisterMsg)
    have t: "keys_of ?x = (if j = i then keys_of x else keys_of x - {j})"
      "add_ids ?x = add_ids x" "answer_ids ?x = answer_ids x" "dn_answer ?x = dn_answer x"
      using q by (auto simp: on_published_def UnregisterMsg add_ids_def answer_ids_def)
    have "sound_node d i ?x"
      using X sub members_RemoveMember [of j "dn_table x"]
      by (auto simp: sound_node_def on_published_def UnregisterMsg table_ok_RemoveMember)
    then show ?thesis
    proof (rule node_dinv [OF I x])
      show "keys_of ?x - ds_left d = keys_of x - ds_left d \<and> add_ids ?x = {} \<and> dn_answer ?x = None"
        if "i = ds_master d" "ds_master d \<notin> ds_left d"
        using dinvD(2) [OF I that(2), of x] x that t j by auto
      show "synced_node d y ?x" if "ds_master d \<notin> ds_left d" "synced_node d y x" for y
        using that t j by (auto simp: synced_node_def)
      show "keys_of ?x = {} \<and> add_ids ?x = {} \<and> dn_answer ?x = None"
        if "keys_of x = {}" "add_ids x = {}" "dn_answer x = None" using t that by simp
    qed
  qed
qed

lemma answered_dinv:
  assumes I: "dinv d" and x: "ds_nodes d c = Some x" and q: "dn_answer x = Some ms"
  shows "dinv (register_answered c x d)" "dinv (d\<lparr>ds_nodes := (ds_nodes d)(c \<mapsto> x\<lparr>dn_answer := None\<rparr>)\<rparr>)"
proof -
  note X = dinvD(1) [OF I x]
  have ms: "set ms \<subseteq> ds_started d" "answer_ids x = mb_NodeID ` set ms" using X q by (auto simp: sound_node_def answer_ids_def)
  let ?x = "x\<lparr>dn_table := fold AddMember ms (dn_table x), dn_answer := None\<rparr>"
  have "sound_node d c ?x"
    using X ms(1) members_fold_AddMember [of ms "dn_table x"] by (auto simp: sound_node_def table_ok_fold)
  then have "dinv (d\<lparr>ds_nodes := (ds_nodes d)(c \<mapsto> ?x)\<rparr>)"
  proof (rule node_dinv [OF I x])
    show "keys_of ?x - ds_left d = keys_of x - ds_left d \<and> add_ids ?x = {} \<and> dn_answer ?x = None"
      if "c = ds_master d" "ds_master d \<notin> ds_left d" using dinvD(2) [OF I that(2), of x] x that q by simp
    show "synced_node d y ?x" if "synced_node d y x" for y using that ms(2) q by (auto simp: synced_node_def)
  qed (use q in simp)
  then show "dinv (register_answered c x d)" by (simp add: register_answered_def q)
  have "sound_node d c (x\<lparr>dn_answer := None\<rparr>)" using X by (auto simp: sound_node_def)
  then show "dinv (d\<lparr>ds_nodes := (ds_nodes d)(c \<mapsto> x\<lparr>dn_answer := None\<rparr>)\<rparr>)"
  proof (rule node_dinv [OF I x])
    show "synced_node d y (x\<lparr>dn_answer := None\<rparr>)" if "synced_node d y x" for y using that by (auto simp: synced_node_def)
  qed (use dinvD(2) [OF I, of x] x in auto)
qed

lemma leave_dinv:
  assumes I: "dinv d" and x: "ds_nodes d i = Some x"
  shows "dinv (nats_Stop i d)"
proof -
  let ?d = "nats_Stop i d"
  have f: "ds_master ?d = ds_master d" "ds_started ?d = ds_started d" "ds_left ?d = insert i (ds_left d)"
    by (simp_all add: nats_Stop_def Let_def)
  have nd: "ds_nodes ?d j = Some y \<longleftrightarrow> j \<noteq> i \<and> (\<exists>z. ds_nodes d j = Some z \<and> y = z\<lparr>dn_inbox := dn_inbox z @ [UnregisterMsg i]\<rparr>)" for j y
    by (auto simp: nats_Stop_def Let_def)
  have none: "ds_nodes ?d j = None \<longleftrightarrow> j = i \<or> ds_nodes d j = None" for j by (simp add: nats_Stop_def Let_def)
  have s: "sound_node ?d j y" if y: "ds_nodes ?d j = Some y" for j y
  proof -
    obtain z where "ds_nodes d j = Some z" "y = z\<lparr>dn_inbox := dn_inbox z @ [UnregisterMsg i]\<rparr>" using y nd by blast
    then show ?thesis using dinvD(1) [OF I, of j z] by (auto simp: sound_node_def f)
  qed
  have M: "ds_master d \<in> keys_of m \<and> add_ids m = {} \<and> dn_answer m = None \<and>
      (\<forall>c y. c \<noteq> ds_master d \<longrightarrow> ds_nodes ?d c = Some y \<longrightarrow> synced_node ?d m y)"
    if l: "ds_master d \<notin> insert i (ds_left d)" and m: "ds_nodes ?d (ds_master d) = Some m" for m
  proof -
    obtain m0 where m0: "ds_nodes d (ds_master d) = Some m0" "m = m0\<lparr>dn_inbox := dn_inbox m0 @ [UnregisterMsg i]\<rparr>" using m nd by blast
    have l': "ds_master d \<notin> ds_left d" using l by simp
    have "synced_node ?d m y" if y: "c \<noteq> ds_master d" "ds_nodes ?d c = Some y" for c y
    proof -
      obtain z where z: "ds_nodes d c = Some z" "y = z\<lparr>dn_inbox := dn_inbox z @ [UnregisterMsg i]\<rparr>" using y(2) nd by blast
      then show ?thesis using dinvD(3) [OF I l' m0(1) y(1) z(1)] m0(2) by (auto simp: synced_node_def f)
    qed
    then show ?thesis using dinvD(2) [OF I l' m0(1)] m0(2) by simp
  qed
  have A: "keys_of y = {} \<and> add_ids y = {} \<and> dn_answer y = None"
    if l: "ds_master d \<notin> insert i (ds_left d)" "ds_nodes ?d (ds_master d) = None" and y: "ds_nodes ?d c = Some y" for c y
  proof -
    obtain z where "ds_nodes d c = Some z" "y = z\<lparr>dn_inbox := dn_inbox z @ [UnregisterMsg i]\<rparr>" using nd [of c y] y by blast
    then show ?thesis using dinvD(4) [OF I, of c z] l none by auto
  qed
  show ?thesis unfolding dinv_def f using s M A by blast
qed

theorem reachable_dinv: "dreachable master d \<Longrightarrow> dinv d \<and> ds_master d = master"
proof (induction rule: dreachable.induct)
  case (init master)
  then show ?case by (simp add: dinv_def dinit_def)
next
  case (step master d d')
  then have I: "dinv d" and m: "ds_master d = master" by blast+
  from step.hyps(2) show ?case
  proof cases
    case (start m)
    then show ?thesis using start_dinv [OF I] \<open>ds_master d = master\<close> by (simp add: start_node_def Let_def)
  next
    case (checkMaster c x)
    then show ?thesis using register_dinv [OF I] \<open>ds_master d = master\<close>
      by (auto simp: registerToMaster_def on_register_def Let_def split: option.splits)
  next
    case (leave i x)
    then show ?thesis using leave_dinv [OF I] \<open>ds_master d = master\<close> by (auto simp: nats_Stop_def Let_def)
  next
    case (answered c x ms)
    then show ?thesis using answered_dinv(1) [OF I] \<open>ds_master d = master\<close> by (auto simp: register_answered_def)
  next
    case (request_failed c x ms)
    then show ?thesis using answered_dinv(2) [OF I] \<open>ds_master d = master\<close> by auto
  next
    case (deliver i x m ms)
    then show ?thesis using deliver_dinv [OF I] \<open>ds_master d = master\<close> by auto
  qed
qed

text \<open>
  Discovery invents nothing: in every run, every member in the table of a node stands under its own id and is
  a member some node was started with, and the type the table answers for the id is the type of that member.
\<close>

theorem discovery_sound:
  assumes "dreachable master d" "ds_nodes d i = Some x" "GetMember j (dn_table x) = Some m"
  shows "mb_NodeID m = j \<and> m \<in> ds_started d \<and> disc_GetType j (dn_table x) = Inr (mb_NodeType m)"
proof -
  have X: "sound_node d i x" using dinvD(1) [of d] reachable_dinv [OF assms(1)] assms(2) by blast
  have "map_of (memberMap (dn_table x)) j = Some m" using assms(3) by (simp add: GetMember_def split: if_splits)
  then have in_map: "(j, m) \<in> set (memberMap (dn_table x))" by (rule map_of_SomeD)
  then have "mb_NodeID m = j" using X by (auto simp: sound_node_def table_ok_def)
  moreover have "m \<in> members (dn_table x)" using in_map by (auto simp: members_def intro: rev_image_eqI)
  ultimately show ?thesis using X assms(3) by (auto simp: sound_node_def disc_GetType_def)
qed

lemma converged:
  assumes R: "dreachable master d" and l: "master \<notin> ds_left d" and m: "ds_nodes d master = Some m"
    and x: "c \<noteq> master" "ds_nodes d c = Some x" and k: "master \<in> keys_of x" and q: "dn_inbox x = []"
  shows "keys_of x - ds_left d = keys_of m - ds_left d"
proof -
  note I = reachable_dinv [OF R]
  have "synced_node d m x" using dinvD(3) [of d m c x] I l m x by auto
  moreover have "add_ids x = {}" using q by (simp add: add_ids_def)
  ultimately show ?thesis using k I unfolding synced_node_def by auto
qed


lemma drain_inbox:
  assumes "dreachable master d" "ds_nodes d c = Some x" "c \<noteq> master" "master \<in> keys_of x" "dn_answer x = None" "master \<notin> ds_left d"
  shows "\<exists>d' x'. dstep\<^sup>*\<^sup>* d d' \<and> dreachable master d' \<and> ds_nodes d' c = Some x' \<and> master \<in> keys_of x' \<and> dn_inbox x' = [] \<and>
    ds_left d' = ds_left d \<and> ds_nodes d' master = ds_nodes d master"
  using assms
proof (induction "length (dn_inbox x)" arbitrary: d x)
  case 0
  then show ?case by (intro exI [of _ d] exI [of _ x]) simp
next
  case (Suc n)
  then obtain m ms where q: "dn_inbox x = m # ms" by (cases "dn_inbox x") auto
  let ?x = "x\<lparr>dn_inbox := ms, dn_table := on_published (isMaster d c) c m (dn_table x)\<rparr>"
  let ?d = "d\<lparr>ds_nodes := (ds_nodes d)(c \<mapsto> ?x)\<rparr>"
  have s: "dstep d ?d" using deliver [OF Suc.prems(2) q] .
  have I: "dinv d" "ds_master d = master" using reachable_dinv [OF Suc.prems(1)] by blast+
  have "\<And>j. UnregisterMsg j \<in> set (dn_inbox x) \<Longrightarrow> j \<noteq> master"
    using dinvD(1) [OF I(1) Suc.prems(2)] Suc.prems(6) by (auto simp: sound_node_def)
  then have k: "master \<in> keys_of ?x" using Suc.prems(4) q by (cases m) (auto simp: on_published_def)
  have "\<exists>d' x'. dstep\<^sup>*\<^sup>* ?d d' \<and> dreachable master d' \<and> ds_nodes d' c = Some x' \<and> master \<in> keys_of x' \<and> dn_inbox x' = [] \<and>
      ds_left d' = ds_left ?d \<and> ds_nodes d' master = ds_nodes ?d master"
    using Suc.hyps(2) q Suc.prems
    by (intro Suc.hyps(1) [of ?x ?d] k dreachable.step [OF Suc.prems(1) s]) simp_all
  then obtain d' x' where "dstep\<^sup>*\<^sup>* ?d d'" "dreachable master d'" "ds_nodes d' c = Some x'" "master \<in> keys_of x'" "dn_inbox x' = []"
      "ds_left d' = ds_left d" "ds_nodes d' master = ds_nodes d master"
    using Suc.prems(3) by auto
  then show ?case using s by (meson converse_rtranclp_into_rtranclp)
qed


section \<open>Witnesses\<close>

definition demo_member :: "string \<Rightarrow> Member" where
  "demo_member i = \<lparr>mb_NodeID = i, mb_NodeType = ''game'', mb_Address = ''a'', mb_Settings = []\<rparr>"

definition demo_net :: dnet where
  "demo_net = start_node (demo_member ''c'') (start_node (demo_member ''m'') (dinit ''m''))"

definition demo_net1 :: dnet where
  "demo_net1 = (let d = registerToMaster ''c'' demo_net; d = register_answered ''c'' (the (ds_nodes d ''c'')) d; x = the (ds_nodes d ''c'')
     in d\<lparr>ds_nodes := (ds_nodes d)(''c'' \<mapsto> x\<lparr>dn_inbox := tl (dn_inbox x),
          dn_table := on_published (isMaster d ''c'') ''c'' (hd (dn_inbox x)) (dn_table x)\<rparr>)\<rparr>)"

lemma demo_net_reach: "dreachable ''m'' demo_net" "dreachable ''m'' demo_net1"
proof -
  have "dreachable ''m'' (start_node (demo_member ''m'') (dinit ''m''))"
    by (rule dreachable.step [OF dreachable.init dstep.start]) (simp_all add: dinit_def demo_member_def)
  then show d: "dreachable ''m'' demo_net" unfolding demo_net_def
    by (rule dreachable.step [OF _ dstep.start]) (simp_all add: dinit_def demo_member_def start_node_def Let_def)
  let ?d1 = "registerToMaster ''c'' demo_net"
  have s1: "dstep demo_net ?d1"
    by (rule dstep.checkMaster [of _ _ "the (ds_nodes demo_net ''c'')"])
      (simp_all add: demo_net_def start_node_def Let_def dinit_def demo_member_def isMaster_def GetMember_def)
  let ?x1 = "the (ds_nodes ?d1 ''c'')" and ?d2 = "register_answered ''c'' (the (ds_nodes ?d1 ''c'')) ?d1"
  have x1: "ds_nodes ?d1 ''c'' = Some ?x1" "dn_answer ?x1 = Some [demo_member ''m'']" "dn_inbox ?x1 = [AddMsg (demo_member ''c'')]"
    by (simp_all add: demo_net_def start_node_def Let_def dinit_def demo_member_def isMaster_def registerToMaster_def
        on_register_def AddMember_def PreInit_def new_discovery_def)
  have s2: "dstep ?d1 ?d2" by (rule dstep.answered [OF x1(1,2)])
  let ?x2 = "the (ds_nodes ?d2 ''c'')"
  have x2: "ds_nodes ?d2 ''c'' = Some ?x2" "dn_inbox ?x2 = hd (dn_inbox ?x2) # tl (dn_inbox ?x2)"
    using x1 by (simp_all add: register_answered_def)
  have "demo_net1 = ?d2\<lparr>ds_nodes := (ds_nodes ?d2)(''c'' \<mapsto> ?x2\<lparr>dn_inbox := tl (dn_inbox ?x2),
      dn_table := on_published (isMaster ?d2 ''c'') ''c'' (hd (dn_inbox ?x2)) (dn_table ?x2)\<rparr>)\<rparr>"
    unfolding demo_net1_def Let_def ..
  then show "dreachable ''m'' demo_net1"
    using dstep.deliver [OF x2] dreachable.step [OF dreachable.step [OF dreachable.step [OF d s1] s2]] by simp
qed

lemma member_table_witness:
  "GetMember ''a'' (AddMember (demo_member ''a'') new_discovery) = Some (demo_member ''a'') \<and>
   GetMember ''b'' (RemoveMember ''b'' new_discovery) = None"
proof -
  have "table_ok new_discovery" "mb_NodeID (demo_member ''a'') \<noteq> []" "\<forall>k. 0 < k \<longrightarrow> (0::nat) < k" by (simp_all add: demo_member_def)
  from member_table [OF this, of "''b''"] show ?thesis
    by (simp add: GetMember_def demo_member_def split: option.splits)
qed

lemma discovery_sound_witness:
  "disc_GetType ''m'' (dn_table (the (ds_nodes demo_net1 ''c''))) = Inr ''game'' \<and> demo_member ''m'' \<in> ds_started demo_net1"
proof -
  have "ds_nodes demo_net1 ''c'' = Some (the (ds_nodes demo_net1 ''c''))"
    "GetMember ''m'' (dn_table (the (ds_nodes demo_net1 ''c''))) = Some (demo_member ''m'')"
    by code_simp+
  from discovery_sound [OF demo_net_reach(2) this] show ?thesis by (simp add: demo_member_def)
qed



end
