(* ===== verification/Nats_Connect.thy ===== *)
theory Nats_Connect
  imports Go_Strconv
begin

text \<open>
  The connections of \<open>src/net/nats\<close> (\<open>connect.go\<close>, \<open>pool.go\<close>, \<open>msg_pool.go\<close>): the pool and its round robin, pooled
  messages, and requests that wait for a reply with their number. The network is outside: a message that
  was published may be answered at any time, several times, late or never. An error is its text.
\<close>

section \<open>Messages and the message pool\<close>

text \<open>Subject, reply subject, the header \<open>reqID\<close> (empty when it is absent) and the data.\<close>

record nats_msg =
  nm_Subject :: string
  nm_Reply :: string
  nm_ReqID :: string
  nm_Data :: "byte list"

definition new_nats_msg :: nats_msg where
  "new_nats_msg = \<lparr>nm_Subject = [], nm_Reply = [], nm_ReqID = [], nm_Data = []\<rparr>"

text \<open>\<open>GetMsg\<close> hands out a message that was released or a new one; \<open>ReleaseMsg\<close> clears the header and the data only.\<close>

definition GetMsg :: "nats_msg option \<Rightarrow> nats_msg" where
  "GetMsg pooled = (case pooled of None \<Rightarrow> new_nats_msg | Some m \<Rightarrow> m)"

definition ReleaseMsg :: "nats_msg \<Rightarrow> nats_msg" where
  "ReleaseMsg m = m\<lparr>nm_ReqID := [], nm_Data := []\<rparr>"

section \<open>Waiting requests\<close>

text \<open>
  The waiting requests of a connection: the number of the last request, the channel each number waits on, and the
  content of the channels, whose capacity is one.
\<close>

record 'm waiters =
  wt_seq :: u64
  wt_waiters :: "(string, nat) gomap"
  wt_chan :: "nat \<Rightarrow> 'm list"
  wt_next :: nat

definition no_waiters :: "'m waiters" where
  "no_waiters = \<lparr>wt_seq = 0, wt_waiters = [], wt_chan = (\<lambda>_. []), wt_next = 0\<rparr>"

definition wait_new :: "'m waiters \<Rightarrow> (string \<times> nat) \<times> 'm waiters" where
  "wait_new w =
     (let seq = wt_seq w + 1; reqID = fmt_nat 10 (unat seq); ch = wt_next w
      in ((reqID, ch), w\<lparr>wt_seq := seq, wt_waiters := AList.update reqID ch (wt_waiters w),
            wt_chan := (wt_chan w)(ch := []), wt_next := Suc ch\<rparr>))"

text \<open>\<open>LoadAndDelete\<close> and a send that does not block.\<close>

definition wait_reply :: "string \<Rightarrow> 'm \<Rightarrow> 'm waiters \<Rightarrow> 'm waiters" where
  "wait_reply reqID m w =
     (case map_of (wt_waiters w) reqID of
        None \<Rightarrow> w
      | Some ch \<Rightarrow> w\<lparr>wt_waiters := AList.delete reqID (wt_waiters w),
          wt_chan := (if length (wt_chan w ch) < 1 then (wt_chan w)(ch := wt_chan w ch @ [m]) else wt_chan w)\<rparr>)"

definition wait_delete :: "string \<Rightarrow> 'm waiters \<Rightarrow> 'm waiters" where
  "wait_delete reqID w = w\<lparr>wt_waiters := AList.delete reqID (wt_waiters w)\<rparr>"

definition wait_receive :: "nat \<Rightarrow> 'm waiters \<Rightarrow> ('m \<times> 'm waiters) option" where
  "wait_receive ch w = (case wt_chan w ch of [] \<Rightarrow> None | m # rest \<Rightarrow> Some (m, w\<lparr>wt_chan := (wt_chan w)(ch := rest)\<rparr>))"

text \<open>
  The invariant, for the calls that have not returned: their numbers and channels are their own; an unanswered call
  is in the table and its channel is empty, an answered one has left the table and its answer is in the channel; and
  the table has no other entries. \<open>addr\<close> reads the number a message is addressed to.
\<close>

definition call_ok :: "('m \<Rightarrow> string) \<Rightarrow> nat \<Rightarrow> 'm waiters \<Rightarrow> string \<Rightarrow> nat \<Rightarrow> bool" where
  "call_ok addr k w i ch \<longleftrightarrow> (\<exists>j. 1 \<le> j \<and> j \<le> k \<and> i = fmt_nat 10 j) \<and> ch < wt_next w \<and>
     (map_of (wt_waiters w) i = Some ch \<and> wt_chan w ch = [] \<or>
      map_of (wt_waiters w) i = None \<and> (\<exists>m. wt_chan w ch = [m] \<and> addr m = i))"

definition wait_inv :: "('m \<Rightarrow> string) \<Rightarrow> nat \<Rightarrow> (string \<times> nat) list \<Rightarrow> 'm waiters \<Rightarrow> bool" where
  "wait_inv addr k calls w \<longleftrightarrow>
     wt_seq w = of_nat k \<and> k < 2 ^ 64 \<and> distinct (map fst calls) \<and> distinct (map snd calls) \<and>
     (\<forall>i ch. (i, ch) \<in> set calls \<longrightarrow> call_ok addr k w i ch) \<and> mkeys (wt_waiters w) \<subseteq> mkeys calls"

lemma wait_invD:
  assumes "wait_inv addr k calls w"
  shows "wt_seq w = of_nat k" "k < 2 ^ 64" "(i, ch) \<in> set calls \<Longrightarrow> call_ok addr k w i ch" "mkeys (wt_waiters w) \<subseteq> mkeys calls"
    "(i, ch) \<in> set calls \<Longrightarrow> (i', ch') \<in> set calls \<Longrightarrow> i' = i \<longleftrightarrow> ch' = ch"
    "distinct (map fst calls)" "distinct (map snd calls)"
proof -
  note I = assms [unfolded wait_inv_def]
  show "wt_seq w = of_nat k" "k < 2 ^ 64" "mkeys (wt_waiters w) \<subseteq> mkeys calls"
    by (insert I, elim conjE, assumption)+
  show d: "distinct (map fst calls)" "distinct (map snd calls)" by (insert I, elim conjE, assumption)+
  have a: "\<forall>i ch. (i, ch) \<in> set calls \<longrightarrow> call_ok addr k w i ch" by (insert I, elim conjE, assumption)
  show "(i, ch) \<in> set calls \<Longrightarrow> call_ok addr k w i ch" using a by blast
  assume c: "(i, ch) \<in> set calls" "(i', ch') \<in> set calls"
  have inj: "inj_on fst (set calls)" "inj_on snd (set calls)" using d by (simp_all add: distinct_map)
  show "i' = i \<longleftrightarrow> ch' = ch"
  proof
    assume "i' = i"
    then show "ch' = ch" using inj_onD [OF inj(1) _ c(2,1)] by simp
  next
    assume "ch' = ch"
    then show "i' = i" using inj_onD [OF inj(2) _ c(2,1)] by simp
  qed
qed

lemma wait_invI:
  assumes "wt_seq w = of_nat k" "k < 2 ^ 64" "distinct (map fst calls)" "distinct (map snd calls)"
    "\<And>i ch. (i, ch) \<in> set calls \<Longrightarrow> call_ok addr k w i ch" "mkeys (wt_waiters w) \<subseteq> mkeys calls"
  shows "wait_inv addr k calls w"
proof -
  have a: "\<forall>i ch. (i, ch) \<in> set calls \<longrightarrow> call_ok addr k w i ch"
    using assms(5) by blast
  show ?thesis unfolding wait_inv_def
    by (rule conjI [OF assms(1) conjI [OF assms(2) conjI [OF assms(3) conjI [OF assms(4) conjI [OF a assms(6)]]]]])
qed

lemma fmt_nat_inj: "2 \<le> b \<Longrightarrow> b \<le> 36 \<Longrightarrow> fmt_nat b m = fmt_nat b n \<longleftrightarrow> m = n"
  by (metis option.inject parse_digits_fmt_nat)

lemma wait_new_inv:
  assumes I: "wait_inv addr k calls w" and k: "Suc k < 2 ^ 64" and n: "wait_new w = (c, w')"
  shows "wait_inv addr (Suc k) (c # calls) w'" "fst c = fmt_nat 10 (Suc k)" "fst c \<notin> mkeys calls"
    "map_of (wt_waiters w') (fst c) = Some (snd c)"
proof -
  have "wt_seq w + 1 = of_nat (Suc k)" using wait_invD(1) [OF I] by simp
  then have s: "unat (wt_seq w + 1) = Suc k" "wt_seq w + 1 = of_nat (Suc k)"
    using k by (simp_all add: unat_of_nat take_bit_nat_eq_self del: of_nat_Suc)
  have c: "c = (fmt_nat 10 (Suc k), wt_next w)" and w': "w' = w\<lparr>wt_seq := wt_seq w + 1,
      wt_waiters := AList.update (fmt_nat 10 (Suc k)) (wt_next w) (wt_waiters w),
      wt_chan := (wt_chan w)(wt_next w := []), wt_next := Suc (wt_next w)\<rparr>"
    using n s(1) by (auto simp: wait_new_def Let_def)
  show f: "fst c = fmt_nat 10 (Suc k)" using c by simp
  have ne: "i \<noteq> fmt_nat 10 (Suc k)" "ch \<noteq> wt_next w" if "(i, ch) \<in> set calls" for i ch
    using wait_invD(3) [OF I that] fmt_nat_inj [of 10] by (auto simp: call_ok_def simp del: fmt_nat.simps)
  then show new: "fst c \<notin> mkeys calls" using f by force
  show "map_of (wt_waiters w') (fst c) = Some (snd c)" using c w' by simp
  have old: "call_ok addr (Suc k) w' i ch" if "(i, ch) \<in> set calls" for i ch
    using wait_invD(3) [OF I that] ne [OF that] by (auto simp: call_ok_def w' intro: le_SucI)
  have new_ok: "call_ok addr (Suc k) w' (fst c) (snd c)"
    by (auto simp: call_ok_def c w' intro: exI [of _ "Suc k"])
  show "wait_inv addr (Suc k) (c # calls) w'"
  proof (rule wait_invI)
    show "wt_seq w' = of_nat (Suc k)" using s(2) w' by simp
    show "distinct (map fst (c # calls))" using new wait_invD(6) [OF I] by simp
    have "wt_next w \<notin> set (map snd calls)" using ne(2) by force
    then show "distinct (map snd (c # calls))" using wait_invD(7) [OF I] c by simp
    show "mkeys (wt_waiters w') \<subseteq> mkeys (c # calls)" using wait_invD(4) [OF I] by (auto simp: w' c)
    show "call_ok addr (Suc k) w' i ch" if "(i, ch) \<in> set (c # calls)" for i ch
      using that old new_ok by (cases "(i, ch) = c") auto
  qed (rule k)
qed

lemma wait_reply_inv:
  assumes I: "wait_inv addr k calls w" and a: "addr m = i"
  shows "wait_inv addr k calls (wait_reply i m w)"
proof (cases "map_of (wt_waiters w) i")
  case None
  then show ?thesis using I by (simp add: wait_reply_def)
next
  case (Some ch)
  then have "i \<in> mkeys (wt_waiters w)" by (force dest: map_of_SomeD)
  then obtain ch' where c: "(i, ch') \<in> set calls" using wait_invD(4) [OF I] by auto
  then have ch: "ch' = ch" "wt_chan w ch = []" using wait_invD(3) [OF I c] Some by (auto simp: call_ok_def)
  have w: "wait_reply i m w = w\<lparr>wt_waiters := AList.delete i (wt_waiters w), wt_chan := (wt_chan w)(ch := [m])\<rparr>"
    using Some ch by (simp add: wait_reply_def)
  have "call_ok addr k (wait_reply i m w) x y" if "(x, y) \<in> set calls" for x y
    using wait_invD(3) [OF I that] wait_invD(5) [OF I that c] a ch by (cases "x = i") (auto simp: call_ok_def w)
  moreover have "mkeys (wt_waiters (wait_reply i m w)) \<subseteq> mkeys calls" using wait_invD(4) [OF I] by (auto simp: w)
  moreover have "wt_seq (wait_reply i m w) = wt_seq w" by (simp add: w)
  ultimately show ?thesis using wait_invD(1,2,6,7) [OF I] by (intro wait_invI) simp_all
qed

lemma wait_end_inv:
  assumes I: "wait_inv addr k calls w" and c: "(i, ch) \<in> set calls"
  shows "wait_inv addr k (removeAll (i, ch) calls) (wait_delete i (w\<lparr>wt_chan := (wt_chan w)(ch := x)\<rparr>))" (is "wait_inv _ _ _ ?w")
proof -
  have "call_ok addr k ?w a b" if "(a, b) \<in> set (removeAll (i, ch) calls)" for a b
  proof -
    have ab: "(a, b) \<in> set calls" "(a, b) \<noteq> (i, ch)" using that by auto
    then have "a \<noteq> i" "b \<noteq> ch" using wait_invD(5) [OF I ab(1) c] by auto
    then show ?thesis using wait_invD(3) [OF I ab(1)] by (auto simp: call_ok_def wait_delete_def)
  qed
  moreover have "distinct (map fst (removeAll p calls))" "distinct (map snd (removeAll p calls))" for p
    using wait_invD(6,7) [OF I] by (simp_all add: removeAll_filter_not_eq distinct_map_filter)
  moreover have "mkeys (wt_waiters ?w) \<subseteq> mkeys (removeAll (i, ch) calls)"
  proof
    fix x assume "x \<in> mkeys (wt_waiters ?w)"
    then have x: "x \<noteq> i" "x \<in> mkeys (wt_waiters w)" by (simp_all add: wait_delete_def)
    then obtain y where "(x, y) \<in> set calls" using wait_invD(4) [OF I] by auto
    then have "(x, y) \<in> set (removeAll (i, ch) calls)" using x(1) by simp
    then show "x \<in> mkeys (removeAll (i, ch) calls)" by (rule image_eqI [of _ fst, rotated]) simp
  qed
  moreover have "wt_seq ?w = wt_seq w" by (simp add: wait_delete_def)
  ultimately show ?thesis using wait_invD(1,2) [OF I] by (intro wait_invI) simp_all
qed

lemma wait_inv_empty: "wait_inv addr k [] w \<Longrightarrow> wt_waiters w = []"
  by (auto simp: wait_inv_def)

lemma wt_chan_no_waiters: "wt_chan no_waiters ch = []"
  by (simp add: no_waiters_def)

lemma wait_inv_init: "wait_inv addr 0 [] no_waiters"
  by (simp add: wait_inv_def no_waiters_def)
section \<open>Connections\<close>

record Connect =
  co_id :: int
  co_reply :: string
  co_wait :: "nats_msg waiters"

definition NewConnect :: "int \<Rightarrow> string \<Rightarrow> Connect" where
  "NewConnect n replySubject = \<lparr>co_id = n, co_reply = replySubject @ ''.'' @ fmt_int 10 n, co_wait = no_waiters\<rparr>"

text \<open>The handler of the reply subject.\<close>

definition on_reply :: "nats_msg \<Rightarrow> Connect \<Rightarrow> Connect" where
  "on_reply msg c = (if nm_ReqID msg = [] then c else c\<lparr>co_wait := wait_reply (nm_ReqID msg) msg (co_wait c)\<rparr>)"

text \<open>
  \<open>RequestSync\<close>: the call registers its number and publishes a message (with what the pool handed out); then
  publishing fails, or a reply comes, or the timer fires.
\<close>

definition RequestSync_begin :: "string \<Rightarrow> byte list \<Rightarrow> nats_msg option \<Rightarrow> Connect \<Rightarrow> (string \<times> nat) \<times> nats_msg \<times> Connect" where
  "RequestSync_begin subject data pooled c =
     (let (call, w) = wait_new (co_wait c);
          msg = (GetMsg pooled)\<lparr>nm_Subject := subject, nm_Reply := co_reply c, nm_ReqID := fst call, nm_Data := data\<rparr>
      in (call, msg, c\<lparr>co_wait := w\<rparr>))"

definition RequestSync_fail :: "string \<Rightarrow> Connect \<Rightarrow> Connect" where
  "RequestSync_fail reqID c = c\<lparr>co_wait := wait_delete reqID (co_wait c)\<rparr>"

definition RequestSync_receive :: "nat \<Rightarrow> Connect \<Rightarrow> (byte list \<times> Connect) option" where
  "RequestSync_receive ch c =
     (case wait_receive ch (co_wait c) of None \<Rightarrow> None | Some (m, w) \<Rightarrow> Some (nm_Data m, c\<lparr>co_wait := w\<rparr>))"

definition ClusterRequestTimeout :: string where
  "ClusterRequestTimeout = ''Cluster Request timeout''"

definition RequestSync_timeout :: "string \<Rightarrow> Connect \<Rightarrow> string \<times> Connect" where
  "RequestSync_timeout reqID c = (ClusterRequestTimeout, c\<lparr>co_wait := wait_delete reqID (co_wait c)\<rparr>)"

section \<open>The pool\<close>

text \<open>The shared connections; the configuration values are arguments, the timeout in nanoseconds.\<close>

record Pool =
  pl_conns :: "Connect list"
  pl_round :: u64
  pl_requestTimeout :: int

definition IsReady :: "Pool \<Rightarrow> bool" where
  "IsReady p \<longleftrightarrow> length (pl_conns p) > 0"

definition NewPool :: "string \<Rightarrow> int \<Rightarrow> int \<Rightarrow> Pool \<Rightarrow> Pool" where
  "NewPool replySubject poolSize request_timeout p =
     (if IsReady p then p
      else p\<lparr>pl_requestTimeout := request_timeout * 1000000000,
             pl_conns := pl_conns p @ map (\<lambda>n. NewConnect n replySubject) [1..poolSize]\<rparr>)"

text \<open>\<open>GetConnect\<close> answers the index of a connection and panics when there is none.\<close>

definition GetConnect :: "Pool \<Rightarrow> (nat \<times> Pool) option" where
  "GetConnect p =
     (if \<not> IsReady p then None
      else let index = pl_round p + 1 in Some (unat (index mod of_nat (length (pl_conns p))), p\<lparr>pl_round := index\<rparr>))"

definition GetTimeout :: "Pool \<Rightarrow> int list \<Rightarrow> int" where
  "GetTimeout p tod = (case tod of [] \<Rightarrow> pl_requestTimeout p | t # _ \<Rightarrow> t)"

lemma GetConnect_in_pool:
  assumes "length (pl_conns p) < 2 ^ 64" "GetConnect p = Some (i, p')"
  shows "i < length (pl_conns p')"
proof -
  have p: "0 < length (pl_conns p)" "p' = p\<lparr>pl_round := pl_round p + 1\<rparr>"
    "i = unat ((pl_round p + 1) mod of_nat (length (pl_conns p)))"
    using assms(2) by (auto simp: GetConnect_def IsReady_def Let_def split: if_splits)
  have "i = unat (pl_round p + 1) mod length (pl_conns p)"
    unfolding p(3) unat_mod using assms(1) by (simp add: unat_of_nat take_bit_nat_eq_self)
  then show ?thesis using p(1,2) by simp
qed

section \<open>Correlation of replies\<close>

text \<open>
  A connection in use: the calls that have not returned, how many there were, what was sent, which replies arrived
  and what each call answered.
\<close>

record rpc =
  rp_conn :: Connect
  rp_calls :: "(string \<times> nat) list"
  rp_count :: nat
  rp_sent :: "nats_msg list"
  rp_arrived :: "nats_msg list"
  rp_results :: "(string \<times> (string + byte list)) list"

inductive rstep :: "rpc \<Rightarrow> rpc \<Rightarrow> bool" where
  call: "RequestSync_begin subject data pooled (rp_conn r) = (call, msg, c) \<Longrightarrow>
    rstep r (r\<lparr>rp_conn := c, rp_calls := call # rp_calls r, rp_count := Suc (rp_count r), rp_sent := rp_sent r @ [msg]\<rparr>)"
| reply: "rstep r (r\<lparr>rp_conn := on_reply msg (rp_conn r), rp_arrived := rp_arrived r @ [msg]\<rparr>)"
| receive: "(i, ch) \<in> set (rp_calls r) \<Longrightarrow> RequestSync_receive ch (rp_conn r) = Some (data, c) \<Longrightarrow>
    rstep r (r\<lparr>rp_conn := c, rp_calls := removeAll (i, ch) (rp_calls r), rp_results := rp_results r @ [(i, Inr data)]\<rparr>)"
| timeout: "(i, ch) \<in> set (rp_calls r) \<Longrightarrow> RequestSync_timeout i (rp_conn r) = (err, c) \<Longrightarrow>
    rstep r (r\<lparr>rp_conn := c, rp_calls := removeAll (i, ch) (rp_calls r), rp_results := rp_results r @ [(i, Inl err)]\<rparr>)"
| failed: "(i, ch) \<in> set (rp_calls r) \<Longrightarrow>
    rstep r (r\<lparr>rp_conn := RequestSync_fail i (rp_conn r), rp_calls := removeAll (i, ch) (rp_calls r),
      rp_results := rp_results r @ [(i, Inl err)]\<rparr>)"

definition rpc_new :: "int \<Rightarrow> string \<Rightarrow> rpc" where
  "rpc_new n subject = \<lparr>rp_conn = NewConnect n subject, rp_calls = [], rp_count = 0, rp_sent = [], rp_arrived = [], rp_results = []\<rparr>"

inductive rreach :: "rpc \<Rightarrow> bool" where
  new: "rreach (rpc_new n subject)"
| step: "rreach r \<Longrightarrow> rstep r r' \<Longrightarrow> rreach r'"

lemma rstep_count: "rstep r r' \<Longrightarrow> rp_count r \<le> rp_count r'"
  by (induction rule: rstep.induct) auto

text \<open>What the calls answered, and what waits in the channels, arrived with the number of the call.\<close>

definition result_ok :: "rpc \<Rightarrow> string \<Rightarrow> string + byte list \<Rightarrow> bool" where
  "result_ok r i x \<longleftrightarrow> (\<forall>ch. (i, ch) \<notin> set (rp_calls r)) \<and> (\<exists>j. j \<le> rp_count r \<and> i = fmt_nat 10 j) \<and>
     (\<forall>data. x = Inr data \<longrightarrow> (\<exists>m \<in> set (rp_arrived r). nm_ReqID m = i \<and> nm_Data m = data))"

definition rpc_inv :: "rpc \<Rightarrow> bool" where
  "rpc_inv r \<longleftrightarrow> wait_inv nm_ReqID (rp_count r) (rp_calls r) (co_wait (rp_conn r)) \<and> distinct (map fst (rp_results r)) \<and>
     (\<forall>i x. (i, x) \<in> set (rp_results r) \<longrightarrow> result_ok r i x) \<and>
     (\<forall>ch. set (wt_chan (co_wait (rp_conn r)) ch) \<subseteq> set (rp_arrived r))"

lemma rpc_invD:
  assumes "rpc_inv r"
  shows "wait_inv nm_ReqID (rp_count r) (rp_calls r) (co_wait (rp_conn r))" "distinct (map fst (rp_results r))"
    "(i, x) \<in> set (rp_results r) \<Longrightarrow> result_ok r i x" "set (wt_chan (co_wait (rp_conn r)) ch) \<subseteq> set (rp_arrived r)"
  using assms unfolding rpc_inv_def by blast+

lemma rpc_invI:
  assumes "wait_inv nm_ReqID (rp_count r) (rp_calls r) (co_wait (rp_conn r))" "distinct (map fst (rp_results r))"
    "\<And>i x. (i, x) \<in> set (rp_results r) \<Longrightarrow> result_ok r i x" "\<And>ch. set (wt_chan (co_wait (rp_conn r)) ch) \<subseteq> set (rp_arrived r)"
  shows "rpc_inv r"
proof -
  have "\<forall>i x. (i, x) \<in> set (rp_results r) \<longrightarrow> result_ok r i x" using assms(3) by blast
  then show ?thesis unfolding rpc_inv_def using assms(1,2,4) by simp
qed

lemma result_ok_mono:
  assumes r: "result_ok r i x" and c: "\<And>ch. (i, ch) \<in> set (rp_calls r') \<Longrightarrow> (i, ch) \<in> set (rp_calls r)"
    and m: "rp_count r \<le> rp_count r'" "set (rp_arrived r) \<subseteq> set (rp_arrived r')"
  shows "result_ok r' i x"
proof -
  obtain j where j: "j \<le> rp_count r" "i = fmt_nat 10 j" using r by (auto simp: result_ok_def)
  have "(i, ch) \<notin> set (rp_calls r')" for ch using r c [of ch] by (auto simp: result_ok_def)
  moreover have "\<exists>j. j \<le> rp_count r' \<and> i = fmt_nat 10 j" using j m(1) le_trans by blast
  moreover have "\<exists>m \<in> set (rp_arrived r'). nm_ReqID m = i \<and> nm_Data m = data" if "x = Inr data" for data
    using r that m(2) unfolding result_ok_def by blast
  ultimately show ?thesis unfolding result_ok_def by simp
qed

lemma rpc_end_inv:
  assumes I: "rpc_inv r" and c: "(i, ch) \<in> set (rp_calls r)"
    and x: "\<And>data. x = Inr data \<Longrightarrow> \<exists>m. m \<in> set (wt_chan (co_wait (rp_conn r)) ch) \<and> nm_Data m = data"
    and w: "co_wait c' = wait_delete i ((co_wait (rp_conn r))\<lparr>wt_chan := (wt_chan (co_wait (rp_conn r)))(ch := rest)\<rparr>)"
    and rest: "set rest \<subseteq> set (wt_chan (co_wait (rp_conn r)) ch)"
  shows "rpc_inv (r\<lparr>rp_conn := c', rp_calls := removeAll (i, ch) (rp_calls r), rp_results := rp_results r @ [(i, x)]\<rparr>)" (is "rpc_inv ?r")
proof (rule rpc_invI)
  let ?w = "co_wait (rp_conn r)"
  note W = rpc_invD(1) [OF I]
  have gone: "(i, b) \<notin> set (rp_calls ?r)" for b using wait_invD(5) [OF W c, of i b] by auto
  have "(i, y) \<notin> set (rp_results r)" for y using rpc_invD(3) [OF I, of i y] c by (auto simp: result_ok_def)
  then show "distinct (map fst (rp_results ?r))" using rpc_invD(2) [OF I] by auto
  have k: "call_ok nm_ReqID (rp_count r) ?w i ch" using wait_invD(3) [OF W c] .
  show "result_ok ?r i' x'" if "(i', x') \<in> set (rp_results ?r)" for i' x'
  proof (cases "(i', x') \<in> set (rp_results r)")
    case True
    then show ?thesis using result_ok_mono [OF rpc_invD(3) [OF I True], of ?r] by simp
  next
    case False
    then have e: "i' = i" "x' = x" using that by simp_all
    have "\<exists>m \<in> set (rp_arrived r). nm_ReqID m = i \<and> nm_Data m = d" if d: "x = Inr d" for d
    proof -
      obtain m where m: "m \<in> set (wt_chan ?w ch)" "nm_Data m = d" using x [OF d] by blast
      then have "nm_ReqID m = i" using k by (auto simp: call_ok_def)
      then show ?thesis using rpc_invD(4) [OF I, of ch] m by blast
    qed
    moreover have "\<exists>j. j \<le> rp_count r \<and> i = fmt_nat 10 j" using k by (auto simp: call_ok_def)
    ultimately show ?thesis using gone e by (simp add: result_ok_def)
  qed
  show "set (wt_chan (co_wait (rp_conn ?r)) ch') \<subseteq> set (rp_arrived ?r)" for ch'
    using rpc_invD(4) [OF I, of ch'] rpc_invD(4) [OF I, of ch] rest by (auto simp: w wait_delete_def)
  show "wait_inv nm_ReqID (rp_count ?r) (rp_calls ?r) (co_wait (rp_conn ?r))"
    using wait_end_inv [OF W c, of rest, folded w] by simp
qed

lemma rstep_inv: "rstep r r' \<Longrightarrow> rp_count r' < 2 ^ 64 \<Longrightarrow> rpc_inv r \<Longrightarrow> rpc_inv r'"
proof (induction rule: rstep.induct)
  case (call subject data pooled r call msg c)
  note I = call(3)
  obtain w where w: "wait_new (co_wait (rp_conn r)) = (call, w)" "co_wait c = w"
    using call(1) by (auto simp: RequestSync_begin_def split: prod.splits)
  have "Suc (rp_count r) < 2 ^ 64" using call(2) by simp
  note n = wait_new_inv [OF rpc_invD(1) [OF I] this w(1)]
  have "set (wt_chan w ch) \<subseteq> set (rp_arrived r)" for ch
    using w(1) rpc_invD(4) [OF I, of ch] by (auto simp: wait_new_def Let_def split: if_splits)
  moreover have "i \<noteq> fst call" if "(i, x) \<in> set (rp_results r)" for i x
    using rpc_invD(3) [OF I that] n(2) fmt_nat_inj [of 10] by (auto simp: result_ok_def)
  then have "result_ok r' i x"
    if "(i, x) \<in> set (rp_results r)" "rp_calls r' = call # rp_calls r" "rp_count r' = Suc (rp_count r)" "rp_arrived r' = rp_arrived r"
    for i x and r' :: rpc
    using result_ok_mono [OF rpc_invD(3) [OF I that(1)], of r'] that by (cases call) fastforce
  ultimately show ?case using n(1) w(2) rpc_invD(2) [OF I] by (intro rpc_invI) simp_all
next
  case (reply r msg)
  note I = reply(2)
  let ?w = "co_wait (rp_conn r)" and ?w' = "co_wait (on_reply msg (rp_conn r))"
  have "set (wt_chan (wait_reply (nm_ReqID msg) msg ?w) ch) \<subseteq> insert msg (set (rp_arrived r))" for ch
    using rpc_invD(4) [OF I, of ch] by (auto simp: wait_reply_def split: option.split)
  then have "set (wt_chan ?w' ch) \<subseteq> insert msg (set (rp_arrived r))" for ch
    using rpc_invD(4) [OF I, of ch] by (auto simp: on_reply_def)
  moreover have "wait_inv nm_ReqID (rp_count r) (rp_calls r) ?w'"
    using rpc_invD(1) [OF I] wait_reply_inv [OF rpc_invD(1) [OF I] refl] by (simp add: on_reply_def)
  moreover have "result_ok r' i x"
    if "(i, x) \<in> set (rp_results r)" "rp_calls r' = rp_calls r" "rp_count r' = rp_count r" "set (rp_arrived r') = insert msg (set (rp_arrived r))"
    for i x and r' :: rpc
    using result_ok_mono [OF rpc_invD(3) [OF I that(1)], of r'] that by auto
  ultimately show ?case using rpc_invD(2) [OF I] by (intro rpc_invI) simp_all
next
  case (receive i ch r data c)
  then obtain m rest where m: "wt_chan (co_wait (rp_conn r)) ch = m # rest" "nm_Data m = data"
    "c = (rp_conn r)\<lparr>co_wait := (co_wait (rp_conn r))\<lparr>wt_chan := (wt_chan (co_wait (rp_conn r)))(ch := rest)\<rparr>\<rparr>"
    by (auto simp: RequestSync_receive_def wait_receive_def split: list.splits)
  have W: "wait_inv nm_ReqID (rp_count r) (rp_calls r) (co_wait (rp_conn r))" using receive by (intro rpc_invD)
  have "map_of (wt_waiters (co_wait (rp_conn r))) i = None"
    using wait_invD(3) [OF W receive(1)] m(1) by (auto simp: call_ok_def)
  then have "AList.delete i (wt_waiters (co_wait (rp_conn r))) = wt_waiters (co_wait (rp_conn r))"
    by (simp add: map_of_None_keys AList.delete_idem)
  then have "co_wait c = wait_delete i ((co_wait (rp_conn r))\<lparr>wt_chan := (wt_chan (co_wait (rp_conn r)))(ch := rest)\<rparr>)"
    by (simp add: m(3) wait_delete_def)
  then show ?case using m receive by (intro rpc_end_inv) auto
next
  case (timeout i ch r err c)
  then have "co_wait c = wait_delete i ((co_wait (rp_conn r))\<lparr>wt_chan := (wt_chan (co_wait (rp_conn r)))(ch := wt_chan (co_wait (rp_conn r)) ch)\<rparr>)"
    by (auto simp: RequestSync_timeout_def wait_delete_def)
  then show ?case using timeout by (intro rpc_end_inv) auto
next
  case (failed i ch r err)
  have "co_wait (RequestSync_fail i (rp_conn r)) =
      wait_delete i ((co_wait (rp_conn r))\<lparr>wt_chan := (wt_chan (co_wait (rp_conn r)))(ch := wt_chan (co_wait (rp_conn r)) ch)\<rparr>)"
    by (simp add: RequestSync_fail_def wait_delete_def)
  then show ?case using failed by (intro rpc_end_inv) auto
qed

lemma rreach_inv: "rreach r \<Longrightarrow> rp_count r < 2 ^ 64 \<Longrightarrow> rpc_inv r"
proof (induction rule: rreach.induct)
  case (new n subject)
  show ?case by (rule rpc_invI) (simp_all add: rpc_new_def NewConnect_def wait_inv_init wt_chan_no_waiters)
next
  case (step r r')
  then show ?case using rstep_inv rstep_count by (meson le_less_trans)
qed

text \<open>
  C14. A reply reaches the call it answers. As long as a connection made fewer than two to the sixty-fourth requests,
  every call has a number of its own and answers once; what it answers with, if not an error, is the data of a message that arrived
  with its number; no entry of the table outlives its call; and a call still in the table answers with the first
  message that arrives with its number, whatever comes for others or later.
\<close>

theorem rpc_correlated:
  assumes "rreach r" "rp_count r < 2 ^ 64"
  shows "distinct (map fst (rp_results r) @ map fst (rp_calls r)) \<and>
    (\<forall>i data. (i, Inr data) \<in> set (rp_results r) \<longrightarrow> (\<exists>m \<in> set (rp_arrived r). nm_ReqID m = i \<and> nm_Data m = data)) \<and>
    mkeys (wt_waiters (co_wait (rp_conn r))) \<subseteq> mkeys (rp_calls r) \<and>
    (\<forall>i ch (m :: nats_msg). (i, ch) \<in> set (rp_calls r) \<and> i \<in> mkeys (wt_waiters (co_wait (rp_conn r))) \<and> nm_ReqID m = i \<longrightarrow>
       (\<exists>c. RequestSync_receive ch (fold on_reply later (on_reply m (rp_conn r))) = Some (nm_Data m, c)))"
proof (intro conjI allI impI)
  have I: "rpc_inv r" using assms by (rule rreach_inv)
  then have W: "wait_inv nm_ReqID (rp_count r) (rp_calls r) (co_wait (rp_conn r))" by (rule rpc_invD)
  have "(i, y) \<notin> set (rp_calls r)" if "(i, x) \<in> set (rp_results r)" for i x y
    using rpc_invD(3) [OF I that] by (simp add: result_ok_def)
  then show "distinct (map fst (rp_results r) @ map fst (rp_calls r))"
    using rpc_invD(2) [OF I] wait_invD(6) [OF W] by auto
  show "mkeys (wt_waiters (co_wait (rp_conn r))) \<subseteq> mkeys (rp_calls r)" using wait_invD(4) [OF W] .
  show "\<exists>m \<in> set (rp_arrived r). nm_ReqID m = i \<and> nm_Data m = data" if "(i, Inr data) \<in> set (rp_results r)" for i data
    using rpc_invD(3) [OF I that] by (simp add: result_ok_def)
  fix i ch and m :: nats_msg
  assume a: "(i, ch) \<in> set (rp_calls r) \<and> i \<in> mkeys (wt_waiters (co_wait (rp_conn r))) \<and> nm_ReqID m = i"
  have "call_ok nm_ReqID (rp_count r) (co_wait (rp_conn r)) i ch" using a wait_invD(3) [OF W] by blast
  then have t: "map_of (wt_waiters (co_wait (rp_conn r))) i = Some ch" "wt_chan (co_wait (rp_conn r)) ch = []" "i \<noteq> []"
    using a by (auto simp: call_ok_def map_of_None_keys)
  let ?c = "on_reply m (rp_conn r)"
  have "wait_inv nm_ReqID (rp_count r) (rp_calls r) (co_wait c) \<and> wt_chan (co_wait c) ch = [m] \<Longrightarrow>
      wt_chan (co_wait (fold on_reply later c)) ch = [m]" for c
  proof (induction later arbitrary: c)
    case (Cons x later)
    have "wait_inv nm_ReqID (rp_count r) (rp_calls r) (co_wait (on_reply x c))"
      using Cons.prems wait_reply_inv [of nm_ReqID "rp_count r" "rp_calls r" "co_wait c" x "nm_ReqID x"] by (simp add: on_reply_def)
    moreover have "wt_chan (co_wait (on_reply x c)) ch = [m]"
      using Cons.prems by (auto simp: on_reply_def wait_reply_def split: option.splits)
    ultimately show ?case using Cons.IH by simp
  qed simp
  moreover have "wait_inv nm_ReqID (rp_count r) (rp_calls r) (co_wait ?c)"
    using W wait_reply_inv [OF W refl] by (simp add: on_reply_def)
  moreover have "wt_chan (co_wait ?c) ch = [m]" using t a by (auto simp: on_reply_def wait_reply_def)
  ultimately have "wt_chan (co_wait (fold on_reply later ?c)) ch = [m]" by blast
  then show "\<exists>c. RequestSync_receive ch (fold on_reply later ?c) = Some (nm_Data m, c)"
    by (simp add: RequestSync_receive_def wait_receive_def)
qed

text \<open>One call, number 1, that waits.\<close>

definition demo_rpc :: rpc where
  "demo_rpc = (let (call, msg, c) = RequestSync_begin ''s'' [1] None (NewConnect 1 ''r'')
     in \<lparr>rp_conn = c, rp_calls = [call], rp_count = 1, rp_sent = [msg], rp_arrived = [], rp_results = []\<rparr>)"

lemma demo_rpc_reach: "rreach demo_rpc"
proof -
  obtain call msg c where b: "RequestSync_begin ''s'' [1] None (NewConnect 1 ''r'') = (call, msg, c)"
    using prod_cases3 by blast
  then have "RequestSync_begin ''s'' [1] None (rp_conn (rpc_new 1 ''r'')) = (call, msg, c)" by (simp add: rpc_new_def)
  from rreach.step [OF rreach.new rstep.call [OF this]] show ?thesis
    using b by (simp add: demo_rpc_def rpc_new_def)
qed

theorem rpc_correlated_witness:
  "rreach demo_rpc \<and> rp_count demo_rpc < 2 ^ 64 \<and>
   (let first = \<lparr>nm_Subject = ''r.1'', nm_Reply = [], nm_ReqID = ''1'', nm_Data = [7]\<rparr>;
        late = first\<lparr>nm_Data := [8]\<rparr>
    in \<exists>c. RequestSync_receive 0 (fold on_reply [late] (on_reply first (rp_conn demo_rpc))) = Some ([7], c))"
proof -
  let ?m = "\<lparr>nm_Subject = ''r.1'', nm_Reply = [], nm_ReqID = ''1'', nm_Data = [7]\<rparr>"
  have k: "rp_count demo_rpc < 2 ^ 64" by (simp add: demo_rpc_def split: prod.splits)
  have c: "rp_calls demo_rpc = [(''1'', 0)]" "map fst (wt_waiters (co_wait (rp_conn demo_rpc))) = [''1'']" by code_simp+
  then have "''1'' \<in> mkeys (wt_waiters (co_wait (rp_conn demo_rpc)))" by (metis list.set_intros(1) list.set_map)
  then have "(''1'', 0) \<in> set (rp_calls demo_rpc) \<and> ''1'' \<in> mkeys (wt_waiters (co_wait (rp_conn demo_rpc))) \<and> nm_ReqID ?m = ''1''"
    using c(1) by simp
  then have "\<exists>c. RequestSync_receive 0 (fold on_reply [?m\<lparr>nm_Data := [8]\<rparr>] (on_reply ?m (rp_conn demo_rpc))) = Some (nm_Data ?m, c)"
    using rpc_correlated [OF demo_rpc_reach k, of "[?m\<lparr>nm_Data := [8]\<rparr>]"] by blast
  then show ?thesis using k demo_rpc_reach by (simp add: Let_def)
qed

end
