(* ===== verification/Cluster_Nats.thy ===== *)
theory Cluster_Nats
  imports Actor_Props Discovery Nats_Connect
begin

text \<open>
  The NATS cluster of \<open>src/net/cluster/nats_cluster\<close>: messages between nodes, the validation of a message, the
  context a node rebuilds for it, the worker pool that handles accepted messages and the reply; and what a call
  from one node to another answers. The protobuf encoding of a message is a parameter. An error is its text.
\<close>

section \<open>Messages on the wire\<close>

text \<open>
  The protobuf encoder, whose error is a text. An encoded message decodes to the same fields, a nil and an empty map
  being the same.
\<close>

record cluster_wire =
  cw_Marshal :: "ClusterMessage \<Rightarrow> string + byte list"
  cw_Unmarshal :: "byte list \<Rightarrow> string + ClusterMessage"

definition nil_if_empty :: "('k, 'v) gomap option \<Rightarrow> ('k, 'v) gomap option" where
  "nil_if_empty m = (if m = Some [] then None else m)"

definition wire_norm :: "ClusterMessage \<Rightarrow> ClusterMessage" where
  "wire_norm m = m\<lparr>cm_Metadata := nil_if_empty (cm_Metadata m),
     cm_Session := map_option (\<lambda>x. x\<lparr>Data := nil_if_empty (Data x)\<rparr>) (cm_Session m)\<rparr>"

definition wire_ok :: "cluster_wire \<Rightarrow> bool" where
  "wire_ok w \<longleftrightarrow> (\<forall>m b. cw_Marshal w m = Inr b \<longrightarrow> cw_Unmarshal w b = Inr (wire_norm m))"

text \<open>\<open>GetRemoteSubject\<close>, \<open>GetReplySubject\<close>.\<close>

definition GetRemoteSubject :: "string \<Rightarrow> string \<Rightarrow> string \<Rightarrow> string" where
  "GetRemoteSubject prefix nodeType nodeID = ''actorgo-'' @ prefix @ ''.remote.'' @ nodeType @ ''.'' @ nodeID"

definition GetReplySubject :: "string \<Rightarrow> string \<Rightarrow> string \<Rightarrow> string" where
  "GetReplySubject prefix nodeType nodeID = ''actorgo-'' @ prefix @ ''.reply.'' @ nodeType @ ''.'' @ nodeID"

text \<open>The verb q of a format, for a text without characters to escape.\<close>

definition quoted :: "string \<Rightarrow> string" where
  "quoted x = CHR 0x22 # x @ [CHR 0x22]"

definition nodeSubject :: "string \<Rightarrow> DiscoveryDefault \<Rightarrow> string \<Rightarrow> string + string" where
  "nodeSubject prefix disc nodeID =
     (if nodeID = [] then Inl ''actorgo cluster: node id is required''
      else case disc_GetType nodeID disc of
        Inl err \<Rightarrow> Inl (''actorgo cluster: node '' @ quoted nodeID @ '' not found: '' @ err)
      | Inr nodeType \<Rightarrow> Inr (GetRemoteSubject prefix nodeType nodeID))"

fun msg_type_name :: "MsgType \<Rightarrow> string" where
  "msg_type_name REQUEST = ''REQUEST''"
| "msg_type_name RESPONSE = ''RESPONSE''"
| "msg_type_name NOTIFY = ''NOTIFY''"
| "msg_type_name (MsgTypeOther n) = fmt_int 10 n"

definition validateMessage :: "ClusterMessage option \<Rightarrow> string option" where
  "validateMessage message =
     (case message of
        None \<Rightarrow> Some ''actorgo cluster: message is nil''
      | Some m \<Rightarrow>
          if cm_MessageId m = 0 \<or> cm_MethodId m = 0 then Some ''actorgo cluster: message id and method id are required''
          else if cm_TargetPath m \<noteq> [] \<and> (case ToActorPath (cm_TargetPath m) of Inl _ \<Rightarrow> True | Inr _ \<Rightarrow> False)
          then Some ''actorgo cluster: invalid actor target''
          else if cm_MsgType m \<noteq> REQUEST \<and> cm_MsgType m \<noteq> NOTIFY
          then Some (''actorgo cluster: invalid outbound message type '' @ msg_type_name (cm_MsgType m))
          else if cm_Codec m \<noteq> CodecJSON \<and> cm_Codec m \<noteq> CodecProtobuf
          then Some (''actorgo cluster: unsupported codec '' @ fmt_int 10 (cm_Codec m))
          else None)"

text \<open>The context of a received message. The deadline on the wire counts milliseconds.\<close>

definition messageContext :: "int \<Rightarrow> ClusterMessage \<Rightarrow> RequestContext" where
  "messageContext now m =
     (let base = (if cm_DeadlineUnixMs m > 0 then WithDeadline now Background (cm_DeadlineUnixMs m * 1000000) else Background)
      in (NewRequestContext (Some base))
           \<lparr>RequestID := cm_RequestId m, Transport := TransportCluster, Codec := cm_Codec m, Metadata := cm_Metadata m,
            rc_Session := map_option (\<lambda>x. \<lparr>Sid = Sid x, Uid = Uid x, Ip = Ip x, Data = Data x\<rparr>) (cm_Session m)\<rparr>)"

section \<open>Sending\<close>

text \<open>\<open>rpc\<close> is \<open>RequestSync\<close> of the connection: it answers the data of the reply or an error.\<close>

definition cluster_Request ::
  "cluster_wire \<Rightarrow> string \<Rightarrow> DiscoveryDefault \<Rightarrow> (string \<Rightarrow> byte list \<Rightarrow> int \<Rightarrow> string + byte list) \<Rightarrow>
   string \<Rightarrow> ClusterMessage \<Rightarrow> int \<Rightarrow> string + ClusterMessage" where
  "cluster_Request w prefix disc rpc nodeID message timeout =
     (case nodeSubject prefix disc nodeID of
        Inl err \<Rightarrow> Inl err
      | Inr subject \<Rightarrow>
          (case validateMessage (Some message) of
             Some err \<Rightarrow> Inl err
           | None \<Rightarrow>
               (case cw_Marshal w message of
                  Inl err \<Rightarrow> Inl (''actorgo cluster: marshal message: '' @ err)
                | Inr data \<Rightarrow>
                    (case rpc subject data timeout of
                       Inl err \<Rightarrow> Inl (''actorgo cluster: request: '' @ err)
                     | Inr responseData \<Rightarrow>
                         (case cw_Unmarshal w responseData of
                            Inl err \<Rightarrow> Inl (''actorgo cluster: unmarshal response: '' @ err)
                          | Inr response \<Rightarrow>
                              if cm_MsgType response \<noteq> RESPONSE \<or> cm_MessageId response \<noteq> cm_MessageId message
                              then Inl ''actorgo cluster: response correlation mismatch''
                              else Inr response)))))"

text \<open>\<open>pub\<close> is \<open>Publish\<close> of the connection, which answers an error or nothing.\<close>

definition publishMessage ::
  "cluster_wire \<Rightarrow> (string \<Rightarrow> byte list \<Rightarrow> string option) \<Rightarrow> string \<Rightarrow> ClusterMessage \<Rightarrow> string option" where
  "publishMessage w pub subject message =
     (case validateMessage (Some message) of
        Some err \<Rightarrow> Some err
      | None \<Rightarrow>
          (case cw_Marshal w message of
             Inl err \<Rightarrow> Some (''actorgo cluster: marshal message: '' @ err)
           | Inr data \<Rightarrow>
               (case pub subject data of Some err \<Rightarrow> Some (''actorgo cluster: publish: '' @ err) | None \<Rightarrow> None)))"

definition cluster_Publish ::
  "cluster_wire \<Rightarrow> string \<Rightarrow> DiscoveryDefault \<Rightarrow> (string \<Rightarrow> byte list \<Rightarrow> string option) \<Rightarrow> string \<Rightarrow> ClusterMessage \<Rightarrow>
   string option" where
  "cluster_Publish w prefix disc pub nodeID message =
     (case nodeSubject prefix disc nodeID of
        Inl err \<Rightarrow> Some err
      | Inr subject \<Rightarrow> publishMessage w pub subject message)"

section \<open>Receiving\<close>

text \<open>
  \<open>reply\<close>: the response published for a request, if any. The codecs belong to the application; \<open>pooled\<close> is what the
  message pool has to hand out.
\<close>

definition reply ::
  "cluster_wire \<Rightarrow> 'v App option \<Rightarrow> nats_msg option \<Rightarrow> nats_msg \<Rightarrow> ClusterMessage \<Rightarrow> RequestContext option \<Rightarrow> 'v InvokeResult \<Rightarrow> nats_msg option" where
  "reply w app pooled message request ctx result =
     (if cm_MsgType request = NOTIFY \<or> nm_Reply message = [] then None
      else
        (let (result, payload) =
           (case (ctx, app) of
              (Some c, Some app) \<Rightarrow>
                if OK (Some result) \<and> Payload result \<noteq> PNil then
                  (case reg_Marshal (app_BodyCodecs app) (Codec c) (Payload result) of
                     Inl _ \<Rightarrow> (ErrorResult STATUS_INTERNAL ''response body encode failed'', [])
                   | Inr body \<Rightarrow> (result, body))
                else (result, [])
            | _ \<Rightarrow> (result, []));
           response = \<lparr>cm_MessageId = cm_MessageId request, cm_MsgType = RESPONSE, cm_RequestId = cm_RequestId request,
              cm_MethodId = cm_MethodId request, cm_DeadlineUnixMs = 0, cm_TargetPath = [], cm_Session = None,
              cm_Metadata = None, cm_Codec = cm_Codec request, cm_Payload = payload, cm_Code = Code result,
              cm_Message = Message result\<rparr>
         in case cw_Marshal w response of
              Inl _ \<Rightarrow> None
            | Inr data \<Rightarrow> Some ((GetMsg pooled)\<lparr>nm_Subject := nm_Reply message, nm_ReqID := nm_ReqID message, nm_Data := data\<rparr>)))"

definition rejectOverload :: "cluster_wire \<Rightarrow> 'v App option \<Rightarrow> nats_msg option \<Rightarrow> nats_msg \<Rightarrow> nats_msg option" where
  "rejectOverload w app pooled message =
     (if nm_Reply message = [] then None
      else case cw_Unmarshal w (nm_Data message) of
        Inl _ \<Rightarrow> None
      | Inr m \<Rightarrow>
          if cm_MsgType m \<noteq> REQUEST then None
          else reply w app pooled message m None (ErrorResult STATUS_RESOURCE_EXHAUSTED ''cluster work queue is full''))"

text \<open>\<open>Dispatch\<close> of the method table of the application.\<close>

definition sys_Dispatch :: "RequestContext \<Rightarrow> u32 \<Rightarrow> byte list \<Rightarrow> MsgType \<Rightarrow> ('v, 'h) System \<Rightarrow> 'v call \<times> ('v, 'h) System" where
  "sys_Dispatch ctx methodID body msgType s =
     (case sys_app s of
        None \<Rightarrow> (CallPanic NilDeref, s)
      | Some app \<Rightarrow>
          (case app_Methods app of
             None \<Rightarrow> (Returned (ErrorResult STATUS_UNAVAILABLE ''method table is not configured''), s)
           | Some t \<Rightarrow> Dispatch (\<lambda>c. NotifyTarget (Some c)) (\<lambda>c. InvokeTarget (Some c)) (reg_Default (app_BodyCodecs app))
                (Some t) (Some ctx) methodID body msgType s))"

text \<open>
  \<open>process\<close> up to the answer of the actor system: a message that is not a valid request or notification is dropped.
  What is left to do is the reply.
\<close>

definition process_begin ::
  "cluster_wire \<Rightarrow> nats_msg \<Rightarrow> ('v, 'h) System \<Rightarrow> (ClusterMessage \<times> RequestContext \<times> 'v call) option \<times> ('v, 'h) System" where
  "process_begin w message s =
     (case cw_Unmarshal w (nm_Data message) of
        Inl _ \<Rightarrow> (None, s)
      | Inr m \<Rightarrow>
          if validateMessage (Some m) \<noteq> None then (None, s)
          else if cm_MsgType m = RESPONSE then (None, s)
          else
            (let ctx = messageContext (sys_now s) m;
                 (call, s) =
                   (if cm_TargetPath m \<noteq> [] then
                      (if cm_MsgType m = NOTIFY
                       then NotifyTarget (Some ctx) (cm_TargetPath m) (cm_MethodId m) (PBytes (cm_Payload m)) s
                       else InvokeTarget (Some ctx) (cm_TargetPath m) (cm_MethodId m) (PBytes (cm_Payload m)) s)
                    else sys_Dispatch ctx (cm_MethodId m) (cm_Payload m) (cm_MsgType m) s)
             in (Some (m, ctx, call), s)))"

text \<open>What a call can answer at this moment; a call that panicked answers nothing.\<close>

definition call_outcomes :: "'v call \<Rightarrow> ('v, 'h) System \<Rightarrow> 'v InvokeResult set" where
  "call_outcomes call s =
     (case call of Returned r \<Rightarrow> {r} | Await ch ctx \<Rightarrow> await_outcomes ch ctx s | CallPanic _ \<Rightarrow> {})"

section \<open>The worker pool\<close>

text \<open>
  A worker waits for work or the stop, handles a message (the flag tells whether it was already draining), drains
  what was accepted, or has returned.
\<close>

datatype 'v worker =
    Waiting
  | Draining
  | Handling bool nats_msg ClusterMessage RequestContext "'v call"
  | Exited

record ('v, 'h) node =
  nd_sys :: "('v, 'h) System"
  nd_work :: "nats_msg list"
  nd_queueSize :: nat
  nd_workers :: "'v worker list"
  nd_stopping :: bool
  nd_stopped :: bool
  nd_closed :: bool
  nd_out :: "nats_msg list"
  nd_accepted :: "nats_msg list"
  nd_handled :: "nats_msg list"

definition publish_reply :: "nats_msg option \<Rightarrow> ('v, 'h) node \<Rightarrow> ('v, 'h) node" where
  "publish_reply r n = (case r of None \<Rightarrow> n | Some m \<Rightarrow> n\<lparr>nd_out := nd_out n @ [m]\<rparr>)"

text \<open>\<open>Init\<close>: the queue and the workers; sizes that are not positive panic.\<close>

definition cluster_Init :: "int \<Rightarrow> int \<Rightarrow> ('v, 'h) System \<Rightarrow> ('v, 'h) node option" where
  "cluster_Init workerCount queueSize s =
     (if workerCount \<le> 0 \<or> queueSize \<le> 0 then None
      else Some \<lparr>nd_sys = s, nd_work = [], nd_queueSize = nat queueSize, nd_workers = replicate (nat workerCount) Waiting,
        nd_stopping = False, nd_stopped = False, nd_closed = False, nd_out = [], nd_accepted = [], nd_handled = []\<rparr>)"

definition cluster_enqueue :: "cluster_wire \<Rightarrow> nats_msg option \<Rightarrow> nats_msg \<Rightarrow> ('v, 'h) node \<Rightarrow> ('v, 'h) node" where
  "cluster_enqueue w pooled message n =
     (if nd_stopping n then n
      else if length (nd_work n) < nd_queueSize n
      then n\<lparr>nd_work := nd_work n @ [message], nd_accepted := nd_accepted n @ [message]\<rparr>
      else publish_reply (rejectOverload w (sys_app (nd_sys n)) pooled message) n)"

text \<open>A worker takes the first message; a dropped one is done with at once.\<close>

definition worker_take :: "cluster_wire \<Rightarrow> nat \<Rightarrow> bool \<Rightarrow> nats_msg \<Rightarrow> nats_msg list \<Rightarrow> ('v, 'h) node \<Rightarrow> ('v, 'h) node" where
  "worker_take w i draining message rest n =
     (let n = n\<lparr>nd_work := rest\<rparr> in
      case process_begin w message (nd_sys n) of
        (None, s) \<Rightarrow> n\<lparr>nd_sys := s, nd_handled := nd_handled n @ [message]\<rparr>
      | (Some (m, ctx, call), s) \<Rightarrow>
          n\<lparr>nd_sys := s, nd_workers := (nd_workers n)[i := Handling draining message m ctx call]\<rparr>)"

definition worker_finish ::
  "cluster_wire \<Rightarrow> nats_msg option \<Rightarrow> nat \<Rightarrow> bool \<Rightarrow> nats_msg \<Rightarrow> ClusterMessage \<Rightarrow> RequestContext \<Rightarrow> 'v InvokeResult \<Rightarrow> ('v, 'h) node \<Rightarrow>
   ('v, 'h) node" where
  "worker_finish w pooled i draining message m ctx result n =
     publish_reply (reply w (sys_app (nd_sys n)) pooled message m (Some ctx) result)
       (n\<lparr>nd_workers := (nd_workers n)[i := if draining then Draining else Waiting], nd_handled := nd_handled n @ [message]\<rparr>)"

text \<open>
  The steps: a message arrives on the subscription; a worker takes a message, finishes one, sees the stop, drains or
  returns; \<open>Stop\<close> first refuses new work, then closes the channel, and closes the connection once every worker has
  returned; the rest of the node does something or the clock moves.
\<close>

inductive nstep :: "cluster_wire \<Rightarrow> ('v, 'h) node \<Rightarrow> ('v, 'h) node \<Rightarrow> bool" where
  arrive: "nstep w n (cluster_enqueue w pooled message n)"
| take: "i < length (nd_workers n) \<Longrightarrow> nd_workers n ! i \<in> {Waiting, Draining} \<Longrightarrow> nd_work n = message # rest \<Longrightarrow>
    nstep w n (worker_take w i (nd_workers n ! i = Draining) message rest n)"
| finish: "i < length (nd_workers n) \<Longrightarrow> nd_workers n ! i = Handling b message m ctx call \<Longrightarrow>
    result \<in> call_outcomes call (nd_sys n) \<Longrightarrow> nstep w n (worker_finish w pooled i b message m ctx result n)"
| see_stop: "i < length (nd_workers n) \<Longrightarrow> nd_workers n ! i = Waiting \<Longrightarrow> nd_stopped n \<Longrightarrow>
    nstep w n (n\<lparr>nd_workers := (nd_workers n)[i := Draining]\<rparr>)"
| drained: "i < length (nd_workers n) \<Longrightarrow> nd_workers n ! i = Draining \<Longrightarrow> nd_work n = [] \<Longrightarrow>
    nstep w n (n\<lparr>nd_workers := (nd_workers n)[i := Exited]\<rparr>)"
| refuse: "nstep w n (n\<lparr>nd_stopping := True\<rparr>)"
| close_stop: "nd_stopping n \<Longrightarrow> nstep w n (n\<lparr>nd_stopped := True\<rparr>)"
| close_conn: "nd_stopped n \<Longrightarrow> set (nd_workers n) \<subseteq> {Exited} \<Longrightarrow> nstep w n (n\<lparr>nd_closed := True\<rparr>)"
| elsewhere: "nstep w n (n\<lparr>nd_sys := s\<rparr>)"

inductive nreach :: "cluster_wire \<Rightarrow> ('v, 'h) node \<Rightarrow> bool" where
  init: "cluster_Init workerCount queueSize s = Some n \<Longrightarrow> nreach w n"
| step: "nreach w n \<Longrightarrow> nstep w n n' \<Longrightarrow> nreach w n'"

section \<open>Calls of a worker\<close>

lemma NotifyChild_no_Await: "fst (NotifyChild a ctx c mid p s) \<noteq> Await ch ic"
proof
  assume "fst (NotifyChild a ctx c mid p s) = Await ch ic"
  then obtain x e where x: "sys_heap s a = Some x" "ensureRequestContext (sys_app s) ctx = Inr e"
    "fst (NotifyChild a ctx c mid p s) = Await ch ic" "mid \<noteq> 0" "c \<noteq> []"
    using ensure_no_await [of "sys_app s" ctx ch ic]
    by (auto simp: NotifyChild_def split: if_splits option.splits sum.splits)
  obtain i where i: "newNotifyContext s (Some e) = Inr i"
    using x no_await(2) [of s "Some e" ch ic] by (auto simp: NotifyChild_def split: sum.splits)
  then show False using x by (simp add: NotifyChild_def Let_def split_beta split: sum.splits option.splits prod.splits)
qed

lemma notifyRemote_no_Await: "fst (notifyRemote ctx t n m p s) \<noteq> Await ch ic"
  using no_await(2) [of s "Some ctx" ch ic]
  by (auto simp: notifyRemote_def Let_def split_beta split: option.splits sum.splits)

lemma NotifyTarget_no_Await:
  fixes s :: "('v, 'h) System"
  shows "fst (NotifyTarget ctx t mid p s) \<noteq> Await ch ic"
proof
  assume a: "fst (NotifyTarget ctx t mid p s) = Await ch ic"
  obtain tp where tp: "(prepareTyped t mid :: 'v InvokeResult + ActorPath) = Inr tp"
    using a by (cases "prepareTyped t mid :: 'v InvokeResult + ActorPath") (auto simp: NotifyTarget_def)
  moreover obtain c where "ensureRequestContext (sys_app s) ctx = Inr c"
    using a tp ensure_no_await [of "sys_app s" ctx ch ic]
    by (cases "ensureRequestContext (sys_app s) ctx") (auto simp: NotifyTarget_def)
  ultimately have t: "(prepareTyped t mid :: 'v InvokeResult + ActorPath) = Inr tp" "ensureRequestContext (sys_app s) ctx = Inr c" by blast+
  show False
  proof (cases "NodeID tp \<noteq> [] \<and> NodeID tp \<noteq> sys_NodeID s")
    case True
    then show False using a t notifyRemote_no_Await [of c t "NodeID tp" mid p s ch ic] by (simp add: NotifyTarget_def)
  next
    case False
    show False
    proof (cases "IsChild (Some tp)")
      case True
      then show False
        using a t False NotifyChild_no_Await [of _ "Some c" "ChildID tp" mid p s ch ic]
        by (auto simp: NotifyTarget_def split: option.splits)
    next
      case nc: False
      then obtain i where "newNotifyContext s (Some c) = Inr i"
        using a t False no_await(2) [of s "Some c" ch ic] by (auto simp: NotifyTarget_def split: sum.splits)
      then show False using a t False nc by (simp add: NotifyTarget_def Let_def split_beta split: prod.splits bool.splits)
    qed
  qed
qed

lemma InvokeTarget_deadline:
  "InvokeTarget ctx t mid p s = (Await ch ic, s') \<Longrightarrow> \<exists>d. rc_Deadline ic = Some d"
  using InvokeTarget_Await newInvokeContext_deadline by blast

lemma sys_Dispatch_deadline:
  assumes "sys_Dispatch ctx mid b ty s = (Await ch ic, s')"
  shows "\<exists>d. rc_Deadline ic = Some d"
proof -
  obtain c t p where "InvokeTarget (Some c) t mid p s = (Await ch ic, s') \<or> NotifyTarget (Some c) t mid p s = (Await ch ic, s')"
    using assms by (auto simp: sys_Dispatch_def Dispatch_def Let_def split: option.splits if_splits ctx_error.splits)
  then show ?thesis using InvokeTarget_deadline NotifyTarget_no_Await by (metis fst_conv)
qed

lemma process_begin_deadline:
  assumes "process_begin w msg s = (Some (m, ctx, Await ch ic), s')"
  shows "\<exists>d. rc_Deadline ic = Some d"
proof -
  obtain c t p ty b where "InvokeTarget (Some c) t (cm_MethodId m) p s = (Await ch ic, s') \<or>
      NotifyTarget (Some c) t (cm_MethodId m) p s = (Await ch ic, s') \<or> sys_Dispatch c (cm_MethodId m) b ty s = (Await ch ic, s')"
    using assms by (auto simp: process_begin_def Let_def split_beta split: sum.splits if_splits) (metis prod.collapse)+
  then show ?thesis using InvokeTarget_deadline NotifyTarget_no_Await sys_Dispatch_deadline by (metis fst_conv)
qed

section \<open>Invariant of the pool\<close>

fun in_progress :: "'v worker \<Rightarrow> nats_msg list" where
  "in_progress (Handling _ m _ _ _) = [m]"
| "in_progress _ = []"

fun drains :: "'v worker \<Rightarrow> bool" where
  "drains Draining = True"
| "drains (Handling b _ _ _ _) = b"
| "drains Exited = True"
| "drains Waiting = False"

fun timed :: "'v worker \<Rightarrow> bool" where
  "timed (Handling _ _ _ _ (Await _ ic)) = (rc_Deadline ic \<noteq> None)"
| "timed _ = True"

definition progress :: "('v, 'h) node \<Rightarrow> nats_msg multiset" where
  "progress n = mset (concat (map in_progress (nd_workers n)))"

definition pool_inv :: "('v, 'h) node \<Rightarrow> bool" where
  "pool_inv n \<longleftrightarrow> length (nd_work n) \<le> nd_queueSize n \<and> nd_workers n \<noteq> [] \<and>
     mset (nd_accepted n) = mset (nd_handled n) + mset (nd_work n) + progress n \<and>
     (nd_stopped n \<longrightarrow> nd_stopping n) \<and> (nd_closed n \<longrightarrow> set (nd_workers n) \<subseteq> {Exited}) \<and>
     (\<forall>x \<in> set (nd_workers n). timed x \<and> (drains x \<longrightarrow> nd_stopped n) \<and> (x = Exited \<longrightarrow> nd_work n = []))"

lemma pool_worker:
  assumes "pool_inv n" "i < length (nd_workers n)"
  shows "timed (nd_workers n ! i)" "drains (nd_workers n ! i) \<Longrightarrow> nd_stopped n" "nd_workers n ! i = Exited \<Longrightarrow> nd_work n = []"
    "nd_closed n \<Longrightarrow> nd_workers n ! i = Exited"
  using assms nth_mem [OF assms(2)] unfolding pool_inv_def by blast+

lemma progress_update:
  assumes "i < length (nd_workers n)"
  shows "progress (n\<lparr>nd_workers := (nd_workers n)[i := x]\<rparr>) + mset (in_progress (nd_workers n ! i)) = progress n + mset (in_progress x)"
proof -
  have c: "mset (concat (map in_progress ys)) = sum_list (map (\<lambda>y. mset (in_progress y)) ys)" for ys :: "'a worker list"
    by (induction ys) auto
  have "nd_workers n = take i (nd_workers n) @ nd_workers n ! i # drop (Suc i) (nd_workers n)" using assms by (rule id_take_nth_drop)
  then have "progress n = sum_list (map (\<lambda>y. mset (in_progress y)) (take i (nd_workers n))) + mset (in_progress (nd_workers n ! i)) +
      sum_list (map (\<lambda>y. mset (in_progress y)) (drop (Suc i) (nd_workers n)))"
    unfolding progress_def c by (metis (no_types, lifting) add.assoc list.simps(9) map_append sum_list.Cons sum_list.append)
  then show ?thesis using assms by (simp add: progress_def c upd_conv_take_nth_drop ac_simps)
qed

lemma progress_same [simp]:
  "progress (n\<lparr>nd_sys := s\<rparr>) = progress n" "progress (n\<lparr>nd_work := q\<rparr>) = progress n" "progress (n\<lparr>nd_handled := h\<rparr>) = progress n"
  "progress (n\<lparr>nd_accepted := h\<rparr>) = progress n" "progress (n\<lparr>nd_stopping := b\<rparr>) = progress n" "progress (n\<lparr>nd_stopped := b\<rparr>) = progress n"
  "progress (n\<lparr>nd_closed := b\<rparr>) = progress n" "progress (n\<lparr>nd_out := h\<rparr>) = progress n"
  by (simp_all add: progress_def)

lemma publish_reply_simps [simp]:
  "nd_work (publish_reply r n) = nd_work n" "nd_workers (publish_reply r n) = nd_workers n" "nd_queueSize (publish_reply r n) = nd_queueSize n"
  "nd_sys (publish_reply r n) = nd_sys n" "nd_stopping (publish_reply r n) = nd_stopping n" "nd_stopped (publish_reply r n) = nd_stopped n"
  "nd_closed (publish_reply r n) = nd_closed n" "nd_accepted (publish_reply r n) = nd_accepted n" "nd_handled (publish_reply r n) = nd_handled n"
  "progress (publish_reply r n) = progress n"
  by (simp_all add: publish_reply_def progress_def split: option.split)

lemma pool_inv_publish [simp]: "pool_inv (publish_reply r n) \<longleftrightarrow> pool_inv n"
  by (simp add: pool_inv_def)

lemma cluster_enqueue_inv: "pool_inv n \<Longrightarrow> pool_inv (cluster_enqueue w pooled m n)"
  by (auto simp: cluster_enqueue_def pool_inv_def)

lemma take_inv:
  assumes I: "pool_inv n" and i: "i < length (nd_workers n)" "nd_workers n ! i \<in> {Waiting, Draining}" and q: "nd_work n = m # rest"
  shows "pool_inv (worker_take w i (nd_workers n ! i = Draining) m rest n)"
proof -
  have no_exit: "Exited \<notin> set (nd_workers n)" using I q by (auto simp: pool_inv_def)
  have ip: "in_progress (nd_workers n ! i) = []" using i(2) by auto
  have st: "nd_workers n ! i = Draining \<longrightarrow> nd_stopped n" "\<not> nd_closed n" using pool_worker [OF I i(1)] i(2) by auto
  obtain r s where pb: "process_begin w m (nd_sys n) = (r, s)" by force
  show ?thesis
  proof (cases r)
    case None
    then show ?thesis using I q pb no_exit by (auto simp: worker_take_def pool_inv_def)
  next
    case (Some t)
    obtain cm ctx call where t: "t = (cm, ctx, call)" by (cases t)
    let ?h = "Handling (nd_workers n ! i = Draining) m cm ctx call"
    have "timed ?h" using process_begin_deadline [of w m "nd_sys n" cm ctx] pb Some t by (cases call) auto
    moreover have "progress (n\<lparr>nd_workers := (nd_workers n)[i := ?h]\<rparr>) = add_mset m (progress n)"
      using progress_update [OF i(1), of ?h] ip by simp
    then have "progress (n\<lparr>nd_work := rest, nd_sys := s, nd_workers := (nd_workers n)[i := ?h]\<rparr>) = add_mset m (progress n)"
      by (simp add: progress_def)
    ultimately show ?thesis
      using I q pb Some t no_exit st set_update_subset_insert [of "nd_workers n" i ?h]
      by (auto simp: worker_take_def pool_inv_def)
  qed
qed

lemma finish_inv:
  assumes I: "pool_inv n" and i: "i < length (nd_workers n)" "nd_workers n ! i = Handling b m cm ctx call"
  shows "pool_inv (worker_finish w pooled i b m cm ctx result n)"
proof -
  let ?x = "if b then Draining else Waiting"
  have st: "b \<longrightarrow> nd_stopped n" "\<not> nd_closed n" using pool_worker [OF I i(1)] i(2) by auto
  have "add_mset m (progress (n\<lparr>nd_workers := (nd_workers n)[i := ?x]\<rparr>)) = progress n"
    using progress_update [OF i(1), of ?x] i(2) by simp
  then have "add_mset m (progress (n\<lparr>nd_workers := (nd_workers n)[i := ?x], nd_handled := h\<rparr>)) = progress n" for h
    by (simp add: progress_def)
  then show ?thesis
    using I st set_update_subset_insert [of "nd_workers n" i ?x]
    by (auto simp: worker_finish_def pool_inv_def)
qed

lemma worker_inv:
  assumes I: "pool_inv n" and i: "i < length (nd_workers n)" "in_progress (nd_workers n ! i) = []"
    and x: "in_progress x = []" "timed x" "drains x \<longrightarrow> nd_stopped n" "x = Exited \<longrightarrow> nd_work n = []" and c: "nd_closed n \<longrightarrow> x = Exited"
  shows "pool_inv (n\<lparr>nd_workers := (nd_workers n)[i := x]\<rparr>)"
  using I i x c progress_update [OF i(1), of x] set_update_subset_insert [of "nd_workers n" i x]
  by (auto simp: pool_inv_def)

lemma nstep_inv: "nstep w n n' \<Longrightarrow> pool_inv n \<Longrightarrow> pool_inv n'"
proof (induction rule: nstep.induct)
  case (arrive w n pooled message)
  then show ?case by (rule cluster_enqueue_inv)
next
  case (take i n message rest w)
  then show ?case by (intro take_inv)
next
  case (finish i n b message m ctx call result w pooled)
  then show ?case by (intro finish_inv)
next
  case (see_stop i n w)
  then show ?case using pool_worker [OF see_stop(4,1)] by (intro worker_inv) auto
next
  case (drained i n w)
  then show ?case using pool_worker [OF drained(4,1)] by (intro worker_inv) auto
qed (auto simp: pool_inv_def)

lemma nreach_inv: "nreach w n \<Longrightarrow> pool_inv n"
proof (induction rule: nreach.induct)
  case (init workerCount queueSize s n w)
  then show ?case by (auto simp: cluster_Init_def pool_inv_def progress_def split: if_splits)
qed (rule nstep_inv)

section \<open>Stopping\<close>

lemma closed_all_handled:
  assumes I: "pool_inv n" and c: "nd_closed n"
  shows "mset (nd_accepted n) = mset (nd_handled n)"
proof -
  have e: "set (nd_workers n) \<subseteq> {Exited}" "nd_workers n \<noteq> []" using I c by (simp_all add: pool_inv_def)
  then have "\<forall>x \<in> set (nd_workers n). in_progress x = []" by auto
  then have "progress n = {#}" by (simp add: progress_def)
  moreover have "hd (nd_workers n) = Exited" using e hd_in_set by blast
  then have "nd_work n = []" using I e hd_in_set [OF e(2)] by (auto simp: pool_inv_def)
  ultimately show ?thesis using I by (simp add: pool_inv_def)
qed

text \<open>
  C23. Nothing that was accepted is lost. At every moment each accepted message was handled, is in the hands of one
  worker or waits in the queue, which never exceeds its size; once the connection is closed every accepted message
  was handled, as often as it was accepted; and after \<open>Stop\<close> began nothing is accepted any more.
\<close>

theorem cluster_conserves:
  assumes "nreach w n"
  shows "mset (nd_accepted n) = mset (nd_handled n) + mset (nd_work n) + progress n \<and>
    length (nd_work n) \<le> nd_queueSize n \<and> (nd_closed n \<longrightarrow> mset (nd_accepted n) = mset (nd_handled n)) \<and>
    (nd_stopping n \<longrightarrow> nstep w n n' \<longrightarrow> nd_accepted n' = nd_accepted n)"
proof -
  note I = nreach_inv [OF assms]
  have i: "mset (nd_accepted n) = mset (nd_handled n) + mset (nd_work n) + progress n" "length (nd_work n) \<le> nd_queueSize n"
    using I by (simp_all add: pool_inv_def)
  have "nd_closed n \<longrightarrow> mset (nd_accepted n) = mset (nd_handled n)" using closed_all_handled [OF I] by blast
  moreover have "nd_accepted n' = nd_accepted n" if "nd_stopping n" "nstep w n n'"
    using that(2,1) by (cases rule: nstep.cases)
      (auto simp: cluster_enqueue_def worker_take_def worker_finish_def Let_def split: prod.splits option.splits)
  ultimately show ?thesis using i by blast
qed

fun weight :: "'v worker \<Rightarrow> nat" where
  "weight Exited = 0"
| "weight Draining = 1"
| "weight Waiting = 2"
| "weight (Handling b _ _ _ _) = (if b then 2 else 3)"

definition left_to_do :: "('v, 'h) node \<Rightarrow> nat" where
  "left_to_do n = 2 * length (nd_work n) + sum_list (map weight (nd_workers n))"

text \<open>The steps of the workers.\<close>

definition wstep :: "cluster_wire \<Rightarrow> ('v, 'h) node \<Rightarrow> ('v, 'h) node \<Rightarrow> bool" where
  "wstep w n n' \<longleftrightarrow>
     (\<exists>i m rest. i < length (nd_workers n) \<and> nd_workers n ! i \<in> {Waiting, Draining} \<and> nd_work n = m # rest \<and>
        n' = worker_take w i (nd_workers n ! i = Draining) m rest n) \<or>
     (\<exists>i b m cm ctx call result pooled. i < length (nd_workers n) \<and> nd_workers n ! i = Handling b m cm ctx call \<and>
        result \<in> call_outcomes call (nd_sys n) \<and> n' = worker_finish w pooled i b m cm ctx result n) \<or>
     (\<exists>i. i < length (nd_workers n) \<and> nd_workers n ! i = Waiting \<and> nd_stopped n \<and> n' = n\<lparr>nd_workers := (nd_workers n)[i := Draining]\<rparr>) \<or>
     (\<exists>i. i < length (nd_workers n) \<and> nd_workers n ! i = Draining \<and> nd_work n = [] \<and> n' = n\<lparr>nd_workers := (nd_workers n)[i := Exited]\<rparr>)"

lemma wstep_nstep: "wstep w n n' \<Longrightarrow> nstep w n n'"
  unfolding wstep_def by (elim disjE exE conjE; hypsubst; rule nstep.intros; assumption)

lemma sum_weight_update:
  assumes "i < length ws"
  shows "sum_list (map weight (ws[i := x])) + weight (ws ! i) = sum_list (map weight ws) + weight x"
  using sum_list_update [of i "map weight ws" "weight x"] assms elem_le_sum_list [of i "map weight ws"]
  by (simp add: map_update)

lemma left_to_do_simps [simp]:
  "left_to_do (publish_reply r n) = left_to_do n" "left_to_do (n\<lparr>nd_sys := s\<rparr>) = left_to_do n"
  "left_to_do (n\<lparr>nd_handled := h\<rparr>) = left_to_do n" "left_to_do (n\<lparr>nd_stopping := c\<rparr>) = left_to_do n"
  "left_to_do (n\<lparr>nd_stopped := c\<rparr>) = left_to_do n" "left_to_do (n\<lparr>nd_closed := c\<rparr>) = left_to_do n"
  by (simp_all add: left_to_do_def)

lemma left_update:
  "i < length (nd_workers n) \<Longrightarrow>
     left_to_do (n\<lparr>nd_workers := (nd_workers n)[i := x]\<rparr>) + weight (nd_workers n ! i) = left_to_do n + weight x"
  using sum_weight_update [of i "nd_workers n" x] by (simp add: left_to_do_def)

lemma take_decreases:
  assumes i: "i < length (nd_workers n)" "nd_workers n ! i \<in> {Waiting, Draining}" and q: "nd_work n = m # rest"
  shows "left_to_do (worker_take w i (nd_workers n ! i = Draining) m rest n) < left_to_do n"
proof -
  let ?n = "n\<lparr>nd_work := rest\<rparr>"
  have l: "left_to_do ?n + 2 = left_to_do n" using q by (simp add: left_to_do_def)
  obtain r s where pb: "process_begin w m (nd_sys n) = (r, s)" by force
  show ?thesis
  proof (cases r)
    case None
    then show ?thesis using l pb by (simp add: worker_take_def)
  next
    case (Some t)
    obtain cm ctx call where t: "t = (cm, ctx, call)" by (cases t)
    let ?h = "Handling (nd_workers n ! i = Draining) m cm ctx call"
    have "left_to_do (?n\<lparr>nd_sys := s, nd_workers := (nd_workers n)[i := ?h]\<rparr>) + weight (nd_workers n ! i) = left_to_do ?n + weight ?h"
      using left_update [of i "?n\<lparr>nd_sys := s\<rparr>" ?h] i(1) by simp
    then show ?thesis using l pb Some t i(2) by (auto simp: worker_take_def)
  qed
qed

lemma finish_decreases:
  assumes "i < length (nd_workers n)" "nd_workers n ! i = Handling b m cm ctx call"
  shows "left_to_do (worker_finish w pooled i b m cm ctx result n) < left_to_do n"
  using left_update [OF assms(1), of "if b then Draining else Waiting"] assms(2)
  by (auto simp: worker_finish_def left_to_do_def)

lemma wstep_decreases: "wstep w n n' \<Longrightarrow> left_to_do n' < left_to_do n"
  unfolding wstep_def
proof (elim disjE exE conjE)
  fix i m rest
  assume "i < length (nd_workers n)" "nd_workers n ! i \<in> {Waiting, Draining}" "nd_work n = m # rest"
    "n' = worker_take w i (nd_workers n ! i = Draining) m rest n"
  then show ?thesis using take_decreases by blast
next
  fix i b m cm ctx call result pooled
  assume "i < length (nd_workers n)" "nd_workers n ! i = Handling b m cm ctx call"
    "n' = worker_finish w pooled i b m cm ctx result n"
  then show ?thesis using finish_decreases by blast
next
  fix i
  assume "i < length (nd_workers n)" "nd_workers n ! i = Waiting" "n' = n\<lparr>nd_workers := (nd_workers n)[i := Draining]\<rparr>"
  then show ?thesis using left_update [of i n Draining] by simp
next
  fix i
  assume "i < length (nd_workers n)" "nd_workers n ! i = Draining" "n' = n\<lparr>nd_workers := (nd_workers n)[i := Exited]\<rparr>"
  then show ?thesis using left_update [of i n Exited] by simp
qed

lemma nstep_wstep:
  assumes "nstep w n n'" "nd_stopping n"
  shows "wstep w n n' \<or> left_to_do n' = left_to_do n"
  using assms
proof (cases rule: nstep.cases)
  case (arrive pooled message)
  then show ?thesis using assms(2) by (simp add: cluster_enqueue_def)
next
  case (take i message rest)
  then show ?thesis unfolding wstep_def by blast
next
  case (finish i b message m ctx call result pooled)
  then show ?thesis unfolding wstep_def by blast
next
  case (see_stop i)
  then show ?thesis unfolding wstep_def by blast
next
  case (drained i)
  then show ?thesis unfolding wstep_def by blast
qed simp_all

text \<open>
  C30. \<open>Stop\<close> ends. After the stop channel is closed every step of a worker brings the pool closer to its end and no
  other step takes it further away, so the workers take boundedly many more steps; and when no worker can
  step, each has returned or holds a call without an outcome, which for a waiting call ends at its deadline.
\<close>

theorem cluster_stop_ends:
  assumes "nreach w n" "nd_stopped n"
  shows "(wstep w n n' \<longrightarrow> left_to_do n' < left_to_do n) \<and> (nstep w n n' \<longrightarrow> left_to_do n' \<le> left_to_do n) \<and>
    ((\<forall>n'. \<not> wstep w n n') \<longrightarrow> list_all (\<lambda>x. case x of
       Exited \<Rightarrow> True
     | Handling _ _ _ _ call \<Rightarrow> call_outcomes call (nd_sys n) = {} \<and>
         (case call of Await _ ic \<Rightarrow> (\<exists>d. rc_Deadline ic = Some d \<and> sys_now (nd_sys n) < d) | CallPanic _ \<Rightarrow> True | _ \<Rightarrow> False)
     | _ \<Rightarrow> False) (nd_workers n))"
proof (intro conjI impI)
  note I = nreach_inv [OF assms(1)]
  show "left_to_do n' < left_to_do n" if "wstep w n n'"
    using that by (rule wstep_decreases)
  have "nd_stopping n" using I assms(2) by (simp add: pool_inv_def)
  then show "left_to_do n' \<le> left_to_do n" if "nstep w n n'"
    using nstep_wstep [OF that] wstep_decreases by fastforce
  assume stuck: "\<forall>n'. \<not> wstep w n n'"
  show "list_all (\<lambda>x. case x of
       Exited \<Rightarrow> True
     | Handling _ _ _ _ call \<Rightarrow> call_outcomes call (nd_sys n) = {} \<and>
         (case call of Await _ ic \<Rightarrow> (\<exists>d. rc_Deadline ic = Some d \<and> sys_now (nd_sys n) < d) | CallPanic _ \<Rightarrow> True | _ \<Rightarrow> False)
     | _ \<Rightarrow> False) (nd_workers n)"
    unfolding list_all_length
  proof (intro allI impI)
    fix i
    assume i: "i < length (nd_workers n)"
    note W = pool_worker [OF I i]
    have s: "\<not> wstep w n n'" for n' using stuck by blast
    show "case nd_workers n ! i of
       Exited \<Rightarrow> True
     | Handling _ _ _ _ call \<Rightarrow> call_outcomes call (nd_sys n) = {} \<and>
         (case call of Await _ ic \<Rightarrow> (\<exists>d. rc_Deadline ic = Some d \<and> sys_now (nd_sys n) < d) | CallPanic _ \<Rightarrow> True | _ \<Rightarrow> False)
     | _ \<Rightarrow> False"
    proof (cases "nd_workers n ! i")
      case Waiting
      then show ?thesis using s [of "n\<lparr>nd_workers := (nd_workers n)[i := Draining]\<rparr>"] i assms(2) by (auto simp: wstep_def)
    next
      case Draining
      show ?thesis
      proof (cases "nd_work n")
        case Nil
        then show ?thesis using s [of "n\<lparr>nd_workers := (nd_workers n)[i := Exited]\<rparr>"] i Draining by (auto simp: wstep_def)
      next
        case (Cons m rest)
        then show ?thesis using s [of "worker_take w i True m rest n"] i Draining unfolding wstep_def by force
      qed
    next
      case (Handling b m cm ctx call)
      have e: "call_outcomes call (nd_sys n) = {}"
      proof (rule ccontr)
        assume "call_outcomes call (nd_sys n) \<noteq> {}"
        then obtain r where "r \<in> call_outcomes call (nd_sys n)" by blast
        then have "wstep w n (worker_finish w pooled i b m cm ctx r n)" unfolding wstep_def using i Handling by blast
        then show False using s by blast
      qed
      moreover have "\<exists>d. rc_Deadline ic = Some d \<and> sys_now (nd_sys n) < d" if c: "call = Await ch ic" for ch ic
      proof -
        obtain d where d: "rc_Deadline ic = Some d" using W(1) Handling c by auto
        then show ?thesis using e c by (auto simp: call_outcomes_def await_outcomes_def ctx_Err_def split: option.splits if_splits)
      qed
      ultimately show ?thesis using Handling by (cases call) (auto simp: call_outcomes_def)
    qed simp
  qed
qed

section \<open>A call from node to node\<close>

lemma ensure_twice:
  "ensureRequestContext app c = Inr e \<Longrightarrow> ensureRequestContext app (Some e) = Inr e"
  by (auto simp: ensureRequestContext_def Let_def NewRequestContext_def split: option.splits if_splits)

lemma newInvokeContext_twice:
  "ensureRequestContext (sys_app s) c = Inr e \<Longrightarrow> newInvokeContext s (Some e) = newInvokeContext s c"
  by (simp add: newInvokeContext_def ensure_twice)

lemma newInvokeContext_fields:
  assumes "newInvokeContext s (Some c) = Inr i"
  shows "RequestID i = RequestID c \<and> rc_Session i = rc_Session c \<and> Metadata i = cloneMetadata (Metadata c)"
proof -
  obtain e where e: "ensureRequestContext (sys_app s) (Some c) = Inr e"
    using assms by (auto simp: newInvokeContext_def split: sum.splits)
  then have "RequestID e = RequestID c \<and> rc_Session e = rc_Session c \<and> Metadata e = Metadata c"
    by (auto simp: ensureRequestContext_def Let_def split: option.splits if_splits)
  then show ?thesis using assms e by (auto simp: newInvokeContext_def split: option.splits if_splits)
qed

lemma nil_if_empty_clone [simp]: "nil_if_empty (cloneMetadata m) = cloneMetadata m"
  by (auto simp: nil_if_empty_def cloneMetadata_def split: option.splits)

text \<open>
  What the caller gets for a request that node \<open>s\<close> accepted: the reply it publishes, when the call has an outcome; and
  what the caller makes of a result of the other node.
\<close>

definition remote_answer ::
  "cluster_wire \<Rightarrow> nats_msg option \<Rightarrow> ('v call \<Rightarrow> ('v, 'h) System \<Rightarrow> 'v InvokeResult option) \<Rightarrow> nats_msg \<Rightarrow> ('v, 'h) System \<Rightarrow>
   nats_msg option" where
  "remote_answer w pooled outcome message s =
     (case process_begin w message s of
        (None, _) \<Rightarrow> None
      | (Some (m, ctx, call), s') \<Rightarrow>
          (case outcome call s' of None \<Rightarrow> None | Some r \<Rightarrow> reply w (sys_app s) pooled message m (Some ctx) r))"

definition remote_result :: "'v App \<Rightarrow> int \<Rightarrow> 'v InvokeResult \<Rightarrow> 'w InvokeResult" where
  "remote_result app codec r =
     (if Code r = 0 \<and> Payload r \<noteq> PNil then
        (case reg_Marshal (app_BodyCodecs app) codec (Payload r) of
           Inl _ \<Rightarrow> \<lparr>Payload = PBytes [], Code = status_number STATUS_INTERNAL, Message = ''response body encode failed''\<rparr>
         | Inr body \<Rightarrow> \<lparr>Payload = PBytes body, Code = 0, Message = Message r\<rparr>)
      else \<lparr>Payload = PBytes [], Code = Code r, Message = Message r\<rparr>)"

lemma reply_result:
  assumes w: "wire_ok w" and r: "reply w (Some app) pooled message request (Some ctx) result = Some rep"
  shows "nm_Subject rep = nm_Reply message \<and> nm_ReqID rep = nm_ReqID message \<and>
    (\<exists>resp. cw_Unmarshal w (nm_Data rep) = Inr resp \<and> cm_MsgType resp = RESPONSE \<and> cm_MessageId resp = cm_MessageId request \<and>
       \<lparr>Payload = PBytes (cm_Payload resp), Code = cm_Code resp, Message = cm_Message resp\<rparr> = remote_result app (Codec ctx) result)"
proof -
  have u: "cw_Marshal w m = Inr b \<Longrightarrow> cw_Unmarshal w b = Inr (wire_norm m)" for m b using w by (simp add: wire_ok_def)
  show ?thesis
    using r u by (auto simp: reply_def remote_result_def Let_def wire_norm_def nil_if_empty_def
        split: if_splits sum.splits prod.splits)
qed

lemma reply_rejected:
  assumes w: "wire_ok w" and m: "cw_Unmarshal w (nm_Data message) = Inr m" and r: "rejectOverload w app pooled message = Some rep"
  shows "nm_Subject rep = nm_Reply message \<and> nm_ReqID rep = nm_ReqID message \<and>
    (\<exists>resp. cw_Unmarshal w (nm_Data rep) = Inr resp \<and> cm_MsgType resp = RESPONSE \<and> cm_MessageId resp = cm_MessageId m \<and>
       cm_Payload resp = [] \<and> cm_Code resp = status_number STATUS_RESOURCE_EXHAUSTED \<and> cm_Message resp = ''cluster work queue is full'')"
proof -
  have u: "cw_Marshal w m = Inr b \<Longrightarrow> cw_Unmarshal w b = Inr (wire_norm m)" for m b using w by (simp add: wire_ok_def)
  show ?thesis
    using r u m by (auto simp: rejectOverload_def reply_def Let_def wire_norm_def nil_if_empty_def split: if_splits sum.splits)
qed

lemma ToActorPath_Nil: "ToActorPath t = Inr tp \<Longrightarrow> t \<noteq> []"
  by (auto simp: ToActorPath_def trim_is_empty_def)

lemma request_valid:
  assumes "m = fst (buildClusterMessage i t mid REQUEST body s)" "ToActorPath t = Inr tp" "mid \<noteq> 0"
    "sys_messageSeq s + 1 \<noteq> 0" "Codec i \<in> {CodecJSON, CodecProtobuf}"
  shows "validateMessage (Some m) = None" "validateMessage (Some (wire_norm m)) = None"
  using assms by (auto simp: validateMessage_def buildClusterMessage_def wire_norm_def Let_def)

lemma process_request:
  assumes w: "wire_ok w" "cw_Marshal w m = Inr (nm_Data msg)"
    and m: "m = fst (buildClusterMessage i t mid REQUEST body s)" "ToActorPath t = Inr tp" "mid \<noteq> 0"
    "sys_messageSeq s + 1 \<noteq> 0" "Codec i \<in> {CodecJSON, CodecProtobuf}"
    and i: "InvokeTarget (Some (messageContext (sys_now s') (wire_norm m))) t mid (PBytes body) s' = (call, s'')"
  shows "process_begin w msg s' = (Some (wire_norm m, messageContext (sys_now s') (wire_norm m), call), s'')"
proof -
  have u: "cw_Unmarshal w (nm_Data msg) = Inr (wire_norm m)" using w by (simp add: wire_ok_def)
  have f: "cm_TargetPath (wire_norm m) = t" "cm_MethodId (wire_norm m) = mid" "cm_MsgType (wire_norm m) = REQUEST"
    "cm_Payload (wire_norm m) = body"
    using m(1) by (simp_all add: wire_norm_def buildClusterMessage_def Let_def)
  show ?thesis using u f request_valid [OF m] ToActorPath_Nil [OF m(2)] i by (simp add: process_begin_def Let_def)
qed

text \<open>The context the other node works under.\<close>

lemma request_context:
  assumes "m = fst (buildClusterMessage i t mid REQUEST body s)" "rc_Deadline i = Some d" "1000000 \<le> d"
  shows "let ctx = messageContext now (wire_norm m) in
    RequestID ctx = RequestID i \<and> Transport ctx = TransportCluster \<and> Codec ctx = Codec i \<and> Metadata ctx = cloneMetadata (Metadata i) \<and>
    rc_Session ctx = map_option (\<lambda>x. x\<lparr>Data := nil_if_empty (Data x)\<rparr>) (rc_Session i) \<and>
    rc_Deadline ctx = Some (d - d mod 1000000) \<and> Context ctx \<noteq> None"
proof -
  have e: "d div 1000000 * 1000000 = d - d mod 1000000" by (simp add: minus_mod_eq_div_mult)
  have p: "0 < d div 1000000" using assms(3) by (simp add: pos_imp_zdiv_pos_iff)
  have s: "(\<lambda>x. \<lparr>Sid = Sid x, Uid = Uid x, Ip = Ip x, Data = Data x\<rparr>) = (\<lambda>x :: Session. x)" by auto
  show ?thesis
    using assms(1,2) p
    by (simp add: messageContext_def buildClusterMessage_def wire_norm_def Let_def NewRequestContext_def rc_Deadline_def
        WithDeadline_def Background_def e s option.map_comp comp_def)
qed

definition call_result :: "ctx_error option \<Rightarrow> string + ClusterMessage \<Rightarrow> 'v InvokeResult" where
  "call_result e q =
     (case q of
        Inl err \<Rightarrow> (case e of Some e \<Rightarrow> contextFailure e ''cluster request'' | None \<Rightarrow> ErrorResult STATUS_UNAVAILABLE err)
      | Inr response \<Rightarrow> \<lparr>Payload = PBytes (cm_Payload response), Code = cm_Code response, Message = cm_Message response\<rparr>)"

lemma call_result_error [simp]: "Code (call_result e (Inl err)) \<noteq> 0" "Payload (call_result e (Inl err)) = PNil"
  by (auto simp: call_result_def contextFailure_def split: option.split)

text \<open>
  C5. A call to another node is the call on that node. When the node is known and encoding succeeds, the other node makes
  the same invocation, with the encoded body, under a context with the caller's request number, codec, metadata and
  session (an empty map becomes nil) and the caller's deadline cut to the millisecond; the caller gets the result of that
  invocation, its payload encoded with the codec of the request; and if no reply comes it gets an error.
\<close>

theorem cluster_end_to_end:
  fixes s :: "('v, 'h) System" and s' :: "('w, 'g) System"
  assumes w: "wire_ok w" "cw_Marshal w m = Inr data"
    and app: "sys_app s = Some app" "app_Cluster app = Some cl" "cl_Request cl = cluster_Request w prefix disc rpc"
    and node: "ToActorPath t = Inr tp" "NodeID tp \<notin> {[], sys_NodeID s}" "disc_GetType (NodeID tp) disc = Inr ty"
    and mid: "mid \<noteq> 0" "sys_messageSeq s + 1 \<noteq> 0"
    and ctx: "newInvokeContext s (Some c) = Inr i" "Codec i \<in> {CodecJSON, CodecProtobuf}" "rc_Deadline i = Some d" "sys_now s < d" "1000000 \<le> d"
    and body: "encodeClusterPayload app i p = Inr body" "m = fst (buildClusterMessage i t mid REQUEST body s)"
    and remote: "sys_app s' = Some app'" "nm_Data msg = data" "nm_Subject msg = GetRemoteSubject prefix ty (NodeID tp)"
      "rpc (nm_Subject msg) data (d - sys_now s) =
         (case remote_answer w pooled outcome msg s' of None \<Rightarrow> Inl ClusterRequestTimeout | Some rep \<Rightarrow> Inr (nm_Data rep))"
  shows "\<exists>rctx call s'' result. InvokeTarget (Some rctx) t mid (PBytes body) s' = (call, s'') \<and>
    RequestID rctx = RequestID c \<and> Transport rctx = TransportCluster \<and> Codec rctx = Codec i \<and> Metadata rctx = cloneMetadata (Metadata c) \<and>
    rc_Session rctx = map_option (\<lambda>x. x\<lparr>Data := nil_if_empty (Data x)\<rparr>) (rc_Session c) \<and> rc_Deadline rctx = Some (d - d mod 1000000) \<and>
    fst (InvokeTarget (Some c) t mid p s) = Returned result \<and>
    (case remote_answer w pooled outcome msg s' of
       None \<Rightarrow> Code result \<noteq> 0 \<and> Payload result = PNil
     | Some rep \<Rightarrow> (\<exists>r. outcome call s'' = Some r \<and> result = remote_result app' (Codec i) r))"
proof -
  let ?rctx = "messageContext (sys_now s') (wire_norm m)"
  obtain call s'' where call: "InvokeTarget (Some ?rctx) t mid (PBytes body) s' = (call, s'')" by force
  have W: "cw_Marshal w m = Inr (nm_Data msg)" using w remote by simp
  note P = process_request [OF w(1) W body(2) node(1) mid ctx(2) call]
  note R = request_context [OF body(2) ctx(3,5), of "sys_now s'", unfolded Let_def]
  note F = newInvokeContext_fields [OF ctx(1)]
  obtain e where e: "ensureRequestContext (sys_app s) (Some c) = Inr e"
    using ctx(1) by (auto simp: newInvokeContext_def split: sum.splits)
  have pr: "(prepareTyped t mid :: 'v InvokeResult + ActorPath) = Inr tp" using node mid by (simp add: prepareTyped_def)
  have sub: "nodeSubject prefix disc (NodeID tp) = Inr (nm_Subject msg)" using node remote by (simp add: nodeSubject_def)
  let ?q = "cl_Request cl (NodeID tp) m (d - sys_now s)"
  have fst: "fst (InvokeTarget (Some c) t mid p s) = Returned (call_result (ctx_Err (sys_now s) i) ?q)"
    using pr e node(2) app ctx(1,3,4) body newInvokeContext_twice [OF e]
    by (simp add: InvokeTarget_def invokeRemote_def Let_def split_beta buildClusterMessage_def call_result_def cong: sum.case_cong option.case_cong)
  have q: "?q = (case rpc (nm_Subject msg) data (d - sys_now s) of
       Inl err \<Rightarrow> Inl (''actorgo cluster: request: '' @ err)
     | Inr responseData \<Rightarrow>
         (case cw_Unmarshal w responseData of
            Inl err \<Rightarrow> Inl (''actorgo cluster: unmarshal response: '' @ err)
          | Inr response \<Rightarrow>
              if cm_MsgType response \<noteq> RESPONSE \<or> cm_MessageId response \<noteq> cm_MessageId m
              then Inl ''actorgo cluster: response correlation mismatch'' else Inr response))"
    using app(3) sub request_valid(1) [OF body(2) node(1) mid ctx(2)] w(2) by (simp add: cluster_Request_def)
  show ?thesis
  proof (cases "remote_answer w pooled outcome msg s'")
    case None
    have "\<exists>err. ?q = Inl err" using None remote(4) q by simp
    then show ?thesis using call R F fst None by (intro exI [of _ ?rctx] exI [of _ call] exI [of _ s'']) auto
  next
    case (Some rep)
    then obtain r where r: "outcome call s'' = Some r" "reply w (Some app') pooled msg (wire_norm m) (Some ?rctx) r = Some rep"
      using P remote(1) by (auto simp: remote_answer_def split: option.splits)
    obtain resp where resp: "cw_Unmarshal w (nm_Data rep) = Inr resp" "cm_MsgType resp = RESPONSE"
      "cm_MessageId resp = cm_MessageId (wire_norm m)"
      "\<lparr>Payload = PBytes (cm_Payload resp), Code = cm_Code resp, Message = cm_Message resp\<rparr> = (remote_result app' (Codec ?rctx) r :: 'v InvokeResult)"
      using reply_result [OF w(1) r(2)] by blast
    have "cm_MessageId (wire_norm m) = cm_MessageId m" by (simp add: wire_norm_def)
    then have "?q = Inr resp" using q remote(4) Some resp by simp
    then show ?thesis using call R F fst Some r(1) resp(4)
      by (intro exI [of _ ?rctx] exI [of _ call] exI [of _ s'']) (auto simp: call_result_def)
  qed
qed

text \<open>
  Two nodes for evaluation: node \<open>a\<close> calls actor \<open>echo\<close> of node \<open>n\<close>. The encoder knows the request and its response.
\<close>

definition demo_wire :: "ClusterMessage \<Rightarrow> ClusterMessage \<Rightarrow> cluster_wire" where
  "demo_wire m r =
     \<lparr>cw_Marshal = (\<lambda>x. if x = m then Inr [1] else if x = r then Inr [2] else Inl ''no''),
      cw_Unmarshal = (\<lambda>b. if b = [1] then Inr (wire_norm m) else if b = [2] then Inr (wire_norm r) else Inl ''no'')\<rparr>"

lemma demo_wire_ok: "wire_ok (demo_wire m r)"
  by (auto simp: wire_ok_def demo_wire_def split: if_splits)

definition demo_request :: ClusterMessage where
  "demo_request = \<lparr>cm_MessageId = 1, cm_MsgType = REQUEST, cm_RequestId = 0, cm_MethodId = 10, cm_DeadlineUnixMs = 3000,
     cm_TargetPath = ''n.echo'', cm_Session = None, cm_Metadata = None, cm_Codec = 1, cm_Payload = [7], cm_Code = 0, cm_Message = []\<rparr>"

definition demo_response :: ClusterMessage where
  "demo_response = demo_request\<lparr>cm_MsgType := RESPONSE, cm_DeadlineUnixMs := 0, cm_TargetPath := []\<rparr>"

definition demo_cw :: cluster_wire where
  "demo_cw = demo_wire demo_request demo_response"

definition demo_msg :: nats_msg where
  "demo_msg = \<lparr>nm_Subject = GetRemoteSubject ''p'' ''game'' ''n'', nm_Reply = ''r'', nm_ReqID = ''1'', nm_Data = [1]\<rparr>"

text \<open>The actor takes the message and its answer is the outcome.\<close>

definition demo_outcome :: "byte list call \<Rightarrow> (byte list, nat) System \<Rightarrow> byte list InvokeResult option" where
  "demo_outcome call s =
     (case call of
        Await ch _ \<Rightarrow> (case sys_chans (snd (loop SelMail 0 s)) ch of [] \<Rightarrow> None | r # _ \<Rightarrow> Some r)
      | Returned r \<Rightarrow> Some r
      | CallPanic _ \<Rightarrow> None)"

definition demo_rpc_answer :: "string \<Rightarrow> byte list \<Rightarrow> int \<Rightarrow> string + byte list" where
  "demo_rpc_answer subject data timeout =
     (case remote_answer demo_cw None demo_outcome demo_msg demo_ready of
        None \<Rightarrow> Inl ClusterRequestTimeout | Some rep \<Rightarrow> Inr (nm_Data rep))"

definition demo_disc :: DiscoveryDefault where
  "demo_disc = AddMember \<lparr>mb_NodeID = ''n'', mb_NodeType = ''game'', mb_Address = [], mb_Settings = []\<rparr> new_discovery"

definition demo_caller :: "(byte list, nat) System" where
  "demo_caller = SetApp (Some (demo_app\<lparr>app_NodeID := ''a'',
     app_Cluster := Some \<lparr>cl_Request = cluster_Request demo_cw ''p'' demo_disc demo_rpc_answer, cl_Publish = (\<lambda>_ _. None)\<rparr>\<rparr>)) NewSystem"

lemma demo_remote_answer: "\<exists>rep. remote_answer demo_cw None demo_outcome demo_msg demo_ready = Some rep \<and> nm_Data rep = [2]"
proof -
  have "map_option nm_Data (remote_answer demo_cw None demo_outcome demo_msg demo_ready) = Some [2]" by code_simp
  then show ?thesis by auto
qed

theorem cluster_end_to_end_witness:
  "\<exists>result rctx call s''. fst (InvokeTarget (Some (NewRequestContext None)) ''n.echo'' 10 (PBytes [7]) demo_caller) = Returned result \<and>
     InvokeTarget (Some rctx) ''n.echo'' 10 (PBytes [7]) demo_ready = (call, s'') \<and> Transport rctx = TransportCluster \<and>
     rc_Deadline rctx = Some 3000000000 \<and> (\<exists>r app. demo_outcome call s'' = Some r \<and> result = remote_result app 1 r)"
proof -
  let ?c = "NewRequestContext None" and ?tp = "\<lparr>NodeID = ''n'', ActorID = ''echo'', ChildID = []\<rparr>"
  have "map_option app_NodeID (sys_app demo_caller) = Some ''a''" by code_simp
  then obtain app cl where app: "sys_app demo_caller = Some app" "app_Cluster app = Some cl"
    "cl_Request cl = cluster_Request demo_cw ''p'' demo_disc demo_rpc_answer"
    by (simp add: demo_caller_def SetApp_def)
  obtain app' where app': "sys_app demo_ready = Some app'" using demo_ready_app by blast
  have "case newInvokeContext demo_caller (Some ?c) of Inl _ \<Rightarrow> False
      | Inr i \<Rightarrow> Codec i = 1 \<and> rc_Deadline i = Some 3000000000 \<and>
          fst (buildClusterMessage i ''n.echo'' 10 REQUEST [7] demo_caller) = demo_request" by code_simp
  then obtain i where i: "newInvokeContext demo_caller (Some ?c) = Inr i" "Codec i = 1" "rc_Deadline i = Some 3000000000"
    "demo_request = fst (buildClusterMessage i ''n.echo'' 10 REQUEST [7] demo_caller)" by (auto split: sum.splits)
  have s: "sys_messageSeq demo_caller + 1 \<noteq> 0" "sys_now demo_caller < 3000000000" "sys_now demo_caller = 0" by code_simp+
  have d: "disc_GetType ''n'' demo_disc = Inr ''game''" "ToActorPath ''n.echo'' = Inr ?tp" "sys_NodeID demo_caller = ''a''"
    "cw_Marshal demo_cw demo_request = Inr [1]" by code_simp+
  have e: "encodeClusterPayload app i (PBytes [7]) = Inr [7]" by (simp add: encodeClusterPayload_def)
  have w: "wire_ok demo_cw" unfolding demo_cw_def by (rule demo_wire_ok)
  have r: "demo_rpc_answer (nm_Subject demo_msg) [1] (3000000000 - sys_now demo_caller) =
      (case remote_answer demo_cw None demo_outcome demo_msg demo_ready of None \<Rightarrow> Inl ClusterRequestTimeout | Some rep \<Rightarrow> Inr (nm_Data rep))"
    by (simp add: demo_rpc_answer_def)
  have n: "NodeID ?tp \<notin> {[], sys_NodeID demo_caller}" "disc_GetType (NodeID ?tp) demo_disc = Inr ''game''"
    "nm_Subject demo_msg = GetRemoteSubject ''p'' ''game'' (NodeID ?tp)" "nm_Data demo_msg = [1]" "(10 :: u32) \<noteq> 0"
    "Codec i \<in> {CodecJSON, CodecProtobuf}" "(1000000 :: int) \<le> 3000000000"
    using d i by (simp_all add: demo_msg_def CodecProtobuf_def)
  obtain rep where rep: "remote_answer demo_cw None demo_outcome demo_msg demo_ready = Some rep" using demo_remote_answer by blast
  from cluster_end_to_end [OF w d(4) app d(2) n(1,2,5) s(1) i(1) n(6) i(3) s(2) n(7) e i(4) app' n(4,3) r] rep i(2)
  obtain rctx call s'' result r where "InvokeTarget (Some rctx) ''n.echo'' 10 (PBytes [7]) demo_ready = (call, s'')"
    "Transport rctx = TransportCluster" "rc_Deadline rctx = Some (3000000000 - 3000000000 mod 1000000)"
    "fst (InvokeTarget (Some ?c) ''n.echo'' 10 (PBytes [7]) demo_caller) = Returned result"
    "demo_outcome call s'' = Some r" "result = remote_result app' 1 r"
    by auto
  then show ?thesis by force
qed

text \<open>A node with one worker and a queue of one: a message is accepted, taken and handled, then the node stops.\<close>

definition demo_node :: "(byte list, nat) node" where
  "demo_node = \<lparr>nd_sys = demo_ready, nd_work = [], nd_queueSize = 1, nd_workers = [Waiting], nd_stopping = False, nd_stopped = False,
     nd_closed = False, nd_out = [], nd_accepted = [], nd_handled = []\<rparr>"

definition demo_stopped :: "(byte list, nat) node" where
  "demo_stopped = (cluster_enqueue demo_cw None demo_msg demo_node)\<lparr>nd_stopping := True, nd_stopped := True\<rparr>"

lemma demo_node_reach: "nreach demo_cw demo_node"
  by (rule nreach.init [of 1 1 demo_ready]) (simp add: cluster_Init_def demo_node_def)

lemma demo_stopped_reach: "nreach demo_cw demo_stopped"
proof -
  let ?n = "cluster_enqueue demo_cw None demo_msg demo_node"
  have "nreach demo_cw (?n\<lparr>nd_stopping := True\<rparr>)"
    by (intro nreach.step [OF nreach.step [OF demo_node_reach nstep.arrive] nstep.refuse])
  moreover have "nstep demo_cw (?n\<lparr>nd_stopping := True\<rparr>) (?n\<lparr>nd_stopping := True, nd_stopped := True\<rparr>)"
    using nstep.close_stop [of "?n\<lparr>nd_stopping := True\<rparr>"] by simp
  ultimately show ?thesis unfolding demo_stopped_def by (rule nreach.step)
qed

lemma demo_stopped_fields: "nd_accepted demo_stopped = [demo_msg]" "nd_stopping demo_stopped" "nd_stopped demo_stopped"
  "nd_work demo_stopped = [demo_msg]" "nd_workers demo_stopped = [Waiting]" "nd_queueSize demo_stopped = 1" "nd_handled demo_stopped = []"
  by (simp_all add: demo_stopped_def cluster_enqueue_def demo_node_def)

theorem cluster_conserves_witness:
  "nreach demo_cw demo_stopped \<and> mset [demo_msg] = mset (nd_handled demo_stopped) + mset [demo_msg] + progress demo_stopped \<and>
   nd_accepted (cluster_enqueue demo_cw None demo_msg demo_stopped) = [demo_msg]"
  using cluster_conserves [OF demo_stopped_reach, of "cluster_enqueue demo_cw None demo_msg demo_stopped"]
    demo_stopped_reach nstep.arrive demo_stopped_fields by auto

theorem cluster_stop_ends_witness:
  "nreach demo_cw demo_stopped \<and> nd_stopped demo_stopped \<and>
   left_to_do (worker_take demo_cw 0 False demo_msg [] demo_stopped) < left_to_do demo_stopped"
proof -
  have "wstep demo_cw demo_stopped (worker_take demo_cw 0 False demo_msg [] demo_stopped)"
    unfolding wstep_def using demo_stopped_fields
    by (intro disjI1 exI [of _ 0] exI [of _ demo_msg] exI [of _ "[]"]) simp
  with cluster_stop_ends [OF demo_stopped_reach demo_stopped_fields(3)] show ?thesis
    using demo_stopped_reach demo_stopped_fields(3) by blast
qed

text \<open>
  A session whose map is empty but not nil takes new entries on its own node and loses its map on the way to another
  one, where the same write panics.
\<close>

lemma remote_session_write:
  assumes "rc_Session i = Some x" "Data x = Some []" "key \<noteq> []" "v \<noteq> []"
  shows "(\<exists>x'. session_Set x key v = Inr x') \<and>
    (\<exists>y. rc_Session (messageContext now (wire_norm (fst (buildClusterMessage i t mid ty body s)))) = Some y \<and>
       session_Set y key v = Inl NilMapWrite)"
  using assms
  by (simp add: messageContext_def buildClusterMessage_def wire_norm_def Let_def session_Set_def put_data_def nil_if_empty_def
      NewRequestContext_def)

end
