(* ===== verification/Application.thy ===== *)
theory Application
  imports Cluster_Nats
begin

text \<open>
  The application of \<open>src/application.go\<close> and its builder \<open>src/actorgo.go\<close>: the component list, the startup, the
  wait for the end and the shutdown. The components are values behind their interface: a name and what each hook does to the rest of
  the world, which may end in a panic. Hooks that register or remove components themselves are not modelled.
\<close>

section \<open>Components\<close>

datatype hook = HSet | HInit | HAfterInit | HBeforeStop | HStop

record 'w component =
  cp_Name :: string
  cp_hook :: "hook \<Rightarrow> 'w \<Rightarrow> 'w \<times> string option"

datatype NodeMode = ClusterMode | Standalone

record ('v, 'w) Application =
  ap_mode :: NodeMode
  ap_running :: int
  ap_onShutdown :: "('w \<Rightarrow> 'w \<times> string option) list"
  ap_components :: "'w component list"
  ap_codecs :: "'v Registry"
  ap_discovery :: "'w component option"
  ap_cluster :: "'w component option"
  ap_actorSystem :: "'w component"

text \<open>\<open>Try\<close>: the world after the call and whether it panicked; the panic ends here.\<close>

definition Try :: "('w \<Rightarrow> 'w \<times> string option) \<Rightarrow> 'w \<Rightarrow> bool \<times> 'w" where
  "Try f w = (case f w of (w, p) \<Rightarrow> (p \<noteq> None, w))"

definition NewAppNode :: "NodeMode \<Rightarrow> 'v Registry \<Rightarrow> 'w component \<Rightarrow> ('v, 'w) Application" where
  "NewAppNode mode registry actorSystem =
     \<lparr>ap_mode = mode, ap_running = 0, ap_onShutdown = [], ap_components = [], ap_codecs = registry,
      ap_discovery = None, ap_cluster = None, ap_actorSystem = actorSystem\<rparr>"

definition Running :: "('v, 'w) Application \<Rightarrow> bool" where
  "Running a \<longleftrightarrow> ap_running a > 0"

definition app_Find :: "string \<Rightarrow> ('v, 'w) Application \<Rightarrow> 'w component option" where
  "app_Find name a = (if name = [] then None else find (\<lambda>c. cp_Name c = name) (ap_components a))"

text \<open>The loop of \<open>Register\<close> returns at the first component without a name (or nil) and at the first duplicate.\<close>

fun register_each_component :: "'w component option list \<Rightarrow> ('v, 'w) Application \<Rightarrow> ('v, 'w) Application" where
  "register_each_component [] a = a"
| "register_each_component (None # cs) a = a"
| "register_each_component (Some c # cs) a =
     (if cp_Name c = [] then a
      else if app_Find (cp_Name c) a \<noteq> None then a
      else register_each_component cs (a\<lparr>ap_components := ap_components a @ [c]\<rparr>))"

definition app_Register :: "'w component option list \<Rightarrow> ('v, 'w) Application \<Rightarrow> ('v, 'w) Application" where
  "app_Register cs a = (if Running a then a else register_each_component cs a)"

text \<open>\<open>Remove\<close> drops every component of the name and answers the last one.\<close>

definition app_Remove :: "string \<Rightarrow> ('v, 'w) Application \<Rightarrow> 'w component option \<times> ('v, 'w) Application" where
  "app_Remove name a =
     (if name = [] then (None, a)
      else (find (\<lambda>c. cp_Name c = name) (rev (ap_components a)),
            a\<lparr>ap_components := filter (\<lambda>c. cp_Name c \<noteq> name) (ap_components a)\<rparr>))"

definition OnShutdown :: "('w \<Rightarrow> 'w \<times> string option) list \<Rightarrow> ('v, 'w) Application \<Rightarrow> ('v, 'w) Application" where
  "OnShutdown fs a = a\<lparr>ap_onShutdown := ap_onShutdown a @ fs\<rparr>"

definition SetDefaultBodyCodec :: "int \<Rightarrow> ('v, 'w) Application \<Rightarrow> ('v, 'w) Application" where
  "SetDefaultBodyCodec codec a =
     (if Running a then a
      else case reg_SetDefault (ap_codecs a) codec of Inl _ \<Rightarrow> a | Inr r \<Rightarrow> a\<lparr>ap_codecs := r\<rparr>)"

definition SetDiscovery :: "'w component option \<Rightarrow> ('v, 'w) Application \<Rightarrow> ('v, 'w) Application" where
  "SetDiscovery d a = (if Running a \<or> d = None then a else a\<lparr>ap_discovery := d\<rparr>)"

definition SetCluster :: "'w component option \<Rightarrow> ('v, 'w) Application \<Rightarrow> ('v, 'w) Application" where
  "SetCluster c a = (if Running a \<or> c = None then a else a\<lparr>ap_cluster := c\<rparr>)"

section \<open>Startup and shutdown\<close>

text \<open>The calls an application makes, in order.\<close>

datatype event = Hook hook string | ShutdownFn nat

text \<open>A loop over hooks that are not protected ends at the first panic.\<close>

fun run_hooks :: "hook \<Rightarrow> 'w component list \<Rightarrow> 'w \<Rightarrow> event list \<times> 'w \<times> string option" where
  "run_hooks h [] w = ([], w, None)"
| "run_hooks h (c # cs) w =
     (case cp_hook c h w of
        (w, Some e) \<Rightarrow> ([Hook h (cp_Name c)], w, Some e)
      | (w, None) \<Rightarrow> (case run_hooks h cs w of (log, w, p) \<Rightarrow> (Hook h (cp_Name c) # log, w, p)))"

fun try_hooks :: "hook \<Rightarrow> 'w component list \<Rightarrow> 'w \<Rightarrow> event list \<times> 'w" where
  "try_hooks h [] w = ([], w)"
| "try_hooks h (c # cs) w =
     (case Try (cp_hook c h) w of (_, w) \<Rightarrow> (case try_hooks h cs w of (log, w) \<Rightarrow> (Hook h (cp_Name c) # log, w)))"

fun try_fns :: "nat \<Rightarrow> ('w \<Rightarrow> 'w \<times> string option) list \<Rightarrow> 'w \<Rightarrow> event list \<times> 'w" where
  "try_fns i [] w = ([], w)"
| "try_fns i (f # fs) w = (case Try f w of (_, w) \<Rightarrow> (case try_fns (Suc i) fs w of (log, w) \<Rightarrow> (ShutdownFn i # log, w)))"

datatype startup = AlreadyRunning | Panicked string | Serving

text \<open>\<open>Startup\<close> up to the wait: a panic of a hook is recovered and \<open>Startup\<close> returns.\<close>

definition with_actor_system :: "('v, 'w) Application \<Rightarrow> ('v, 'w) Application" where
  "with_actor_system a =
     (if app_Find (cp_Name (ap_actorSystem a)) a = None
      then a\<lparr>ap_components := ap_actorSystem a # ap_components a\<rparr> else a)"

definition Startup_begin :: "('v, 'w) Application \<Rightarrow> 'w \<Rightarrow> startup \<times> event list \<times> ('v, 'w) Application \<times> 'w" where
  "Startup_begin a w =
     (if Running a then (AlreadyRunning, [], a, w)
      else
        (let a = with_actor_system a; cs = ap_components a in
         case run_hooks HSet cs w of
           (l1, w, Some e) \<Rightarrow> (Panicked e, l1, a, w)
         | (l1, w, None) \<Rightarrow>
             (case run_hooks HInit cs w of
                (l2, w, Some e) \<Rightarrow> (Panicked e, l1 @ l2, a, w)
              | (l2, w, None) \<Rightarrow>
                  (case run_hooks HAfterInit cs w of
                     (l3, w, Some e) \<Rightarrow> (Panicked e, l1 @ l2 @ l3, a, w)
                   | (l3, w, None) \<Rightarrow> (Serving, l1 @ l2 @ l3, a\<lparr>ap_running := ap_running a + 1\<rparr>, w)))))"

text \<open>What follows once \<open>Shutdown\<close> was called or a signal came.\<close>

definition Startup_end :: "('v, 'w) Application \<Rightarrow> 'w \<Rightarrow> event list \<times> ('v, 'w) Application \<times> 'w" where
  "Startup_end a w =
     (let a = a\<lparr>ap_running := 0\<rparr>;
          (l1, w) = try_fns 0 (ap_onShutdown a) w;
          (l2, w) = try_hooks HBeforeStop (rev (ap_components a)) w;
          (l3, w) = try_hooks HStop (rev (ap_components a)) w
      in (l1 @ l2 @ l3, a, w))"

section \<open>The builder\<close>

record ('v, 'w) AppBuilder =
  ab_app :: "('v, 'w) Application"
  ab_components :: "'w component option list"

definition ConfigureNode :: "NodeMode \<Rightarrow> 'v Registry \<Rightarrow> 'w component \<Rightarrow> ('v, 'w) AppBuilder" where
  "ConfigureNode mode registry actorSystem = \<lparr>ab_app = NewAppNode mode registry actorSystem, ab_components = []\<rparr>"

definition builder_Register :: "'w component option list \<Rightarrow> ('v, 'w) AppBuilder \<Rightarrow> ('v, 'w) AppBuilder" where
  "builder_Register cs b = b\<lparr>ab_components := ab_components b @ cs\<rparr>"

text \<open>\<open>Startup\<close> of the builder up to that of the application; the new cluster and discovery components are arguments.\<close>

definition builder_Startup :: "'w component \<Rightarrow> 'w component \<Rightarrow> ('v, 'w) AppBuilder \<Rightarrow> ('v, 'w) Application" where
  "builder_Startup cluster discovery b =
     (let app = ab_app b;
          app =
            (if ap_mode app = ClusterMode then
               app_Register [Some discovery] (SetDiscovery (Some discovery) (app_Register [Some cluster] (SetCluster (Some cluster) app)))
             else app)
      in app_Register (ab_components b) app)"

section \<open>Lemmas\<close>

abbreviation names :: "('v, 'w) Application \<Rightarrow> string list" where
  "names a \<equiv> map cp_Name (ap_components a)"

lemma find_None_names: "find (\<lambda>c. cp_Name c = n) cs = None \<longleftrightarrow> n \<notin> set (map cp_Name cs)"
  by (induction cs) auto

lemma app_Find_None: "app_Find n a = None \<longleftrightarrow> n = [] \<or> n \<notin> set (names a)"
  by (auto simp: app_Find_def find_None_names)

definition names_ok :: "('v, 'w) Application \<Rightarrow> bool" where
  "names_ok a \<longleftrightarrow> distinct (names a) \<and> [] \<notin> set (names a)"

lemma register_each_ok: "names_ok a \<Longrightarrow> names_ok (register_each_component cs a)"
  by (induction cs a rule: register_each_component.induct) (auto simp: names_ok_def app_Find_None)

lemma register_each_appends: "\<exists>new. ap_components (register_each_component cs a) = ap_components a @ new"
  by (induction cs a rule: register_each_component.induct) auto

lemma register_each_fields [simp]:
  "ap_running (register_each_component cs a) = ap_running a" "ap_actorSystem (register_each_component cs a) = ap_actorSystem a"
  "ap_mode (register_each_component cs a) = ap_mode a" "ap_onShutdown (register_each_component cs a) = ap_onShutdown a"
  by (induction cs a rule: register_each_component.induct) auto

lemma run_hooks_log:
  assumes "run_hooks h cs w = (log, w', p)"
  shows "case p of None \<Rightarrow> log = map (\<lambda>c. Hook h (cp_Name c)) cs
    | Some e \<Rightarrow> (\<exists>k < length cs. log = map (\<lambda>c. Hook h (cp_Name c)) (take (Suc k) cs))"
  using assms
proof (induction cs arbitrary: w log)
  case (Cons c cs)
  obtain w1 q where c: "cp_hook c h w = (w1, q)" by force
  obtain l w2 p2 where r: "run_hooks h cs w1 = (l, w2, p2)" using prod_cases3 by blast
  show ?case
  proof (cases q)
    case None
    then have e: "log = Hook h (cp_Name c) # l" "p = p2" "w' = w2" using Cons.prems c r by auto
    with Cons.IH [of w1 l] r show ?thesis by (auto split: option.splits)
  next
    case (Some e)
    then have "log = [Hook h (cp_Name c)]" "p = Some e" using Cons.prems c by auto
    then show ?thesis by auto
  qed
qed auto

lemma try_hooks_log: "fst (try_hooks h cs w) = map (\<lambda>c. Hook h (cp_Name c)) cs"
proof (induction cs arbitrary: w)
  case (Cons c cs)
  then show ?case by (cases "try_hooks h cs (snd (Try (cp_hook c h) w))") (simp add: split_beta)
qed simp

lemma try_fns_log: "fst (try_fns i fs w) = map ShutdownFn [i..<i + length fs]"
proof (induction fs arbitrary: i w)
  case (Cons f fs)
  have "[i..<i + length (f # fs)] = i # [Suc i..<Suc i + length fs]" by (subst upt_conv_Cons) simp_all
  then show ?case using Cons.IH [of "Suc i"] by (simp add: split_beta)
qed simp

section \<open>Order of the lifecycle\<close>

definition hook_calls :: "hook \<Rightarrow> 'w component list \<Rightarrow> event list" where
  "hook_calls h cs = map (\<lambda>c. Hook h (cp_Name c)) cs"

definition start_calls :: "'w component list \<Rightarrow> event list" where
  "start_calls cs = hook_calls HSet cs @ hook_calls HInit cs @ hook_calls HAfterInit cs"

definition stop_calls :: "('v, 'w) Application \<Rightarrow> event list" where
  "stop_calls a = map ShutdownFn [0..<length (ap_onShutdown a)] @ hook_calls HBeforeStop (rev (ap_components a)) @
     hook_calls HStop (rev (ap_components a))"

lemma run_hooks_cases:
  "run_hooks h cs w = (log, w', None) \<Longrightarrow> log = hook_calls h cs"
  "run_hooks h cs w = (log, w', Some e) \<Longrightarrow> \<exists>k < length cs. log = take (Suc k) (hook_calls h cs)"
  using run_hooks_log [of h cs w log w' None] run_hooks_log [of h cs w log w' "Some e"]
  by (simp_all add: hook_calls_def take_map)

lemma length_hook_calls [simp]: "length (hook_calls h cs) = length cs"
  by (simp add: hook_calls_def)

lemma Startup_end_calls: "fst (Startup_end b v) = stop_calls b"
  using try_fns_log [of 0 "ap_onShutdown b"] try_hooks_log [of HBeforeStop "rev (ap_components b)"]
    try_hooks_log [of HStop "rev (ap_components b)"]
  by (auto simp: Startup_end_def stop_calls_def hook_calls_def Let_def split: prod.splits) (metis fst_conv)+


section \<open>A node of a cluster\<close>

lemma register_each_new:
  "\<exists>new. ap_components (register_each_component cs a) = ap_components a @ new \<and> (\<forall>c \<in> set new. Some c \<in> set cs)"
proof (induction cs a rule: register_each_component.induct)
  case (3 c cs a)
  show ?case
  proof (cases "cp_Name c = [] \<or> app_Find (cp_Name c) a \<noteq> None")
    case True
    then show ?thesis by auto
  next
    case False
    then obtain new where "ap_components (register_each_component cs (a\<lparr>ap_components := ap_components a @ [c]\<rparr>)) = (ap_components a @ [c]) @ new"
      "\<forall>c \<in> set new. Some c \<in> set cs" using 3 by auto
    then show ?thesis using False by auto
  qed
qed simp_all

lemma register_each_all:
  assumes "distinct (names a @ map cp_Name cs)" "[] \<notin> set (map cp_Name cs)"
  shows "ap_components (register_each_component (map Some cs) a) = ap_components a @ cs"
  using assms
proof (induction cs arbitrary: a)
  case (Cons c cs)
  then have "cp_Name c \<noteq> []" "app_Find (cp_Name c) a = None" by (auto simp: app_Find_None)
  moreover have "ap_components (register_each_component (map Some cs) (a\<lparr>ap_components := ap_components a @ [c]\<rparr>)) = (ap_components a @ [c]) @ cs"
    using Cons.prems Cons.IH [of "a\<lparr>ap_components := ap_components a @ [c]\<rparr>"] by auto
  ultimately show ?case by simp
qed simp

text \<open>
  C37. The order of a cluster node. A node built for a cluster starts the actor system first, then the cluster transport and the
  discovery, then the registered components that come before the first one without a name or with a taken name (all of them when the
  names are good); no name occurs twice. Its shutdown ends with the discovery, the cluster and the actor system in this order, so a node
  leaves the discovery while its transport is up, and drains the transport while its actors still run.
\<close>

theorem cluster_node_order:
  fixes w :: 'w and registry :: "'v Registry"
  assumes n: "cp_Name actor = ''actor_component''" "cp_Name cluster = ''cluster_component''" "cp_Name discovery = ''discovery_component''"
    and c: "list_all (\<lambda>c. case c of None \<Rightarrow> True | Some c \<Rightarrow> cp_Name c \<noteq> ''actor_component'') cs"
    and a: "a = with_actor_system (builder_Startup cluster discovery (builder_Register cs (ConfigureNode ClusterMode registry actor)))"
  shows "\<exists>custom before. ap_components a = [actor, cluster, discovery] @ custom \<and> distinct (names a) \<and> (\<forall>c \<in> set custom. Some c \<in> set cs) \<and>
    (\<forall>ds. cs = map Some ds \<and> distinct (map cp_Name ([actor, cluster, discovery] @ ds)) \<and> [] \<notin> set (map cp_Name ds) \<longrightarrow> custom = ds) \<and>
    fst (Startup_end a w) = before @ [Hook HStop ''discovery_component'', Hook HStop ''cluster_component'', Hook HStop ''actor_component'']"
proof -
  let ?new = "NewAppNode ClusterMode registry actor"
  define b where "b = SetDiscovery (Some discovery) (app_Register [Some cluster] (SetCluster (Some cluster) ?new))"
  define d where "d = app_Register [Some discovery] b"
  have d0: "ap_components d = [cluster, discovery]" "ap_running d = 0" "ap_actorSystem d = actor"
    using n by (simp_all add: d_def b_def NewAppNode_def app_Register_def SetDiscovery_def SetCluster_def Running_def app_Find_def)
  have B: "builder_Startup cluster discovery (builder_Register cs (ConfigureNode ClusterMode registry actor)) = register_each_component cs d"
    using d0(2) by (simp add: builder_Startup_def builder_Register_def ConfigureNode_def app_Register_def [of cs] Running_def d_def b_def)
      (simp add: NewAppNode_def)
  obtain custom where C: "ap_components (register_each_component cs d) = [cluster, discovery] @ custom" "\<forall>c \<in> set custom. Some c \<in> set cs"
    using register_each_new [of cs d] d0(1) by auto
  have "cp_Name x \<noteq> ''actor_component''" if "x \<in> set custom" for x
    using c C(2) that by (fastforce simp: list_all_iff)
  then have "''actor_component'' \<notin> set (names (register_each_component cs d))" using C(1) n(2,3) by (simp add: image_iff) metis
  then have none: "app_Find (cp_Name actor) (register_each_component cs d) = None" by (simp add: app_Find_None n(1) del: list.set_map)
  have comps: "ap_components a = [actor, cluster, discovery] @ custom"
    using none C(1) d0(3) unfolding a B by (simp add: with_actor_system_def)
  have "names_ok d" using d0(1) n by (simp add: names_ok_def)
  then have "names_ok (register_each_component cs d)" by (rule register_each_ok)
  then have dist: "distinct (names a)"
    using none C(1) n unfolding comps by (simp add: names_ok_def app_Find_None)
  have all: "custom = ds" if "cs = map Some ds" "distinct (map cp_Name ([actor, cluster, discovery] @ ds))" "[] \<notin> set (map cp_Name ds)" for ds
    using register_each_all [of d ds] that C(1) d0(1) by simp
  have "fst (Startup_end a w) = stop_calls a"
    by (rule Startup_end_calls)
  then have "fst (Startup_end a w) = (map ShutdownFn [0..<length (ap_onShutdown a)] @ hook_calls HBeforeStop (rev (ap_components a)) @
      hook_calls HStop (rev custom)) @ [Hook HStop ''discovery_component'', Hook HStop ''cluster_component'', Hook HStop ''actor_component'']"
    using n by (simp add: stop_calls_def comps hook_calls_def)
  then show ?thesis using comps dist C(2) all by blast
qed

text \<open>A node with one component of its own, whose \<open>OnStop\<close> panics; the world counts the calls.\<close>

definition demo_component :: "string \<Rightarrow> nat component" where
  "demo_component n = \<lparr>cp_Name = n, cp_hook = (\<lambda>_ w. (Suc w, None))\<rparr>"

definition demo_game :: "nat component" where
  "demo_game = \<lparr>cp_Name = ''game'', cp_hook = (\<lambda>h w. (Suc w, if h = HStop then Some ''stop'' else None))\<rparr>"

definition demo_application :: "(byte list, nat) Application" where
  "demo_application = with_actor_system (builder_Startup (demo_component ''cluster_component'') (demo_component ''discovery_component'')
     (builder_Register [Some demo_game] (ConfigureNode ClusterMode (app_registry identity_codecs) (demo_component ''actor_component''))))"


theorem cluster_node_order_witness:
  "\<exists>before. fst (Startup_end demo_application 0) =
     before @ [Hook HStop ''discovery_component'', Hook HStop ''cluster_component'', Hook HStop ''actor_component'']"
proof -
  have n: "cp_Name (demo_component x) = x" for x by (simp add: demo_component_def)
  have c: "list_all (\<lambda>c. case c of None \<Rightarrow> True | Some c \<Rightarrow> cp_Name c \<noteq> ''actor_component'') [Some demo_game]"
    by (simp add: demo_game_def)
  show ?thesis using cluster_node_order [OF n n n c demo_application_def, of 0] by blast
qed

end
