(* ===== verification/Cluster_Rabbit.thy ===== *)
theory Cluster_Rabbit
  imports Cluster_Nats
begin

text \<open>
  The RabbitMQ cluster of \<open>src/net/cluster/rabbitmq_cluster\<close>: its connection and the watcher that reconnects, the
  worker pool, the reply, and requests with their waiters. The broker is a parameter: what each AMQP call answers (\<open>None\<close> for no error).
  The result is a simulation: the messages a node takes, handles and answers are those of the NATS cluster.
\<close>

section \<open>Deliveries\<close>

record delivery =
  dl_RoutingKey :: string
  dl_ReplyTo :: string
  dl_CorrelationId :: string
  dl_Body :: "byte list"

record publishing =
  pb_key :: string
  pb_Body :: "byte list"
  pb_ReplyTo :: string
  pb_CorrelationId :: string
  pb_Headers :: "(string \<times> string) list"

definition corrIDHeader :: string where "corrIDHeader = ''corrID''"

definition GetRemoteRoutingKey :: "string \<Rightarrow> string \<Rightarrow> string \<Rightarrow> string" where
  "GetRemoteRoutingKey prefix nodeType nodeID = ''actorgo-'' @ prefix @ ''.remote.'' @ nodeType @ ''.'' @ nodeID"

definition GetReplyRoutingKey :: "string \<Rightarrow> string \<Rightarrow> string \<Rightarrow> string" where
  "GetReplyRoutingKey prefix nodeType nodeID = ''actorgo-'' @ prefix @ ''.reply.'' @ nodeType @ ''.'' @ nodeID"

definition nodeRoutingKey :: "string \<Rightarrow> DiscoveryDefault \<Rightarrow> string \<Rightarrow> string + string" where
  "nodeRoutingKey prefix disc nodeID =
     (if nodeID = [] then Inl ''actorgo cluster: node id is required''
      else case disc_GetType nodeID disc of
        Inl err \<Rightarrow> Inl (''actorgo cluster: node '' @ quoted nodeID @ '' not found: '' @ err)
      | Inr nodeType \<Rightarrow> Inr (GetRemoteRoutingKey prefix nodeType nodeID))"

text \<open>\<open>validateMessage\<close> and \<open>messageContext\<close> have the text of the NATS cluster.\<close>

definition rb_validateMessage :: "ClusterMessage option \<Rightarrow> string option" where
  "rb_validateMessage message =
     (case message of
        None \<Rightarrow> Some ''actorgo cluster: message is nil''
      | Some m \<Rightarrow>
          if cm_MessageId m = 0 \<or> cm_MethodId m = 0 then Some ''actorgo cluster: message id and method id are required''
          else if cm_TargetPath m \<noteq> [] \<and> (case ToActorPath (cm_TargetPath m) of Inl _ \<Rightarrow> True | Inr _ \<Rightarrow> False)
          then Some ''actorgo cluster: invalid actor target''
          else if cm_MsgType m \<noteq> REQUEST \<and> cm_MsgType m \<noteq> NOTIFY
          then Some (''actorgo cluster: invalid outbound message type '' @ msg_type_name (cm_MsgType m))
          else if cm_Codec m \<noteq> CodecJSON \<and> cm_Codec m \<noteq> CodecProtobuf
          then Some (''actorgo cluster: unsupported codec '' @ fmt_int 10 (cm_Codec m))
          else None)"

definition rb_messageContext :: "int \<Rightarrow> ClusterMessage \<Rightarrow> RequestContext" where
  "rb_messageContext now m =
     (let base = (if cm_DeadlineUnixMs m > 0 then WithDeadline now Background (cm_DeadlineUnixMs m * 1000000) else Background)
      in (NewRequestContext (Some base))
           \<lparr>RequestID := cm_RequestId m, Transport := TransportCluster, Codec := cm_Codec m, Metadata := cm_Metadata m,
            rc_Session := map_option (\<lambda>x. \<lparr>Sid = Sid x, Uid = Uid x, Ip = Ip x, Data = Data x\<rparr>) (cm_Session m)\<rparr>)"

section \<open>The connection\<close>

text \<open>What the broker answers to one attempt; the last three by the name of the queue.\<close>

record broker =
  am_Dial :: "string option"
  am_Channel :: "string option"
  am_ExchangeDeclare :: "string option"
  am_QueueDeclare :: "string \<Rightarrow> string option"
  am_QueueBind :: "string \<Rightarrow> string option"
  am_Consume :: "string \<Rightarrow> string option"

text \<open>The connection and channel in use, and the connections and channels of this node that are open.\<close>

record rb_net =
  net_conn :: "nat option"
  net_ch :: "nat option"
  net_conns :: "nat list"
  net_chans :: "nat list"
  net_next :: nat

definition no_net :: rb_net where
  "no_net = \<lparr>net_conn = None, net_ch = None, net_conns = [], net_chans = [], net_next = 0\<rparr>"

definition closeLocked :: "rb_net \<Rightarrow> rb_net" where
  "closeLocked n =
     (let n = (case net_ch n of None \<Rightarrow> n | Some c \<Rightarrow> n\<lparr>net_chans := removeAll c (net_chans n), net_ch := None\<rparr>)
      in case net_conn n of None \<Rightarrow> n | Some c \<Rightarrow> n\<lparr>net_conns := removeAll c (net_conns n), net_conn := None\<rparr>)"

definition declareAndBind :: "broker \<Rightarrow> string \<Rightarrow> string option" where
  "declareAndBind b key =
     (case am_QueueDeclare b key of
        Some e \<Rightarrow> Some (''queue declare '' @ key @ '': '' @ e)
      | None \<Rightarrow> (case am_QueueBind b key of Some e \<Rightarrow> Some (''queue bind '' @ key @ '': '' @ e) | None \<Rightarrow> None))"

definition connectAndServeLocked :: "broker \<Rightarrow> string \<Rightarrow> string \<Rightarrow> rb_net \<Rightarrow> string option \<times> rb_net" where
  "connectAndServeLocked b remoteKey replyKey n =
     (let n = closeLocked n; i = net_next n in
      case am_Dial b of
        Some e \<Rightarrow> (Some (''dial: '' @ e), n)
      | None \<Rightarrow>
          (let n = n\<lparr>net_conns := i # net_conns n, net_next := Suc i\<rparr> in
           case am_Channel b of
             Some e \<Rightarrow> (Some (''channel: '' @ e), n\<lparr>net_conns := removeAll i (net_conns n)\<rparr>)
           | None \<Rightarrow>
               (let n = n\<lparr>net_chans := i # net_chans n\<rparr>;
                    undo = n\<lparr>net_chans := removeAll i (net_chans n), net_conns := removeAll i (net_conns n)\<rparr> in
                case am_ExchangeDeclare b of
                  Some e \<Rightarrow> (Some (''exchange declare: '' @ e), undo)
                | None \<Rightarrow>
                    (case declareAndBind b remoteKey of
                       Some e \<Rightarrow> (Some e, undo)
                     | None \<Rightarrow>
                         (case declareAndBind b replyKey of
                            Some e \<Rightarrow> (Some e, undo)
                          | None \<Rightarrow>
                              (case am_Consume b remoteKey of
                                 Some e \<Rightarrow> (Some (''consume remote: '' @ e), undo)
                               | None \<Rightarrow>
                                   (case am_Consume b replyKey of
                                      Some e \<Rightarrow> (Some (''consume reply: '' @ e), undo)
                                    | None \<Rightarrow> (None, n\<lparr>net_conn := Some i, net_ch := Some i\<rparr>))))))))"

text \<open>\<open>publish\<close>: what is handed to the broker, and the error; \<open>said\<close> is the answer of the broker.\<close>

definition rb_publish :: "string option \<Rightarrow> string \<Rightarrow> byte list \<Rightarrow> string \<Rightarrow> string \<Rightarrow> rb_net \<Rightarrow> string option \<times> publishing option" where
  "rb_publish said routingKey data replyTo corrID n =
     (case net_ch n of
        None \<Rightarrow> (Some ''rabbitmq channel is not ready'', None)
      | Some _ \<Rightarrow> (said, Some \<lparr>pb_key = routingKey, pb_Body = data, pb_ReplyTo = replyTo, pb_CorrelationId = corrID,
          pb_Headers = [(corrIDHeader, corrID)]\<rparr>))"

section \<open>Receiving\<close>

text \<open>\<open>reply\<close> up to its \<open>publish\<close>: the routing key, the data and the correlation id.\<close>

definition rb_reply ::
  "cluster_wire \<Rightarrow> 'v App option \<Rightarrow> delivery \<Rightarrow> ClusterMessage \<Rightarrow> RequestContext option \<Rightarrow> 'v InvokeResult \<Rightarrow> (string \<times> byte list \<times> string) option" where
  "rb_reply w app message request ctx result =
     (if cm_MsgType request = NOTIFY \<or> dl_ReplyTo message = [] then None
      else
        (let (result, payload) =
           (case (ctx, app) of
              (Some c, Some app) \<Rightarrow>
                if OK (Some result) \<and> Payload result \<noteq> PNil then
                  (case reg_Marshal (app_BodyCodecs app) (Codec c) (Payload result) of
                     Inl _ \<Rightarrow> (ErrorResult STATUS_INTERNAL ''response body encode failed'', [])
                   | Inr body \<Rightarrow> (result, body))
                else (result, [])
            | _ \<Rightarrow> (result, []));
           response = \<lparr>cm_MessageId = cm_MessageId request, cm_MsgType = RESPONSE, cm_RequestId = cm_RequestId request,
              cm_MethodId = cm_MethodId request, cm_DeadlineUnixMs = 0, cm_TargetPath = [], cm_Session = None,
              cm_Metadata = None, cm_Codec = cm_Codec request, cm_Payload = payload, cm_Code = Code result,
              cm_Message = Message result\<rparr>
         in case cw_Marshal w response of
              Inl _ \<Rightarrow> None
            | Inr data \<Rightarrow> Some (dl_ReplyTo message, data, dl_CorrelationId message)))"

definition rb_rejectOverload :: "cluster_wire \<Rightarrow> 'v App option \<Rightarrow> delivery \<Rightarrow> (string \<times> byte list \<times> string) option" where
  "rb_rejectOverload w app message =
     (if dl_ReplyTo message = [] then None
      else case cw_Unmarshal w (dl_Body message) of
        Inl _ \<Rightarrow> None
      | Inr m \<Rightarrow>
          if cm_MsgType m \<noteq> REQUEST then None
          else rb_reply w app message m None (ErrorResult STATUS_RESOURCE_EXHAUSTED ''cluster work queue is full''))"

definition rb_process_begin ::
  "cluster_wire \<Rightarrow> delivery \<Rightarrow> ('v, 'h) System \<Rightarrow> (ClusterMessage \<times> RequestContext \<times> 'v call) option \<times> ('v, 'h) System" where
  "rb_process_begin w message s =
     (case cw_Unmarshal w (dl_Body message) of
        Inl _ \<Rightarrow> (None, s)
      | Inr m \<Rightarrow>
          if rb_validateMessage (Some m) \<noteq> None then (None, s)
          else if cm_MsgType m = RESPONSE then (None, s)
          else
            (let ctx = rb_messageContext (sys_now s) m;
                 (call, s) =
                   (if cm_TargetPath m \<noteq> [] then
                      (if cm_MsgType m = NOTIFY
                       then NotifyTarget (Some ctx) (cm_TargetPath m) (cm_MethodId m) (PBytes (cm_Payload m)) s
                       else InvokeTarget (Some ctx) (cm_TargetPath m) (cm_MethodId m) (PBytes (cm_Payload m)) s)
                    else sys_Dispatch ctx (cm_MethodId m) (cm_Payload m) (cm_MsgType m) s)
             in (Some (m, ctx, call), s)))"

section \<open>The node\<close>

datatype 'v rb_worker =
    RbWaiting
  | RbDraining
  | RbHandling bool delivery ClusterMessage RequestContext "'v call"
  | RbExited

text \<open>
  \<open>watchConnection\<close>: at the top of its loop, waiting for the connection to close, before the check of the stop channel in the inner loop,
  after this check, or returned.
\<close>

datatype watcher = WatchTop | WatchClose | WatchRetry | WatchConnect | WatchGone

text \<open>The last three fields record the publishings handed to the broker, the replies tried, and a connection made after \<open>Stop\<close> had closed it.\<close>

record ('v, 'h) rb_node =
  rb_sys :: "('v, 'h) System"
  rb_work :: "delivery list"
  rb_queueSize :: nat
  rb_workers :: "'v rb_worker list"
  rb_stopping :: bool
  rb_stopped :: bool
  rb_closed :: bool
  rb_net :: rb_net
  rb_watch :: watcher
  rb_accepted :: "delivery list"
  rb_handled :: "delivery list"
  rb_out :: "publishing list"
  rb_tried :: "(string \<times> byte list \<times> string) list"
  rb_late :: bool

definition rb_Init :: "int \<Rightarrow> int \<Rightarrow> broker \<Rightarrow> string \<Rightarrow> string \<Rightarrow> ('v, 'h) System \<Rightarrow> ('v, 'h) rb_node option" where
  "rb_Init workerCount queueSize b remoteKey replyKey s =
     (if workerCount \<le> 0 \<or> queueSize \<le> 0 then None
      else (case connectAndServeLocked b remoteKey replyKey no_net of
              (Some err, _) \<Rightarrow> None
            | (None, net) \<Rightarrow> Some \<lparr>rb_sys = s, rb_work = [], rb_queueSize = nat queueSize,
                rb_workers = replicate (nat workerCount) RbWaiting, rb_stopping = False, rb_stopped = False, rb_closed = False,
                rb_net = net, rb_watch = WatchTop, rb_accepted = [], rb_handled = [], rb_out = [], rb_tried = [], rb_late = False\<rparr>))"

definition rb_send :: "string option \<Rightarrow> (string \<times> byte list \<times> string) option \<Rightarrow> ('v, 'h) rb_node \<Rightarrow> ('v, 'h) rb_node" where
  "rb_send said r n =
     (case r of
        None \<Rightarrow> n
      | Some (key, data, corrID) \<Rightarrow>
          n\<lparr>rb_tried := rb_tried n @ [(key, data, corrID)],
            rb_out := rb_out n @ (case rb_publish said key data [] corrID (rb_net n) of (None, Some p) \<Rightarrow> [p] | _ \<Rightarrow> [])\<rparr>)"

definition rb_enqueue :: "cluster_wire \<Rightarrow> string option \<Rightarrow> delivery \<Rightarrow> ('v, 'h) rb_node \<Rightarrow> ('v, 'h) rb_node" where
  "rb_enqueue w said message n =
     (if rb_stopping n then n
      else if length (rb_work n) < rb_queueSize n
      then n\<lparr>rb_work := rb_work n @ [message], rb_accepted := rb_accepted n @ [message]\<rparr>
      else rb_send said (rb_rejectOverload w (sys_app (rb_sys n)) message) n)"

definition rb_worker_take :: "cluster_wire \<Rightarrow> nat \<Rightarrow> bool \<Rightarrow> delivery \<Rightarrow> delivery list \<Rightarrow> ('v, 'h) rb_node \<Rightarrow> ('v, 'h) rb_node" where
  "rb_worker_take w i draining message rest n =
     (let n = n\<lparr>rb_work := rest\<rparr> in
      case rb_process_begin w message (rb_sys n) of
        (None, s) \<Rightarrow> n\<lparr>rb_sys := s, rb_handled := rb_handled n @ [message]\<rparr>
      | (Some (m, ctx, call), s) \<Rightarrow>
          n\<lparr>rb_sys := s, rb_workers := (rb_workers n)[i := RbHandling draining message m ctx call]\<rparr>)"

definition rb_worker_finish ::
  "cluster_wire \<Rightarrow> string option \<Rightarrow> nat \<Rightarrow> bool \<Rightarrow> delivery \<Rightarrow> ClusterMessage \<Rightarrow> RequestContext \<Rightarrow> 'v InvokeResult \<Rightarrow> ('v, 'h) rb_node \<Rightarrow>
   ('v, 'h) rb_node" where
  "rb_worker_finish w said i draining message m ctx result n =
     rb_send said (rb_reply w (sys_app (rb_sys n)) message m (Some ctx) result)
       (n\<lparr>rb_workers := (rb_workers n)[i := if draining then RbDraining else RbWaiting], rb_handled := rb_handled n @ [message]\<rparr>)"

text \<open>
  The steps. The pumps and the workers: a delivery arrives, a worker takes a message, finishes one, sees the stop, drains or returns. \<open>Stop\<close>:
  it refuses new work, closes the stop channel, and closes the connection once every worker has returned. The watcher: it
  reads the connection, learns that it closed, passes the check of the inner loop, connects. The broker or the network closes a connection;
  the rest of the node does something.
\<close>

inductive rbstep :: "cluster_wire \<Rightarrow> string \<Rightarrow> string \<Rightarrow> ('v, 'h) rb_node \<Rightarrow> ('v, 'h) rb_node \<Rightarrow> bool"
  for w remoteKey replyKey where
  rb_arrive: "rbstep w remoteKey replyKey n (rb_enqueue w said message n)"
| rb_take: "i < length (rb_workers n) \<Longrightarrow> rb_workers n ! i \<in> {RbWaiting, RbDraining} \<Longrightarrow> rb_work n = message # rest \<Longrightarrow>
    rbstep w remoteKey replyKey n (rb_worker_take w i (rb_workers n ! i = RbDraining) message rest n)"
| rb_finish: "i < length (rb_workers n) \<Longrightarrow> rb_workers n ! i = RbHandling b message m ctx call \<Longrightarrow>
    result \<in> call_outcomes call (rb_sys n) \<Longrightarrow> rbstep w remoteKey replyKey n (rb_worker_finish w said i b message m ctx result n)"
| rb_see_stop: "i < length (rb_workers n) \<Longrightarrow> rb_workers n ! i = RbWaiting \<Longrightarrow> rb_stopped n \<Longrightarrow>
    rbstep w remoteKey replyKey n (n\<lparr>rb_workers := (rb_workers n)[i := RbDraining]\<rparr>)"
| rb_drained: "i < length (rb_workers n) \<Longrightarrow> rb_workers n ! i = RbDraining \<Longrightarrow> rb_work n = [] \<Longrightarrow>
    rbstep w remoteKey replyKey n (n\<lparr>rb_workers := (rb_workers n)[i := RbExited]\<rparr>)"
| rb_refuse: "rbstep w remoteKey replyKey n (n\<lparr>rb_stopping := True\<rparr>)"
| rb_close_stop: "rb_stopping n \<Longrightarrow> rbstep w remoteKey replyKey n (n\<lparr>rb_stopped := True\<rparr>)"
| rb_close_conn: "rb_stopped n \<Longrightarrow> set (rb_workers n) \<subseteq> {RbExited} \<Longrightarrow> \<not> rb_closed n \<Longrightarrow>
    rbstep w remoteKey replyKey n (n\<lparr>rb_closed := True, rb_net := closeLocked (rb_net n)\<rparr>)"
| rb_elsewhere: "rbstep w remoteKey replyKey n (n\<lparr>rb_sys := s\<rparr>)"
| rb_lost: "rbstep w remoteKey replyKey n (n\<lparr>rb_net := (rb_net n)\<lparr>net_conns := removeAll c (net_conns (rb_net n)),
    net_chans := removeAll c (net_chans (rb_net n))\<rparr>\<rparr>)"
| rb_top: "rb_watch n = WatchTop \<Longrightarrow>
    rbstep w remoteKey replyKey n (n\<lparr>rb_watch := if net_conn (rb_net n) = None then (if rb_stopped n then WatchGone else WatchTop) else WatchClose\<rparr>)"
| rb_watch_stop: "rb_watch n = WatchClose \<Longrightarrow> rb_stopped n \<Longrightarrow> rbstep w remoteKey replyKey n (n\<lparr>rb_watch := WatchGone\<rparr>)"
| rb_notified: "rb_watch n = WatchClose \<Longrightarrow>
    rbstep w remoteKey replyKey n (n\<lparr>rb_watch := if rb_stopping n then WatchGone else WatchRetry\<rparr>)"
| rb_retry: "rb_watch n = WatchRetry \<Longrightarrow>
    rbstep w remoteKey replyKey n (n\<lparr>rb_watch := if rb_stopped n then WatchGone else WatchConnect\<rparr>)"
| rb_connect: "rb_watch n = WatchConnect \<Longrightarrow> connectAndServeLocked b remoteKey replyKey (rb_net n) = (err, net) \<Longrightarrow>
    rbstep w remoteKey replyKey n (n\<lparr>rb_net := net, rb_watch := if err = None then WatchTop else WatchRetry,
      rb_late := (rb_late n \<or> rb_closed n \<and> err = None)\<rparr>)"

inductive rbreach :: "cluster_wire \<Rightarrow> string \<Rightarrow> string \<Rightarrow> ('v, 'h) rb_node \<Rightarrow> bool" for w remoteKey replyKey where
  rb_init: "rb_Init workerCount queueSize b remoteKey replyKey s = Some n \<Longrightarrow> rbreach w remoteKey replyKey n"
| rb_step: "rbreach w remoteKey replyKey n \<Longrightarrow> rbstep w remoteKey replyKey n n' \<Longrightarrow> rbreach w remoteKey replyKey n'"

section \<open>The NATS cluster underneath\<close>

definition to_nats :: "delivery \<Rightarrow> nats_msg" where
  "to_nats d = \<lparr>nm_Subject = dl_RoutingKey d, nm_Reply = dl_ReplyTo d, nm_ReqID = dl_CorrelationId d, nm_Data = dl_Body d\<rparr>"

definition reply_to_nats :: "string \<times> byte list \<times> string \<Rightarrow> nats_msg" where
  "reply_to_nats r = (case r of (key, data, corrID) \<Rightarrow> \<lparr>nm_Subject = key, nm_Reply = [], nm_ReqID = corrID, nm_Data = data\<rparr>)"

fun worker_to_nats :: "'v rb_worker \<Rightarrow> 'v worker" where
  "worker_to_nats RbWaiting = Waiting"
| "worker_to_nats RbDraining = Draining"
| "worker_to_nats (RbHandling b d m ctx call) = Handling b (to_nats d) m ctx call"
| "worker_to_nats RbExited = Exited"

definition rb_abs :: "('v, 'h) rb_node \<Rightarrow> ('v, 'h) node" where
  "rb_abs n = \<lparr>nd_sys = rb_sys n, nd_work = map to_nats (rb_work n), nd_queueSize = rb_queueSize n,
     nd_workers = map worker_to_nats (rb_workers n), nd_stopping = rb_stopping n, nd_stopped = rb_stopped n, nd_closed = rb_closed n,
     nd_out = map reply_to_nats (rb_tried n), nd_accepted = map to_nats (rb_accepted n), nd_handled = map to_nats (rb_handled n)\<rparr>"

lemma rb_validate: "rb_validateMessage = validateMessage"
  unfolding rb_validateMessage_def validateMessage_def by (rule refl)

lemma rb_context: "rb_messageContext = messageContext"
  unfolding rb_messageContext_def messageContext_def by (rule refl)

lemma rb_process: "rb_process_begin w d s = process_begin w (to_nats d) s"
  unfolding rb_process_begin_def process_begin_def rb_validate rb_context by (simp add: to_nats_def)

lemma rb_reply_nats: "map_option reply_to_nats (rb_reply w app d m ctx r) = reply w app None (to_nats d) m ctx r"
  unfolding rb_reply_def reply_def
  by (simp add: to_nats_def GetMsg_def new_nats_msg_def reply_to_nats_def Let_def split: sum.split prod.split)

lemma rb_reject_nats: "map_option reply_to_nats (rb_rejectOverload w app d) = rejectOverload w app None (to_nats d)"
  unfolding rb_rejectOverload_def rejectOverload_def
  by (simp add: rb_reply_nats to_nats_def split: sum.split)

lemma rb_send_abs: "rb_abs (rb_send said r n) = publish_reply (map_option reply_to_nats r) (rb_abs n)"
  by (cases r) (auto simp: rb_send_def rb_abs_def publish_reply_def split: prod.split)

lemma rb_enqueue_abs: "rb_abs (rb_enqueue w said d n) = cluster_enqueue w None (to_nats d) (rb_abs n)"
proof -
  have f: "nd_stopping (rb_abs n) = rb_stopping n" "nd_work (rb_abs n) = map to_nats (rb_work n)" "nd_queueSize (rb_abs n) = rb_queueSize n"
    "nd_sys (rb_abs n) = rb_sys n" "nd_accepted (rb_abs n) = map to_nats (rb_accepted n)" by (simp_all add: rb_abs_def)
  show ?thesis unfolding rb_enqueue_def cluster_enqueue_def f
    by (simp add: rb_send_abs rb_reject_nats) (simp add: rb_abs_def)
qed

lemma rb_take_abs: "rb_abs (rb_worker_take w i b d rest n) = worker_take w i b (to_nats d) (map to_nats rest) (rb_abs n)"
  by (simp add: rb_worker_take_def worker_take_def Let_def rb_process rb_abs_def map_update split: prod.split option.split)

lemma rb_finish_abs: "rb_abs (rb_worker_finish w said i b d m ctx r n) = worker_finish w None i b (to_nats d) m ctx r (rb_abs n)"
proof -
  have "sys_app (nd_sys (rb_abs n)) = sys_app (rb_sys n)" by (simp add: rb_abs_def)
  then show ?thesis unfolding rb_worker_finish_def worker_finish_def rb_send_abs rb_reply_nats
    by (simp add: rb_abs_def map_update)
qed

lemma worker_nth: "i < length (rb_workers n) \<Longrightarrow> nd_workers (rb_abs n) ! i = worker_to_nats (rb_workers n ! i)"
  by (simp add: rb_abs_def)

lemma worker_eqs: "worker_to_nats x = Waiting \<longleftrightarrow> x = RbWaiting" "worker_to_nats x = Draining \<longleftrightarrow> x = RbDraining" "worker_to_nats x = Exited \<longleftrightarrow> x = RbExited"
  by (cases x; simp)+

lemma rbstep_nstep: "rbstep w rk pk n n' \<Longrightarrow> nstep w (rb_abs n) (rb_abs n') \<or> rb_abs n' = rb_abs n"
proof (induction rule: rbstep.induct)
  case (rb_arrive n said message)
  show ?case unfolding rb_enqueue_abs by (rule disjI1, rule arrive)
next
  case (rb_take i n message rest)
  have l: "i < length (nd_workers (rb_abs n))" "nd_work (rb_abs n) = to_nats message # map to_nats rest" using rb_take by (simp_all add: rb_abs_def)
  have "nd_workers (rb_abs n) ! i \<in> {Waiting, Draining}" "(nd_workers (rb_abs n) ! i = Draining) = (rb_workers n ! i = RbDraining)"
    using rb_take(1,2) by (auto simp: worker_nth worker_eqs)
  then show ?case using take [OF l(1) _ l(2), of w] unfolding rb_take_abs by simp
next
  case (rb_finish i n b message m ctx call result said)
  have l: "i < length (nd_workers (rb_abs n))" "result \<in> call_outcomes call (nd_sys (rb_abs n))" using rb_finish by (simp_all add: rb_abs_def)
  have "nd_workers (rb_abs n) ! i = Handling b (to_nats message) m ctx call" using rb_finish(1,2) by (simp add: worker_nth)
  from finish [OF l(1) this l(2)] show ?case unfolding rb_finish_abs by blast
next
  case (rb_see_stop i n)
  have "rb_abs (n\<lparr>rb_workers := (rb_workers n)[i := RbDraining]\<rparr>) = (rb_abs n)\<lparr>nd_workers := (nd_workers (rb_abs n))[i := Draining]\<rparr>"
    by (simp add: rb_abs_def map_update)
  moreover have "i < length (nd_workers (rb_abs n))" "nd_workers (rb_abs n) ! i = Waiting" "nd_stopped (rb_abs n)"
    using rb_see_stop by (simp_all add: rb_abs_def)
  ultimately show ?case using see_stop by metis
next
  case (rb_drained i n)
  have "rb_abs (n\<lparr>rb_workers := (rb_workers n)[i := RbExited]\<rparr>) = (rb_abs n)\<lparr>nd_workers := (nd_workers (rb_abs n))[i := Exited]\<rparr>"
    by (simp add: rb_abs_def map_update)
  moreover have "i < length (nd_workers (rb_abs n))" "nd_workers (rb_abs n) ! i = Draining" "nd_work (rb_abs n) = []"
    using rb_drained by (simp_all add: rb_abs_def)
  ultimately show ?case using drained by metis
next
  case (rb_refuse n)
  have "rb_abs (n\<lparr>rb_stopping := True\<rparr>) = (rb_abs n)\<lparr>nd_stopping := True\<rparr>" by (simp add: rb_abs_def)
  then show ?case using refuse [of w "rb_abs n"] by simp
next
  case (rb_close_stop n)
  have "rb_abs (n\<lparr>rb_stopped := True\<rparr>) = (rb_abs n)\<lparr>nd_stopped := True\<rparr>" "nd_stopping (rb_abs n)" using rb_close_stop by (simp_all add: rb_abs_def)
  then show ?case using close_stop [of "rb_abs n" w] by simp
next
  case (rb_close_conn n)
  have "rb_abs (n\<lparr>rb_closed := True, rb_net := closeLocked (rb_net n)\<rparr>) = (rb_abs n)\<lparr>nd_closed := True\<rparr>" by (simp add: rb_abs_def)
  moreover have "nd_stopped (rb_abs n)" "set (nd_workers (rb_abs n)) \<subseteq> {Exited}" using rb_close_conn by (auto simp: rb_abs_def)
  ultimately show ?case using close_conn [of "rb_abs n" w] by simp
next
  case (rb_elsewhere n s)
  have "rb_abs (n\<lparr>rb_sys := s\<rparr>) = (rb_abs n)\<lparr>nd_sys := s\<rparr>" by (simp add: rb_abs_def)
  then show ?case using elsewhere [of w "rb_abs n" s] by simp
qed (simp_all add: rb_abs_def)

lemma rb_Init_abs:
  assumes "rb_Init workerCount queueSize b rk pk s = Some n"
  shows "cluster_Init workerCount queueSize s = Some (rb_abs n)"
  using assms by (auto simp: rb_Init_def cluster_Init_def rb_abs_def split: if_splits prod.splits option.splits)

lemma rbreach_nreach: "rbreach w rk pk n \<Longrightarrow> nreach w (rb_abs n)"
proof (induction rule: rbreach.induct)
  case (rb_init workerCount queueSize b s n)
  then show ?case by (intro nreach.init [OF rb_Init_abs])
next
  case (rb_step n n')
  then show ?case using rbstep_nstep nreach.step by metis
qed

section \<open>Connections\<close>

definition net_ok :: "rb_net \<Rightarrow> bool" where
  "net_ok n \<longleftrightarrow> length (net_conns n) \<le> 1 \<and> length (net_chans n) \<le> 1 \<and>
     set (net_conns n) \<subseteq> set_option (net_conn n) \<and> set (net_chans n) \<subseteq> set_option (net_ch n)"

lemma removeAll_one: "length xs \<le> 1 \<Longrightarrow> set xs \<subseteq> {c} \<Longrightarrow> removeAll c xs = []"
  by (cases xs) auto

lemma closeLocked_ok: "net_ok n \<Longrightarrow> closeLocked n = n\<lparr>net_conns := [], net_chans := [], net_conn := None, net_ch := None\<rparr>"
  by (cases "net_conn n"; cases "net_ch n"; cases n)
    (auto simp: closeLocked_def net_ok_def Let_def removeAll_one)

lemma connect_ok:
  assumes "net_ok n" "connectAndServeLocked b rk pk n = (err, n')"
  shows "net_ok n'" "err \<noteq> None \<Longrightarrow> net_conns n' = [] \<and> net_chans n' = [] \<and> net_conn n' = None \<and> net_ch n' = None"
    "err = None \<Longrightarrow> net_conns n' = [net_next n] \<and> net_chans n' = [net_next n] \<and> net_conn n' = Some (net_next n) \<and> net_ch n' = Some (net_next n)"
  using assms(2) unfolding connectAndServeLocked_def closeLocked_ok [OF assms(1)] Let_def
  by (auto simp: net_ok_def split: option.splits)

definition rb_inv :: "('v, 'h) rb_node \<Rightarrow> bool" where
  "rb_inv n \<longleftrightarrow> net_ok (rb_net n) \<and> (rb_closed n \<longrightarrow> \<not> rb_late n \<longrightarrow> net_conns (rb_net n) = [] \<and> net_chans (rb_net n) = [])"

lemma rb_send_net [simp]: "rb_net (rb_send said r n) = rb_net n" "rb_closed (rb_send said r n) = rb_closed n" "rb_late (rb_send said r n) = rb_late n"
  by (simp_all add: rb_send_def split: option.split prod.split)

lemma removeAll_le: "length xs \<le> Suc 0 \<Longrightarrow> length (removeAll c xs) \<le> Suc 0"
  by (cases xs) auto

lemma rbstep_inv: "rbstep w rk pk n n' \<Longrightarrow> rb_inv n \<Longrightarrow> rb_inv n'"
proof (induction rule: rbstep.induct)
  case (rb_connect n b err net)
  have n: "net_ok (rb_net n)" using rb_connect.prems by (simp add: rb_inv_def)
  show ?case using connect_ok [OF n rb_connect.hyps(2)] rb_connect.prems by (cases err) (auto simp: rb_inv_def)
next
  case (rb_close_conn n)
  then show ?case using closeLocked_ok [of "rb_net n"] by (simp add: rb_inv_def net_ok_def)
next
  case (rb_lost n c)
  then show ?case by (auto simp: rb_inv_def net_ok_def intro: removeAll_le)
qed (auto simp: rb_inv_def rb_enqueue_def rb_worker_take_def rb_worker_finish_def Let_def split: prod.split option.split)

lemma rbreach_inv: "rbreach w rk pk n \<Longrightarrow> rb_inv n"
proof (induction rule: rbreach.induct)
  case (rb_init workerCount queueSize b s n)
  obtain net where net: "connectAndServeLocked b rk pk no_net = (None, net)" "rb_net n = net" "\<not> rb_closed n"
    using rb_init by (auto simp: rb_Init_def split: if_splits prod.splits option.splits)
  have "net_ok no_net" by (simp add: net_ok_def no_net_def)
  then show ?case using connect_ok(1) [OF _ net(1)] net(2,3) by (simp add: rb_inv_def)
qed (rule rbstep_inv)

section \<open>Sending\<close>

text \<open>How the wait of a request ends.\<close>

datatype rb_outcome = PublishFailed string | Replied "byte list" | TimedOut

definition rb_Request ::
  "cluster_wire \<Rightarrow> string \<Rightarrow> DiscoveryDefault \<Rightarrow> int \<Rightarrow> (string \<Rightarrow> byte list \<Rightarrow> int \<Rightarrow> rb_outcome) \<Rightarrow>
   string \<Rightarrow> ClusterMessage \<Rightarrow> int \<Rightarrow> string + ClusterMessage" where
  "rb_Request w prefix disc requestTimeout rpc nodeID message timeout =
     (case nodeRoutingKey prefix disc nodeID of
        Inl err \<Rightarrow> Inl err
      | Inr routingKey \<Rightarrow>
          (case rb_validateMessage (Some message) of
             Some err \<Rightarrow> Inl err
           | None \<Rightarrow>
               (case cw_Marshal w message of
                  Inl err \<Rightarrow> Inl (''actorgo cluster: marshal message: '' @ err)
                | Inr data \<Rightarrow>
                    (let timeout = (if timeout \<le> 0 then requestTimeout else timeout) in
                     case rpc routingKey data timeout of
                       PublishFailed err \<Rightarrow> Inl (''actorgo cluster: request: '' @ err)
                     | TimedOut \<Rightarrow> Inl ClusterRequestTimeout
                     | Replied body \<Rightarrow>
                         (case cw_Unmarshal w body of
                            Inl err \<Rightarrow> Inl (''actorgo cluster: unmarshal response: '' @ err)
                          | Inr response \<Rightarrow>
                              if cm_MsgType response \<noteq> RESPONSE \<or> cm_MessageId response \<noteq> cm_MessageId message
                              then Inl ''actorgo cluster: response correlation mismatch''
                              else Inr response)))))"

definition rb_Publish ::
  "cluster_wire \<Rightarrow> string \<Rightarrow> DiscoveryDefault \<Rightarrow> string option \<Rightarrow> rb_net \<Rightarrow> string \<Rightarrow> ClusterMessage \<Rightarrow> string option" where
  "rb_Publish w prefix disc said n nodeID message =
     (case nodeRoutingKey prefix disc nodeID of
        Inl err \<Rightarrow> Some err
      | Inr routingKey \<Rightarrow>
          (case rb_validateMessage (Some message) of
             Some err \<Rightarrow> Some err
           | None \<Rightarrow>
               (case cw_Marshal w message of
                  Inl err \<Rightarrow> Some (''actorgo cluster: marshal message: '' @ err)
                | Inr data \<Rightarrow>
                    (case fst (rb_publish said routingKey data [] [] n) of
                       Some err \<Rightarrow> Some (''actorgo cluster: publish: '' @ err)
                     | None \<Rightarrow> None))))"

text \<open>The same request over NATS, when the wait ends the same way.\<close>

definition nats_rpc :: "int \<Rightarrow> (string \<Rightarrow> byte list \<Rightarrow> int \<Rightarrow> rb_outcome) \<Rightarrow> string \<Rightarrow> byte list \<Rightarrow> int \<Rightarrow> string + byte list" where
  "nats_rpc requestTimeout rpc subject data timeout =
     (case rpc subject data (if timeout \<le> 0 then requestTimeout else timeout) of
        PublishFailed err \<Rightarrow> Inl err
      | TimedOut \<Rightarrow> Inl ClusterRequestTimeout
      | Replied body \<Rightarrow> Inr body)"

lemma routing_key_subject: "nodeRoutingKey = nodeSubject"
  unfolding nodeRoutingKey_def nodeSubject_def GetRemoteRoutingKey_def GetRemoteSubject_def by (rule refl)

section \<open>Waiting for replies\<close>

text \<open>The requests of a node: waiters, running calls, the publishings sent, the deliveries on the reply queue, the results.\<close>

record rb_rpc =
  rr_replyKey :: string
  rr_wait :: "delivery waiters"
  rr_calls :: "(string \<times> nat) list"
  rr_count :: nat
  rr_sent :: "publishing list"
  rr_arrived :: "delivery list"
  rr_results :: "(string \<times> (string + byte list)) list"

definition rr_new :: "string \<Rightarrow> rb_rpc" where
  "rr_new replyKey = \<lparr>rr_replyKey = replyKey, rr_wait = no_waiters, rr_calls = [], rr_count = 0, rr_sent = [], rr_arrived = [], rr_results = []\<rparr>"

definition pumpReply :: "delivery \<Rightarrow> delivery waiters \<Rightarrow> delivery waiters" where
  "pumpReply d w = (if dl_CorrelationId d = [] then w else wait_reply (dl_CorrelationId d) d w)"

definition rr_begin :: "string \<Rightarrow> byte list \<Rightarrow> rb_rpc \<Rightarrow> rb_rpc" where
  "rr_begin key data r =
     (let (call, w) = wait_new (rr_wait r) in
      r\<lparr>rr_wait := w, rr_calls := call # rr_calls r, rr_count := Suc (rr_count r),
        rr_sent := rr_sent r @ [\<lparr>pb_key = key, pb_Body = data, pb_ReplyTo = rr_replyKey r, pb_CorrelationId = fst call,
          pb_Headers = [(corrIDHeader, fst call)]\<rparr>]\<rparr>)"

text \<open>The end of a request, with the deferred \<open>Delete\<close>.\<close>

definition rr_end :: "string \<Rightarrow> nat \<Rightarrow> string + byte list \<Rightarrow> delivery waiters \<Rightarrow> rb_rpc \<Rightarrow> rb_rpc" where
  "rr_end corrID ch result w r =
     r\<lparr>rr_wait := wait_delete corrID w, rr_calls := removeAll (corrID, ch) (rr_calls r), rr_results := rr_results r @ [(corrID, result)]\<rparr>"

inductive rrstep :: "rb_rpc \<Rightarrow> rb_rpc \<Rightarrow> bool" where
  rr_call: "rrstep r (rr_begin key data r)"
| rr_reply: "rrstep r (r\<lparr>rr_wait := pumpReply d (rr_wait r), rr_arrived := rr_arrived r @ [d]\<rparr>)"
| rr_receive: "(i, ch) \<in> set (rr_calls r) \<Longrightarrow> wait_receive ch (rr_wait r) = Some (d, w) \<Longrightarrow> rrstep r (rr_end i ch (Inr (dl_Body d)) w r)"
| rr_timeout: "(i, ch) \<in> set (rr_calls r) \<Longrightarrow> rrstep r (rr_end i ch (Inl ClusterRequestTimeout) (rr_wait r) r)"
| rr_failed: "(i, ch) \<in> set (rr_calls r) \<Longrightarrow> rrstep r (rr_end i ch (Inl err) (rr_wait r) r)"

inductive rrreach :: "rb_rpc \<Rightarrow> bool" where
  rr_start: "rrreach (rr_new replyKey)"
| rr_next: "rrreach r \<Longrightarrow> rrstep r r' \<Longrightarrow> rrreach r'"

definition map_wait :: "('a \<Rightarrow> 'b) \<Rightarrow> 'a waiters \<Rightarrow> 'b waiters" where
  "map_wait f w = \<lparr>wt_seq = wt_seq w, wt_waiters = wt_waiters w, wt_chan = (\<lambda>ch. map f (wt_chan w ch)), wt_next = wt_next w\<rparr>"

lemma map_wait_ops:
  "map_wait f no_waiters = no_waiters"
  "wait_new (map_wait f w) = (let (call, w') = wait_new w in (call, map_wait f w'))"
  "wait_reply i (f d) (map_wait f w) = map_wait f (wait_reply i d w)"
  "wait_delete i (map_wait f w) = map_wait f (wait_delete i w)"
  "wait_receive ch (map_wait f w) = map_option (\<lambda>(d, w'). (f d, map_wait f w')) (wait_receive ch w)"
  by (auto simp: map_wait_def no_waiters_def wait_new_def wait_reply_def wait_delete_def wait_receive_def Let_def fun_eq_iff
      split: option.split list.split)

definition rr_abs :: "rb_rpc \<Rightarrow> rpc" where
  "rr_abs r = \<lparr>rp_conn = \<lparr>co_id = 0, co_reply = rr_replyKey r, co_wait = map_wait to_nats (rr_wait r)\<rparr>, rp_calls = rr_calls r, rp_count = rr_count r,
     rp_sent = map (\<lambda>p. \<lparr>nm_Subject = pb_key p, nm_Reply = pb_ReplyTo p, nm_ReqID = pb_CorrelationId p, nm_Data = pb_Body p\<rparr>) (rr_sent r),
     rp_arrived = map to_nats (rr_arrived r), rp_results = rr_results r\<rparr>"

lemma rrstep_rstep: "rrstep r r' \<Longrightarrow> rpc_inv (rr_abs r) \<Longrightarrow> rstep (rr_abs r) (rr_abs r')"
proof (induction rule: rrstep.induct)
  case (rr_call r key data)
  obtain c w where w: "wait_new (rr_wait r) = (c, w)" by (cases "wait_new (rr_wait r)") blast
  obtain msg co where b: "RequestSync_begin key data None (rp_conn (rr_abs r)) = (c, msg, co)"
    and m: "msg = \<lparr>nm_Subject = key, nm_Reply = rr_replyKey r, nm_ReqID = fst c, nm_Data = data\<rparr>"
    and co: "co = (rp_conn (rr_abs r))\<lparr>co_wait := map_wait to_nats w\<rparr>"
    using w by (simp add: RequestSync_begin_def rr_abs_def map_wait_ops GetMsg_def new_nats_msg_def)
  have "rr_abs (rr_begin key data r) = (rr_abs r)\<lparr>rp_conn := co, rp_calls := c # rp_calls (rr_abs r), rp_count := Suc (rp_count (rr_abs r)),
      rp_sent := rp_sent (rr_abs r) @ [msg]\<rparr>"
    unfolding m co by (simp add: rr_begin_def w rr_abs_def)
  then show ?case using rstep.call [OF b] by simp
next
  case (rr_reply r d)
  have "on_reply (to_nats d) (rp_conn (rr_abs r)) = (rp_conn (rr_abs r))\<lparr>co_wait := map_wait to_nats (pumpReply d (rr_wait r))\<rparr>"
    using map_wait_ops(3) [of "dl_CorrelationId d" to_nats d "rr_wait r"] by (simp add: on_reply_def rr_abs_def pumpReply_def) (simp add: to_nats_def)
  then have "rr_abs (r\<lparr>rr_wait := pumpReply d (rr_wait r), rr_arrived := rr_arrived r @ [d]\<rparr>) =
      (rr_abs r)\<lparr>rp_conn := on_reply (to_nats d) (rp_conn (rr_abs r)), rp_arrived := rp_arrived (rr_abs r) @ [to_nats d]\<rparr>"
    by (simp add: rr_abs_def)
  then show ?case using rstep.reply by metis
next
  case (rr_receive i ch r d w)
  have r: "RequestSync_receive ch (rp_conn (rr_abs r)) = Some (dl_Body d, (rp_conn (rr_abs r))\<lparr>co_wait := map_wait to_nats w\<rparr>)"
    using rr_receive(2) by (simp add: RequestSync_receive_def rr_abs_def map_wait_ops) (simp add: to_nats_def)
  have W: "wait_inv nm_ReqID (rr_count r) (rr_calls r) (map_wait to_nats (rr_wait r))"
    using rpc_invD(1) [OF rr_receive.prems] by (simp add: rr_abs_def)
  have ne: "wt_chan (rr_wait r) ch \<noteq> []" "wt_waiters w = wt_waiters (rr_wait r)"
    using rr_receive(2) by (auto simp: wait_receive_def split: list.splits)
  have "call_ok nm_ReqID (rr_count r) (map_wait to_nats (rr_wait r)) i ch" using wait_invD(3) [OF W rr_receive(1)] .
  then have "map_of (wt_waiters w) i = None" using ne by (auto simp: call_ok_def map_wait_def)
  then have "AList.delete i (wt_waiters w) = wt_waiters w" by (intro AList.delete_id) (auto simp: map_of_eq_None_iff)
  then have d: "wait_delete i w = w" by (simp add: wait_delete_def)
  have "(i, ch) \<in> set (rp_calls (rr_abs r))" using rr_receive(1) by (simp add: rr_abs_def)
  from rstep.receive [OF this r] show ?case by (simp add: rr_end_def rr_abs_def d)
next
  case (rr_timeout i ch r)
  have "(i, ch) \<in> set (rp_calls (rr_abs r))" using rr_timeout(1) by (simp add: rr_abs_def)
  moreover have "RequestSync_timeout i (rp_conn (rr_abs r)) =
      (ClusterRequestTimeout, (rp_conn (rr_abs r))\<lparr>co_wait := map_wait to_nats (wait_delete i (rr_wait r))\<rparr>)"
    by (simp add: RequestSync_timeout_def rr_abs_def map_wait_ops)
  ultimately have "rstep (rr_abs r) ((rr_abs r)\<lparr>rp_conn := (rp_conn (rr_abs r))\<lparr>co_wait := map_wait to_nats (wait_delete i (rr_wait r))\<rparr>,
      rp_calls := removeAll (i, ch) (rp_calls (rr_abs r)), rp_results := rp_results (rr_abs r) @ [(i, Inl ClusterRequestTimeout)]\<rparr>)"
    by (rule rstep.timeout)
  then show ?case by (simp add: rr_end_def rr_abs_def)
next
  case (rr_failed i ch r err)
  have "(i, ch) \<in> set (rp_calls (rr_abs r))" using rr_failed(1) by (simp add: rr_abs_def)
  from rstep.failed [OF this, of err] show ?case
    by (simp add: rr_end_def rr_abs_def RequestSync_fail_def map_wait_ops)
qed

lemma rrstep_count: "rrstep r r' \<Longrightarrow> rr_count r \<le> rr_count r'"
  by (induction rule: rrstep.induct) (auto simp: rr_begin_def rr_end_def split: prod.split)

lemma rrreach_inv: "rrreach r \<Longrightarrow> rr_count r < 2 ^ 64 \<Longrightarrow> rpc_inv (rr_abs r)"
proof (induction rule: rrreach.induct)
  case (rr_start replyKey)
  show ?case by (rule rpc_invI) (simp_all add: rr_abs_def rr_new_def map_wait_ops wait_inv_init wt_chan_no_waiters)
next
  case (rr_next r r')
  have "rpc_inv (rr_abs r)" using rr_next rrstep_count [OF rr_next(2)] by simp
  moreover have "rp_count (rr_abs r') < 2 ^ 64" using rr_next.prems by (simp add: rr_abs_def)
  ultimately show ?case using rstep_inv [OF rrstep_rstep [OF rr_next(2)]] by blast
qed

section \<open>The RabbitMQ cluster against the NATS cluster\<close>

lemma to_nats_inj: "inj to_nats"
  by (rule injI) (simp add: to_nats_def)

text \<open>
  C18. A RabbitMQ node does what a NATS node does. Every reachable state, read as a state of the NATS pool, is reachable there, and every step of the
  node is a step of the NATS node or not visible to it (a reconnect, the watcher); so once the connection is closed by \<open>Stop\<close>, every delivery that was
  accepted has been handled.
\<close>

theorem rabbit_refines_nats:
  assumes "rbreach w remoteKey replyKey n"
  shows "nreach w (rb_abs n) \<and>
    (rbstep w remoteKey replyKey n n' \<longrightarrow> nstep w (rb_abs n) (rb_abs n') \<or> rb_abs n' = rb_abs n) \<and>
    (rb_closed n \<longrightarrow> mset (rb_accepted n) = mset (rb_handled n))"
proof (intro conjI impI)
  show r: "nreach w (rb_abs n)" using assms by (rule rbreach_nreach)
  show "nstep w (rb_abs n) (rb_abs n') \<or> rb_abs n' = rb_abs n" if "rbstep w remoteKey replyKey n n'" using that by (rule rbstep_nstep)
  assume "rb_closed n"
  then have "mset (map to_nats (rb_accepted n)) = mset (map to_nats (rb_handled n))"
    using closed_all_handled [OF nreach_inv [OF r]] by (simp add: rb_abs_def)
  then have "image_mset (inv to_nats \<circ> to_nats) (mset (rb_accepted n)) = image_mset (inv to_nats \<circ> to_nats) (mset (rb_handled n))"
    by (metis image_mset.compositionality mset_map)
  then show "mset (rb_accepted n) = mset (rb_handled n)" using to_nats_inj by (simp add: comp_def)
qed

text \<open>
  A request over RabbitMQ answers what the same request answers over NATS when the wait for the reply ends the same way; a timeout is
  the same error without the prefix.
\<close>

theorem rabbit_request_agrees:
  "(rb_Request w prefix disc requestTimeout rpc nodeID message timeout = Inr m \<longleftrightarrow>
      cluster_Request w prefix disc (nats_rpc requestTimeout rpc) nodeID message timeout = Inr m) \<and>
   (rb_Request w prefix disc requestTimeout rpc nodeID message timeout = Inl e \<longrightarrow>
      cluster_Request w prefix disc (nats_rpc requestTimeout rpc) nodeID message timeout = Inl e \<or>
      e = ClusterRequestTimeout \<and>
      cluster_Request w prefix disc (nats_rpc requestTimeout rpc) nodeID message timeout = Inl (''actorgo cluster: request: '' @ e))"
  unfolding rb_Request_def cluster_Request_def rb_validate routing_key_subject nats_rpc_def
  by (auto simp: Let_def split: sum.split option.split rb_outcome.split)

text \<open>
  Replies reach their request. While the request counter has not wrapped, a request is answered at most once, an answer is the body of a delivery
  that arrived with the correlation id of this request, and no waiter outlives its request.
\<close>

theorem rabbit_correlated:
  assumes "rrreach r" "rr_count r < 2 ^ 64"
  shows "distinct (map fst (rr_results r) @ map fst (rr_calls r)) \<and>
    (\<forall>i data. (i, Inr data) \<in> set (rr_results r) \<longrightarrow> (\<exists>d \<in> set (rr_arrived r). dl_CorrelationId d = i \<and> dl_Body d = data)) \<and>
    mkeys (wt_waiters (rr_wait r)) \<subseteq> mkeys (rr_calls r)"
proof (intro conjI allI impI)
  have I: "rpc_inv (rr_abs r)" using assms by (rule rrreach_inv)
  have W: "wait_inv nm_ReqID (rr_count r) (rr_calls r) (map_wait to_nats (rr_wait r))" using rpc_invD(1) [OF I] by (simp add: rr_abs_def)
  have R: "(i, x) \<in> set (rr_results r) \<Longrightarrow> result_ok (rr_abs r) i x" for i x using rpc_invD(3) [OF I] by (simp add: rr_abs_def)
  have "(i, y) \<notin> set (rr_calls r)" if "(i, x) \<in> set (rr_results r)" for i x y
    using R [OF that] by (simp add: result_ok_def rr_abs_def)
  then show "distinct (map fst (rr_results r) @ map fst (rr_calls r))"
    using rpc_invD(2) [OF I] wait_invD(6) [OF W] by (auto simp: rr_abs_def)
  show "mkeys (wt_waiters (rr_wait r)) \<subseteq> mkeys (rr_calls r)" using wait_invD(4) [OF W] by (simp add: map_wait_def)
  show "\<exists>d \<in> set (rr_arrived r). dl_CorrelationId d = i \<and> dl_Body d = data" if "(i, Inr data) \<in> set (rr_results r)" for i data
    using R [OF that] by (auto simp: result_ok_def rr_abs_def to_nats_def)
qed

section \<open>Reconnecting\<close>

definition good_broker :: broker where
  "good_broker = \<lparr>am_Dial = None, am_Channel = None, am_ExchangeDeclare = None, am_QueueDeclare = (\<lambda>_. None), am_QueueBind = (\<lambda>_. None), am_Consume = (\<lambda>_. None)\<rparr>"

lemma good_connect: "connectAndServeLocked good_broker rk pk n =
    (None, (closeLocked n)\<lparr>net_conns := net_next (closeLocked n) # net_conns (closeLocked n), net_next := Suc (net_next (closeLocked n)),
       net_chans := net_next (closeLocked n) # net_chans (closeLocked n), net_conn := Some (net_next (closeLocked n)), net_ch := Some (net_next (closeLocked n))\<rparr>)"
  by (simp add: connectAndServeLocked_def good_broker_def declareAndBind_def Let_def)

text \<open>A node whose watcher has passed the check of the stop channel when \<open>Stop\<close> closes the connection: it connects again, and only then sees the stop.\<close>

definition leak_start :: "('v, 'h) System \<Rightarrow> ('v, 'h) rb_node" where
  "leak_start s = \<lparr>rb_sys = s, rb_work = [], rb_queueSize = 1, rb_workers = [RbWaiting], rb_stopping = False, rb_stopped = False, rb_closed = False,
     rb_net = \<lparr>net_conn = Some 0, net_ch = Some 0, net_conns = [0], net_chans = [0], net_next = 1\<rparr>, rb_watch = WatchTop, rb_accepted = [],
     rb_handled = [], rb_out = [], rb_tried = [], rb_late = False\<rparr>"

definition leak_stopped :: "('v, 'h) System \<Rightarrow> ('v, 'h) rb_node" where
  "leak_stopped s = (leak_start s)\<lparr>rb_watch := WatchConnect, rb_stopping := True, rb_stopped := True, rb_workers := [RbExited], rb_closed := True,
     rb_net := \<lparr>net_conn = None, net_ch = None, net_conns = [], net_chans = [], net_next = 1\<rparr>\<rparr>"

definition leak_end :: "('v, 'h) System \<Rightarrow> ('v, 'h) rb_node" where
  "leak_end s = (leak_stopped s)\<lparr>rb_watch := WatchGone, rb_late := True,
     rb_net := \<lparr>net_conn = Some 1, net_ch = Some 1, net_conns = [1], net_chans = [1], net_next = 2\<rparr>\<rparr>"


lemma leak_reach: "rbreach w rk pk (leak_end s)"
proof -
  have c0: "closeLocked no_net = no_net" by (simp add: closeLocked_def no_net_def Let_def)
  have "rb_Init 1 1 good_broker rk pk s = Some (leak_start s)"
    unfolding rb_Init_def good_connect c0 by (simp add: no_net_def leak_start_def)
  then have r0: "rbreach w rk pk (leak_start s)" by (rule rb_init)
  define n1 where "n1 = (leak_start s)\<lparr>rb_watch := WatchClose\<rparr>"
  define n2 where "n2 = n1\<lparr>rb_watch := WatchRetry\<rparr>"
  define n3 where "n3 = n2\<lparr>rb_watch := WatchConnect\<rparr>"
  define n4 where "n4 = n3\<lparr>rb_stopping := True\<rparr>"
  define n5 where "n5 = n4\<lparr>rb_stopped := True\<rparr>"
  define n6 where "n6 = n5\<lparr>rb_workers := [RbDraining]\<rparr>"
  define n7 where "n7 = n6\<lparr>rb_workers := [RbExited]\<rparr>"
  define n8 where "n8 = n7\<lparr>rb_closed := True, rb_net := closeLocked (rb_net n7)\<rparr>"
  note defs = n1_def n2_def n3_def n4_def n5_def n6_def n7_def n8_def leak_start_def
  have "rbstep w rk pk (leak_start s) n1" using rb_top [of "leak_start s" w rk pk] by (simp add: defs)
  note r1 = rb_step [OF r0 this]
  have "rbstep w rk pk n1 n2" using rb_notified [of n1 w rk pk] by (simp add: defs)
  note r2 = rb_step [OF r1 this]
  have "rbstep w rk pk n2 n3" using rb_retry [of n2 w rk pk] by (simp add: defs)
  note r3 = rb_step [OF r2 this]
  note r4 = rb_step [OF r3 rb_refuse, folded n4_def]
  have "rbstep w rk pk n4 n5" unfolding n5_def by (rule rb_close_stop) (simp add: n4_def)
  note r5 = rb_step [OF r4 this]
  have "rbstep w rk pk n5 n6" using rb_see_stop [of 0 n5 w rk pk] by (simp add: defs)
  note r6 = rb_step [OF r5 this]
  have "rbstep w rk pk n6 n7" using rb_drained [of 0 n6 w rk pk] by (simp add: defs)
  note r7 = rb_step [OF r6 this]
  have "rbstep w rk pk n7 n8" unfolding n8_def by (rule rb_close_conn) (simp_all add: defs)
  note r8 = rb_step [OF r7 this]
  have n8: "n8 = leak_stopped s" by (simp add: defs leak_stopped_def closeLocked_def Let_def)
  have c8: "closeLocked (rb_net n8) = \<lparr>net_conn = None, net_ch = None, net_conns = [], net_chans = [], net_next = 1\<rparr>"
    by (simp add: n8 leak_stopped_def closeLocked_def Let_def)
  define n9 where "n9 = n8\<lparr>rb_net := \<lparr>net_conn = Some 1, net_ch = Some 1, net_conns = [1], net_chans = [1], net_next = 2\<rparr>, rb_watch := WatchTop, rb_late := True\<rparr>"
  have "rbstep w rk pk n8 n9"
    using rb_connect [of n8 good_broker rk pk None "\<lparr>net_conn = Some 1, net_ch = Some 1, net_conns = [1], net_chans = [1], net_next = 2\<rparr>" w]
    unfolding good_connect c8 by (simp add: n9_def n8 leak_stopped_def)
  note r9 = rb_step [OF r8 this]
  have "rbstep w rk pk n9 (n9\<lparr>rb_watch := WatchClose\<rparr>)" using rb_top [of n9 w rk pk] by (simp add: n9_def)
  note r10 = rb_step [OF r9 this]
  have "rbstep w rk pk (n9\<lparr>rb_watch := WatchClose\<rparr>) (leak_end s)"
    using rb_watch_stop [of "n9\<lparr>rb_watch := WatchClose\<rparr>" w rk pk] by (simp add: n9_def n8 leak_stopped_def leak_end_def leak_start_def)
  then show ?thesis by (rule rb_step [OF r10])
qed

text \<open>
  C21. A node holds at most one connection and one channel, those in use; a failed attempt to connect leaves none open, and then publishing fails;
  and after \<open>Stop\<close> none is open, unless the watcher had passed its check of the stop channel and connected after \<open>Stop\<close> closed the connection. This does happen: there is a run after
  which everything has returned and a connection stays open.
\<close>

theorem rabbit_connections:
  assumes "rbreach w remoteKey replyKey n"
  shows "length (net_conns (rb_net n)) \<le> 1 \<and> set (net_conns (rb_net n)) \<subseteq> set_option (net_conn (rb_net n)) \<and>
    length (net_chans (rb_net n)) \<le> 1 \<and> set (net_chans (rb_net n)) \<subseteq> set_option (net_ch (rb_net n)) \<and>
    (connectAndServeLocked b remoteKey replyKey (rb_net n) = (Some e, net) \<longrightarrow>
       net_conns net = [] \<and> net_chans net = [] \<and> fst (rb_publish said key data replyTo corrID net) = Some ''rabbitmq channel is not ready'') \<and>
    (rb_closed n \<and> \<not> rb_late n \<longrightarrow> net_conns (rb_net n) = [] \<and> net_chans (rb_net n) = []) \<and>
    (\<exists>n'. rbreach w remoteKey replyKey n' \<and> rb_sys n' = s \<and> rb_closed n' \<and> rb_watch n' = WatchGone \<and> list_all (\<lambda>x. x = RbExited) (rb_workers n') \<and>
       net_conns (rb_net n') \<noteq> [])"
proof -
  have I: "rb_inv n" using assms by (rule rbreach_inv)
  then have N: "net_ok (rb_net n)" by (simp add: rb_inv_def)
  have "rbreach w remoteKey replyKey (leak_end s)" by (rule leak_reach)
  moreover have "rb_sys (leak_end s) = s \<and> rb_closed (leak_end s) \<and> rb_watch (leak_end s) = WatchGone \<and>
      list_all (\<lambda>x. x = RbExited) (rb_workers (leak_end s)) \<and> net_conns (rb_net (leak_end s)) \<noteq> []"
    by (simp add: leak_end_def leak_stopped_def leak_start_def)
  moreover have "connectAndServeLocked b remoteKey replyKey (rb_net n) = (Some e, net) \<Longrightarrow>
      net_conns net = [] \<and> net_chans net = [] \<and> fst (rb_publish said key data replyTo corrID net) = Some ''rabbitmq channel is not ready''"
    using connect_ok(2) [OF N] by (auto simp: rb_publish_def)
  ultimately show ?thesis using I N unfolding rb_inv_def net_ok_def by blast
qed

section \<open>Examples\<close>

theorem rabbit_refines_nats_witness:
  "nreach demo_cw (rb_abs (leak_end demo_ready)) \<and> mset (rb_accepted (leak_end demo_ready)) = mset (rb_handled (leak_end demo_ready))"
  using rabbit_refines_nats [OF leak_reach [where w = demo_cw and rk = "[]" and pk = "[]" and s = demo_ready]] by (simp add: leak_end_def leak_stopped_def)

theorem rabbit_connections_witness: "length (net_conns (rb_net (leak_end demo_ready))) \<le> 1"
  using rabbit_connections [OF leak_reach [where w = demo_cw and rk = "[]" and pk = "[]" and s = demo_ready]] by blast

theorem rabbit_request_agrees_witness:
  "rb_Request demo_cw ''p'' demo_disc 5 (\<lambda>_ _ _. Replied [2]) ''n'' demo_request 0 = Inr demo_response \<and>
   cluster_Request demo_cw ''p'' demo_disc (nats_rpc 5 (\<lambda>_ _ _. Replied [2])) ''n'' demo_request 0 = Inr demo_response"
proof -
  have "rb_Request demo_cw ''p'' demo_disc 5 (\<lambda>_ _ _. Replied [2]) ''n'' demo_request 0 = Inr demo_response" by code_simp
  then show ?thesis using rabbit_request_agrees [of demo_cw "''p''" demo_disc 5 "\<lambda>_ _ _. Replied [2]" "''n''" demo_request 0 demo_response] by blast
qed

definition demo_delivery :: delivery where
  "demo_delivery = \<lparr>dl_RoutingKey = ''rk'', dl_ReplyTo = [], dl_CorrelationId = ''1'', dl_Body = [7]\<rparr>"

definition demo_rr1 :: rb_rpc where "demo_rr1 = rr_begin ''k'' [1] (rr_new ''rk'')"

definition demo_rr2 :: rb_rpc where
  "demo_rr2 = demo_rr1\<lparr>rr_wait := pumpReply demo_delivery (rr_wait demo_rr1), rr_arrived := rr_arrived demo_rr1 @ [demo_delivery]\<rparr>"

definition demo_rr3 :: rb_rpc where
  "demo_rr3 = rr_end ''1'' 0 (Inr (dl_Body demo_delivery)) (snd (the (wait_receive 0 (rr_wait demo_rr2)))) demo_rr2"

lemma demo_rr_fields:
  "rr_calls demo_rr2 = [(''1'', 0)]" "map_option fst (wait_receive 0 (rr_wait demo_rr2)) = Some demo_delivery"
  "rr_results demo_rr3 = [(''1'', Inr [7])]" "rr_count demo_rr3 = 1"
  by code_simp+

lemma demo_rr_reach: "rrreach demo_rr3"
proof -
  have r1: "rrreach demo_rr1" unfolding demo_rr1_def by (rule rr_next [OF rr_start rr_call])
  have r2: "rrreach demo_rr2" unfolding demo_rr2_def by (rule rr_next [OF r1 rr_reply])
  obtain w where w: "wait_receive 0 (rr_wait demo_rr2) = Some (demo_delivery, w)" using demo_rr_fields(2) by auto
  have "(''1'', 0) \<in> set (rr_calls demo_rr2)" by (simp add: demo_rr_fields)
  from rr_receive [OF this w] show ?thesis unfolding demo_rr3_def w by (auto intro: rr_next [OF r2])
qed

theorem rabbit_correlated_witness:
  "rrreach demo_rr3 \<and> (\<exists>d. d \<in> set (rr_arrived demo_rr3) \<and> dl_CorrelationId d = ''1'' \<and> dl_Body d = [7])"
  using rabbit_correlated [OF demo_rr_reach] demo_rr_fields(3,4) demo_rr_reach by auto

end
