(* ===== verification/Actor_Timer.thy ===== *)
theory Actor_Timer
  imports Time_Wheel
begin

text \<open>
  The timers of an actor, \<open>src/net/actor/actor_timer.go\<close>, over the shared time wheel: the table of timers, the queue of the
  numbers of the timers that fired, and their invocation on the goroutine of the actor. Functions are numbers, \<open>None\<close> being
  nil. The task of a timer pushes the number it captured; when a task has started, its push may still be outstanding. An
  operation that does not return answers \<open>None\<close>. Schedules are the two of the wheel.
\<close>

section \<open>State\<close>

record timerInfo =
  ti_timer :: nat
  ti_fn :: nat
  ti_once :: bool

text \<open>
  The wheel, the instant and the counter are shared by all actors. \<open>at_tasks\<close> holds the timers of this actor with the number
  their task captured, \<open>at_flight\<close> the started tasks that have not pushed yet. The last three fields record the numbers
  taken from the queue, the invocations and the stopped timers.
\<close>

record actorTimer =
  at_wheel :: TimeWheel
  at_now :: int
  at_counter :: u64
  at_tasks :: "(nat \<times> u64) list"
  at_flight :: "u64 list"
  at_queue :: "u64 list"
  at_infos :: "(u64, timerInfo) gomap"
  at_running :: "(u64 \<times> bool) option"
  at_popped :: "u64 list"
  at_log :: "(u64 \<times> nat) list"
  at_stops :: "nat set"

definition newTimer :: "TimeWheel \<Rightarrow> int \<Rightarrow> u64 \<Rightarrow> nat set \<Rightarrow> actorTimer" where
  "newTimer w now counter S =
     \<lparr>at_wheel = w, at_now = now, at_counter = counter, at_tasks = [], at_flight = [], at_queue = [], at_infos = [],
      at_running = None, at_popped = [], at_log = [], at_stops = S\<rparr>"

section \<open>Operations\<close>

text \<open>The wheel goes to \<open>w\<close>: the tasks of this actor that ran have started.\<close>

definition fired :: "(nat \<times> u64) list \<Rightarrow> (nat \<times> int \<times> int) list \<Rightarrow> u64 list" where
  "fired tasks runs = concat (map (\<lambda>x. case map_of tasks (fst x) of None \<Rightarrow> [] | Some i \<Rightarrow> [i]) runs)"

definition set_wheel :: "TimeWheel \<Rightarrow> actorTimer \<Rightarrow> actorTimer" where
  "set_wheel w s = s\<lparr>at_wheel := w,
     at_flight := at_flight s @ fired (at_tasks s) (drop (length (tw_runs (at_wheel s))) (tw_runs w))\<rparr>"

definition at_Push :: "u64 \<Rightarrow> actorTimer \<Rightarrow> actorTimer" where
  "at_Push data s = s\<lparr>at_queue := at_queue s @ [data]\<rparr>"

definition at_Pop :: "actorTimer \<Rightarrow> u64 \<times> actorTimer" where
  "at_Pop s = (case at_queue s of [] \<Rightarrow> (0, s) | i # q \<Rightarrow> (i, s\<lparr>at_queue := q, at_popped := at_popped s @ [i]\<rparr>))"

definition addTimerInfo :: "nat \<Rightarrow> nat \<Rightarrow> bool \<Rightarrow> actorTimer \<Rightarrow> actorTimer" where
  "addTimerInfo p fn once s =
     s\<lparr>at_infos := AList.update (tm_id (tw_timers (at_wheel s) ! p)) \<lparr>ti_timer = p, ti_fn = fn, ti_once = once\<rparr> (at_infos s)\<rparr>"

text \<open>A fresh number and the timer the wheel makes for it, whose task captures the number.\<close>

definition create :: "(u64 \<Rightarrow> TimeWheel \<Rightarrow> TimeWheel option) \<Rightarrow> nat \<Rightarrow> bool \<Rightarrow> actorTimer \<Rightarrow> (u64 \<times> actorTimer) option" where
  "create mk fn once s =
     (let newID = NextID (at_counter s); p = length (tw_timers (at_wheel s)) in
      case mk newID (at_wheel s) of
        None \<Rightarrow> None
      | Some w \<Rightarrow> Some (newID, addTimerInfo p fn once (set_wheel w (s\<lparr>at_counter := newID, at_tasks := at_tasks s @ [(p, newID)]\<rparr>))))"

definition at_Add :: "int \<Rightarrow> nat option \<Rightarrow> actorTimer \<Rightarrow> (u64 \<times> actorTimer) option" where
  "at_Add delay fn s =
     (case fn of
        None \<Rightarrow> Some (0, s)
      | Some fn \<Rightarrow> if TimeToMS delay < 1 then Some (0, s) else create (\<lambda>i. AddEveryFunc i (at_now s) delay) fn False s)"

definition at_AddOnce :: "int \<Rightarrow> nat option \<Rightarrow> actorTimer \<Rightarrow> (u64 \<times> actorTimer) option" where
  "at_AddOnce delay fn s =
     (case fn of
        None \<Rightarrow> Some (0, s)
      | Some fn \<Rightarrow> if TimeToMS delay < 1 then Some (0, s) else create (\<lambda>i. AfterFunc i (at_now s) delay) fn True s)"

definition at_AddSchedule :: "Schedule option \<Rightarrow> nat option \<Rightarrow> actorTimer \<Rightarrow> (u64 \<times> actorTimer) option" where
  "at_AddSchedule sc fn s =
     (case (sc, fn) of
        (Some sc, Some fn) \<Rightarrow> create (\<lambda>i. ScheduleFunc i (at_now s) sc) fn False s
      | _ \<Rightarrow> Some (0, s))"

definition at_AddFixedHour :: "int \<Rightarrow> int \<Rightarrow> int \<Rightarrow> nat option \<Rightarrow> actorTimer \<Rightarrow> (u64 \<times> actorTimer) option" where
  "at_AddFixedHour hour minute second fn s = at_AddSchedule (Some (FixedDateSchedule hour minute second)) fn s"

definition at_AddFixedMinute :: "int \<Rightarrow> int \<Rightarrow> nat option \<Rightarrow> actorTimer \<Rightarrow> (u64 \<times> actorTimer) option" where
  "at_AddFixedMinute minute second fn s = at_AddFixedHour (- 1) minute second fn s"

text \<open>\<open>Stop\<close> of the timer of an entry.\<close>

definition stop_timer :: "nat \<Rightarrow> actorTimer \<Rightarrow> actorTimer option" where
  "stop_timer p s =
     (case timer_Stop False p (at_wheel s) of
        None \<Rightarrow> None
      | Some (b, w) \<Rightarrow> Some ((set_wheel w s)\<lparr>at_stops := insert p (at_stops s)\<rparr>))"

definition at_Remove :: "u64 \<Rightarrow> actorTimer \<Rightarrow> actorTimer option" where
  "at_Remove i s =
     (case map_of (at_infos s) i of
        None \<Rightarrow> Some s
      | Some ti \<Rightarrow>
          (case stop_timer (ti_timer ti) s of
             None \<Rightarrow> None
           | Some s \<Rightarrow> Some (s\<lparr>at_infos := AList.delete i (at_infos s)\<rparr>)))"

primrec at_RemoveAll :: "(u64, timerInfo) gomap \<Rightarrow> actorTimer \<Rightarrow> actorTimer option" where
  "at_RemoveAll [] s = Some s"
| "at_RemoveAll (x # xs) s = (case stop_timer (ti_timer (snd x)) s of None \<Rightarrow> None | Some s \<Rightarrow> at_RemoveAll xs s)"

definition at_onStop :: "actorTimer \<Rightarrow> actorTimer option" where
  "at_onStop s = at_RemoveAll (at_infos s) s"

text \<open>
  \<open>processTimer\<close> of the actor and \<open>invokeFunc\<close> up to the call of the function, which runs on the goroutine of the actor, may add and
  remove timers and may panic; then \<open>invokeFunc\<close> to its end.
\<close>

definition invoke_begin :: "u64 \<Rightarrow> actorTimer \<Rightarrow> actorTimer" where
  "invoke_begin i s =
     (case map_of (at_infos s) i of
        None \<Rightarrow> s
      | Some ti \<Rightarrow> s\<lparr>at_running := Some (i, ti_once ti), at_log := at_log s @ [(i, ti_fn ti)]\<rparr>)"

definition processTimer :: "actorTimer \<Rightarrow> actorTimer" where
  "processTimer s = (case at_Pop s of (i, s) \<Rightarrow> if i < 1 then s else invoke_begin i s)"

definition invoke_end :: "actorTimer \<Rightarrow> actorTimer" where
  "invoke_end s =
     (case at_running s of
        None \<Rightarrow> s
      | Some (i, once) \<Rightarrow> s\<lparr>at_running := None, at_infos := (if once then AList.delete i (at_infos s) else at_infos s)\<rparr>)"

text \<open>
  The steps: the actor adds, removes and processes timers, or stops; a started task pushes; time passes; the wheel works off
  an expired bucket; others make and stop timers on the same wheel. The numbers do not wrap within \<open>2 ^ 64\<close> timers.
\<close>

definition at_room :: "actorTimer \<Rightarrow> bool" where
  "at_room s \<longleftrightarrow> length (tw_timers (at_wheel s)) + 1 < 2 ^ 64"

inductive tstep :: "actorTimer \<Rightarrow> actorTimer \<Rightarrow> bool" where
  add: "at_room s \<Longrightarrow> at_Add d fn s = Some (i, s') \<Longrightarrow> tstep s s'"
| add_once: "at_room s \<Longrightarrow> at_AddOnce d fn s = Some (i, s') \<Longrightarrow> tstep s s'"
| add_schedule: "at_room s \<Longrightarrow> valid_sched sc \<Longrightarrow> at_AddSchedule sc fn s = Some (i, s') \<Longrightarrow> tstep s s'"
| remove: "at_Remove i s = Some s' \<Longrightarrow> tstep s s'"
| on_stop: "at_onStop s = Some s' \<Longrightarrow> tstep s s'"
| push: "at_flight s = xs @ i # ys \<Longrightarrow> tstep s (at_Push i (s\<lparr>at_flight := xs @ ys\<rparr>))"
| process: "at_running s = None \<Longrightarrow> tstep s (processTimer s)"
| ended: "tstep s (invoke_end s)"
| tick: "at_now s \<le> now' \<Longrightarrow> tstep s (s\<lparr>at_now := now'\<rparr>)"
| poll: "process_expired (TimeToMS (at_now s)) (at_wheel s) = Some w \<Longrightarrow> tstep s (set_wheel w s)"
| other_add: "at_room s \<Longrightarrow> valid_sched sc \<Longrightarrow> new_timer (NextID (at_counter s)) e sc (at_wheel s) = Some w \<Longrightarrow>
    tstep s (set_wheel w (s\<lparr>at_counter := NextID (at_counter s)\<rparr>))"
| other_stop: "p < length (tw_timers (at_wheel s)) \<Longrightarrow> p \<notin> fst ` set (at_tasks s) \<Longrightarrow> stop_timer p s = Some s' \<Longrightarrow> tstep s s'"

inductive treach :: "actorTimer \<Rightarrow> bool" where
  new: "tw_reach now S w \<Longrightarrow> length (tw_timers w) < 2 ^ 64 \<Longrightarrow> treach (newTimer w now (of_nat (length (tw_timers w))) S)"
| step: "treach s \<Longrightarrow> tstep s s' \<Longrightarrow> treach s'"

section \<open>What the wheel does\<close>


lemma new_timer_grow:
  assumes I: "tw_inv w" and sc: "valid_sched sc"
  shows "\<exists>w' new. new_timer i e sc w = Some w' \<and> tw_runs w' = tw_runs w @ new \<and> list_all (\<lambda>x. fst x = length (tw_timers w)) new \<and>
    length (tw_timers w') = Suc (length (tw_timers w)) \<and> (\<forall>x < length (tw_timers w). tw_timers w' ! x = tw_timers w ! x) \<and>
    tm_id (tw_timers w' ! length (tw_timers w)) = i \<and> tm_sched (tw_timers w' ! length (tw_timers w)) = sc \<and>
    (sc = None \<longrightarrow> tm_expiration (tw_timers w' ! length (tw_timers w)) = e)"
proof -
  let ?n = "length (tw_timers w)" and ?t = "\<lparr>tm_id = i, tm_expiration = e, tm_sched = sc, tm_bucket = None\<rparr>"
  let ?w = "w\<lparr>tw_timers := tw_timers w @ [?t]\<rparr>"
  obtain w' where w': "addOrRun ?n ?w = Some w'" "settled ?n ?w w'"
    using addOrRun_ok [OF appended_inv(1,2) [OF I sc]] by blast
  obtain new where n: "tw_runs w' = tw_runs w @ new" "list_all (\<lambda>x. fst x = ?n) new" using w'(2) unfolding settled_def by auto
  have "length (tw_timers w') = Suc ?n" "tw_timers w' ! x = tw_timers w ! x" if "x < ?n" for x
    using w'(2) that unfolding settled_def by (simp_all add: nth_append)
  moreover have "length (tw_timers w') = Suc ?n" "tm_id (tw_timers w' ! ?n) = i" "tm_sched (tw_timers w' ! ?n) = sc"
      "sc = None \<longrightarrow> tm_expiration (tw_timers w' ! ?n) = e"
    using w'(2) unfolding settled_def by (simp_all split: if_splits)
  ultimately show ?thesis using w'(1) n by (intro exI [of _ w'] exI [of _ new]) (simp add: new_timer_def)
qed

lemma process_grow:
  assumes "sys_inv now S w" "process_expired (TimeToMS now) w = Some w'"
  shows "\<exists>new. tw_runs w' = tw_runs w @ new" "length (tw_timers w') = length (tw_timers w)"
    "x < length (tw_timers w) \<Longrightarrow> tm_sched (tw_timers w' ! x) = tm_sched (tw_timers w ! x)"
    "x < length (tw_timers w) \<Longrightarrow> tm_sched (tw_timers w ! x) = None \<Longrightarrow> tm_expiration (tw_timers w' ! x) = tm_expiration (tw_timers w ! x)"
proof -
  have "w' = w \<or> after_round w w'"
    using assms process_sys [OF assms(1)] process_nothing [OF sys_invD(1) [OF assms(1)], of "TimeToMS now"]
    by (cases "nothing_due (TimeToMS now) w") auto
  then show "\<exists>new. tw_runs w' = tw_runs w @ new" "length (tw_timers w') = length (tw_timers w)"
    "x < length (tw_timers w) \<Longrightarrow> tm_sched (tw_timers w' ! x) = tm_sched (tw_timers w ! x)"
    "x < length (tw_timers w) \<Longrightarrow> tm_sched (tw_timers w ! x) = None \<Longrightarrow> tm_expiration (tw_timers w' ! x) = tm_expiration (tw_timers w ! x)"
    unfolding after_round_def by auto
qed

lemma Stop_grow:
  assumes "sys_inv now S w" "p < length (tw_timers w)" "timer_Stop b p w = Some (b', w')"
  shows "tw_runs w' = tw_runs w" "length (tw_timers w') = length (tw_timers w)"
    "x < length (tw_timers w) \<Longrightarrow> tm_sched (tw_timers w' ! x) = tm_sched (tw_timers w ! x)"
    "x < length (tw_timers w) \<Longrightarrow> tm_expiration (tw_timers w' ! x) = tm_expiration (tw_timers w ! x)"
proof -
  have "w' = w \<or> (\<exists>r. w' = removed p r w)"
    using assms timer_Stop_ok [OF sys_invD(1,2) [OF assms(1)] assms(2), of b] by (auto split: option.splits)
  then show "tw_runs w' = tw_runs w" "length (tw_timers w') = length (tw_timers w)"
    "x < length (tw_timers w) \<Longrightarrow> tm_sched (tw_timers w' ! x) = tm_sched (tw_timers w ! x)"
    "x < length (tw_timers w) \<Longrightarrow> tm_expiration (tw_timers w' ! x) = tm_expiration (tw_timers w ! x)"
    using assms(2) by (auto simp: removed_def put_timer_def put_bucket_def nth_list_update)
qed

section \<open>Invariant\<close>

abbreviation at_timers :: "actorTimer \<Rightarrow> Timer list" where "at_timers s \<equiv> tw_timers (at_wheel s)"
abbreviation calls :: "actorTimer \<Rightarrow> u64 \<Rightarrow> nat" where "calls s i \<equiv> count_list (map fst (at_log s)) i"

text \<open>Every number was captured by one task; whatever a timer ran is on its way, queued or taken.\<close>

definition task_inv :: "actorTimer \<Rightarrow> bool" where
  "task_inv s \<longleftrightarrow> distinct (map fst (at_tasks s)) \<and>
     (\<forall>p i. (p, i) \<in> set (at_tasks s) \<longrightarrow> p < length (at_timers s) \<and> i = of_nat (Suc p)) \<and>
     set (at_flight s) \<union> set (at_queue s) \<union> set (at_popped s) \<subseteq> snd ` set (at_tasks s) \<and>
     (\<forall>p i. (p, i) \<in> set (at_tasks s) \<longrightarrow>
        count_list (at_flight s) i + count_list (at_queue s) i + count_list (at_popped s) i = run_count p (at_wheel s))"

text \<open>The entries of the table belong to tasks; an entry that is still wanted is there until its one call.\<close>

definition info_inv :: "actorTimer \<Rightarrow> bool" where
  "info_inv s \<longleftrightarrow> distinct (map fst (at_infos s)) \<and>
     (\<forall>i ti. (i, ti) \<in> set (at_infos s) \<longrightarrow>
        (ti_timer ti, i) \<in> set (at_tasks s) \<and> (ti_once ti \<longleftrightarrow> tm_sched (at_timers s ! ti_timer ti) = None) \<and>
        (ti_once ti \<longrightarrow> i \<in> set (at_popped s) \<longrightarrow> at_running s = Some (i, True))) \<and>
     (\<forall>p i. (p, i) \<in> set (at_tasks s) \<longrightarrow> p \<notin> at_stops s \<longrightarrow>
        (i \<in> fst ` set (at_infos s) \<or> tm_sched (at_timers s ! p) = None \<and> i \<in> set (at_popped s)) \<and>
        (tm_sched (at_timers s ! p) = None \<longrightarrow> i \<in> set (at_popped s) \<longrightarrow> calls s i = 1))"

definition log_inv :: "actorTimer \<Rightarrow> bool" where
  "log_inv s \<longleftrightarrow> (\<forall>i. calls s i \<le> count_list (at_popped s) i) \<and>
     (\<forall>i b. at_running s = Some (i, b) \<longrightarrow> i \<in> set (at_popped s) \<and> (\<forall>p. (p, i) \<in> set (at_tasks s) \<longrightarrow> b \<longleftrightarrow> tm_sched (at_timers s ! p) = None))"

definition tinv :: "actorTimer \<Rightarrow> bool" where
  "tinv s \<longleftrightarrow> sys_inv (at_now s) (at_stops s) (at_wheel s) \<and> length (at_timers s) < 2 ^ 64 \<and>
     at_counter s = of_nat (length (at_timers s)) \<and> task_inv s \<and> info_inv s \<and> log_inv s"

lemma task_invD:
  assumes "task_inv s"
  shows "distinct (map fst (at_tasks s))"
    "(p, i) \<in> set (at_tasks s) \<Longrightarrow> p < length (at_timers s)" "(p, i) \<in> set (at_tasks s) \<Longrightarrow> i = of_nat (Suc p)"
    "i \<in> set (at_flight s) \<union> set (at_queue s) \<union> set (at_popped s) \<Longrightarrow> \<exists>p. (p, i) \<in> set (at_tasks s)"
    "(p, i) \<in> set (at_tasks s) \<Longrightarrow>
        count_list (at_flight s) i + count_list (at_queue s) i + count_list (at_popped s) i = run_count p (at_wheel s)"
  using assms unfolding task_inv_def by (blast, blast, blast, fastforce, blast)

lemma info_invD:
  assumes "info_inv s"
  shows "distinct (map fst (at_infos s))"
    "(i, ti) \<in> set (at_infos s) \<Longrightarrow> (ti_timer ti, i) \<in> set (at_tasks s)"
    "(i, ti) \<in> set (at_infos s) \<Longrightarrow> ti_once ti \<longleftrightarrow> tm_sched (at_timers s ! ti_timer ti) = None"
    "(i, ti) \<in> set (at_infos s) \<Longrightarrow> ti_once ti \<Longrightarrow> i \<in> set (at_popped s) \<Longrightarrow> at_running s = Some (i, True)"
    "(p, i) \<in> set (at_tasks s) \<Longrightarrow> p \<notin> at_stops s \<Longrightarrow>
        i \<in> fst ` set (at_infos s) \<or> tm_sched (at_timers s ! p) = None \<and> i \<in> set (at_popped s)"
    "(p, i) \<in> set (at_tasks s) \<Longrightarrow> p \<notin> at_stops s \<Longrightarrow> tm_sched (at_timers s ! p) = None \<Longrightarrow> i \<in> set (at_popped s) \<Longrightarrow> calls s i = 1"
  using assms unfolding info_inv_def by blast+

lemma log_invD:
  assumes "log_inv s"
  shows "calls s i \<le> count_list (at_popped s) i" "at_running s = Some (i, b) \<Longrightarrow> i \<in> set (at_popped s)"
    "at_running s = Some (i, b) \<Longrightarrow> (p, i) \<in> set (at_tasks s) \<Longrightarrow> b \<longleftrightarrow> tm_sched (at_timers s ! p) = None"
  using assms unfolding log_inv_def by blast+

lemma tinvD:
  assumes "tinv s"
  shows "sys_inv (at_now s) (at_stops s) (at_wheel s)" "length (at_timers s) < 2 ^ 64"
    "at_counter s = of_nat (length (at_timers s))" "task_inv s" "info_inv s" "log_inv s"
  using assms unfolding tinv_def by blast+

lemma of_nat_Suc_inj: "p < 2 ^ 64 - 1 \<Longrightarrow> q < 2 ^ 64 - 1 \<Longrightarrow> (of_nat (Suc p) :: u64) = of_nat (Suc q) \<longleftrightarrow> p = q"
proof -
  assume "p < 2 ^ 64 - 1" "q < 2 ^ 64 - 1"
  then have "unat (of_nat (Suc p) :: u64) = Suc p" "unat (of_nat (Suc q) :: u64) = Suc q"
    by (simp_all only: unat_of_nat, simp_all add: take_bit_nat_eq_self del: of_nat_Suc)
  then show ?thesis by (metis nat.inject)
qed

lemma same_task:
  assumes "tinv s" "(p, i) \<in> set (at_tasks s)" "(q, i) \<in> set (at_tasks s)"
  shows "p = q"
proof -
  have "p < 2 ^ 64 - 1" "q < 2 ^ 64 - 1" "(of_nat (Suc p) :: u64) = of_nat (Suc q)"
    using task_invD(2,3) [OF tinvD(4) [OF assms(1)] assms(2)] task_invD(2,3) [OF tinvD(4) [OF assms(1)] assms(3)] tinvD(2) [OF assms(1)] by simp_all
  then show ?thesis using of_nat_Suc_inj by blast
qed

lemma fired_simps [simp]: "fired tasks [] = []" "fired tasks (x # xs) = (case map_of tasks (fst x) of None \<Rightarrow> [] | Some i \<Rightarrow> [i]) @ fired tasks xs"
  by (simp_all add: fired_def)

lemma fired_append: "fired tasks (xs @ ys) = fired tasks xs @ fired tasks ys"
  by (simp add: fired_def)

lemma fired_set: "set (fired tasks runs) \<subseteq> snd ` set tasks"
proof (induction runs)
  case (Cons x runs)
  then show ?case by (cases "map_of tasks (fst x)") (auto dest: map_of_SomeD intro: rev_image_eqI)
qed simp

lemma fired_count:
  assumes "distinct (map fst tasks)" "(p, i) \<in> set tasks" "\<And>q. (q, i) \<in> set tasks \<Longrightarrow> q = p"
  shows "count_list (fired tasks runs) i = length (filter (\<lambda>x. fst x = p) runs)"
proof (induction runs)
  case (Cons x runs)
  show ?case
  proof (cases "fst x = p")
    case True
    then have "map_of tasks (fst x) = Some i" using assms(1,2) by simp
    then show ?thesis using Cons True by (simp add: count_list_append)
  next
    case False
    then have "map_of tasks (fst x) \<noteq> Some i" using assms(3) by (blast dest: map_of_SomeD)
    then show ?thesis using Cons False by (simp add: count_list_append split: option.split)
  qed
qed simp

lemma set_wheel_inv:
  assumes I: "tinv s" and S: "sys_inv (at_now s) S w" "at_stops s \<subseteq> S" and r: "tw_runs w = tw_runs (at_wheel s) @ new"
    and l: "length (at_timers s) \<le> length (tw_timers w)" "length (tw_timers w) < 2 ^ 64"
    and sc: "\<forall>x < length (at_timers s). tm_sched (tw_timers w ! x) = tm_sched (at_timers s ! x)"
  shows "tinv ((set_wheel w s)\<lparr>at_counter := of_nat (length (tw_timers w)), at_stops := S\<rparr>)" (is "tinv ?s")
proof -
  have f: "at_wheel ?s = w" "at_flight ?s = at_flight s @ fired (at_tasks s) new" "at_queue ?s = at_queue s" "at_popped ?s = at_popped s"
    "at_tasks ?s = at_tasks s" "at_infos ?s = at_infos s" "at_log ?s = at_log s" "at_running ?s = at_running s" "at_stops ?s = S" "at_now ?s = at_now s"
    by (simp_all add: set_wheel_def r)
  note T = tinvD(4) [OF I] and N = tinvD(5) [OF I] and L = tinvD(6) [OF I]
  have s: "(p, i) \<in> set (at_tasks s) \<Longrightarrow> tm_sched (tw_timers w ! p) = tm_sched (at_timers s ! p)" for p i
    using task_invD(2) [OF T] sc by blast
  have "task_inv ?s"
    unfolding task_inv_def f
  proof (intro conjI allI impI)
    show "distinct (map fst (at_tasks s))" by (rule task_invD(1) [OF T])
    fix p i assume p: "(p, i) \<in> set (at_tasks s)"
    show "p < length (tw_timers w)" using task_invD(2) [OF T p] l(1) by simp
    show "i = of_nat (Suc p)" by (rule task_invD(3) [OF T p])
    have "count_list (fired (at_tasks s) new) i = length (filter (\<lambda>x. fst x = p) new)"
      using same_task [OF I p] by (intro fired_count [OF task_invD(1) [OF T] p]) simp
    then show "count_list (at_flight s @ fired (at_tasks s) new) i + count_list (at_queue s) i + count_list (at_popped s) i = run_count p w"
      using task_invD(5) [OF T p] by (simp add: count_list_append run_count_def r)
  next
    show "set (at_flight s @ fired (at_tasks s) new) \<union> set (at_queue s) \<union> set (at_popped s) \<subseteq> snd ` set (at_tasks s)"
      using T fired_set [of "at_tasks s" new] unfolding task_inv_def by simp
  qed
  moreover have "info_inv ?s"
    unfolding info_inv_def f
  proof (intro conjI allI impI)
    show "distinct (map fst (at_infos s))" by (rule info_invD(1) [OF N])
  next
    fix i ti assume ti: "(i, ti) \<in> set (at_infos s)"
    note m = info_invD(2) [OF N ti]
    show "(ti_timer ti, i) \<in> set (at_tasks s)" by (rule m)
    show "ti_once ti \<longleftrightarrow> tm_sched (tw_timers w ! ti_timer ti) = None" using info_invD(3) [OF N ti] s [OF m] by simp
    show "ti_once ti \<Longrightarrow> i \<in> set (at_popped s) \<Longrightarrow> at_running s = Some (i, True)" by (rule info_invD(4) [OF N ti])
  next
    fix p i assume p: "(p, i) \<in> set (at_tasks s)" "p \<notin> S"
    then have "p \<notin> at_stops s" using S(2) by blast
    note e = info_invD(5,6) [OF N p(1) this] s [OF p(1)]
    show "i \<in> fst ` set (at_infos s) \<or> tm_sched (tw_timers w ! p) = None \<and> i \<in> set (at_popped s)" using e by simp
    show "tm_sched (tw_timers w ! p) = None \<Longrightarrow> i \<in> set (at_popped s) \<Longrightarrow> calls s i = 1" using e by simp
  qed
  moreover have "log_inv ?s"
    unfolding log_inv_def f
  proof (intro conjI allI impI)
    show "calls s i \<le> count_list (at_popped s) i" for i by (rule log_invD(1) [OF L])
    fix i b assume r: "at_running s = Some (i, b)"
    show "i \<in> set (at_popped s)" by (rule log_invD(2) [OF L r])
    show "b \<longleftrightarrow> tm_sched (tw_timers w ! p) = None" if "(p, i) \<in> set (at_tasks s)" for p
      using log_invD(3) [OF L r that] s [OF that] by simp
  qed
  ultimately show ?thesis using S(1) l(2) by (simp add: tinv_def f set_wheel_def)
qed

lemma set_wheel_stop_inv:
  assumes "tinv s" "sys_inv (at_now s) S w" "at_stops s \<subseteq> S" "tw_runs w = tw_runs (at_wheel s) @ new"
    "length (tw_timers w) = length (at_timers s)"
    "\<And>x. x < length (at_timers s) \<Longrightarrow> tm_sched (tw_timers w ! x) = tm_sched (at_timers s ! x)"
  shows "tinv ((set_wheel w s)\<lparr>at_stops := S\<rparr>)"
proof -
  have "tinv ((set_wheel w s)\<lparr>at_counter := of_nat (length (tw_timers w)), at_stops := S\<rparr>)"
    using assms(5,6) tinvD(2) [OF assms(1)] by (intro set_wheel_inv [OF assms(1-4)]) simp_all
  moreover have "(set_wheel w s)\<lparr>at_counter := of_nat (length (tw_timers w)), at_stops := S\<rparr> = (set_wheel w s)\<lparr>at_stops := S\<rparr>"
    using tinvD(3) [OF assms(1)] assms(5) by (simp add: set_wheel_def)
  ultimately show ?thesis by simp
qed

lemma poll_inv:
  assumes I: "tinv s" and p: "process_expired (TimeToMS (at_now s)) (at_wheel s) = Some w"
  shows "tinv (set_wheel w s)"
proof -
  note S = tinvD(1) [OF I] and G = process_grow [OF tinvD(1) [OF I] p]
  obtain new where new: "tw_runs w = tw_runs (at_wheel s) @ new" using G(1) by blast
  have "sys_inv (at_now s) (at_stops s) w" using process_total [OF S] p by auto
  from set_wheel_stop_inv [OF I this order_refl new G(2,3)] show ?thesis by (simp add: set_wheel_def)
qed

lemma stop_timer_inv:
  assumes I: "tinv s" and p: "p < length (at_timers s)"
  shows "\<exists>s'. stop_timer p s = Some s' \<and> tinv s' \<and> s' = s\<lparr>at_wheel := at_wheel s', at_stops := insert p (at_stops s)\<rparr> \<and>
    length (at_timers s') = length (at_timers s)"
proof -
  note S = tinvD(1) [OF I]
  obtain b w where w: "timer_Stop False p (at_wheel s) = Some (b, w)" "sys_inv (at_now s) (insert p (at_stops s)) w"
    using timer_Stop_sys [OF S p, of False] by auto
  note G = Stop_grow [OF S p w(1)]
  have "tinv ((set_wheel w s)\<lparr>at_stops := insert p (at_stops s)\<rparr>)"
    by (rule set_wheel_stop_inv [OF I w(2) subset_insertI, of "[]"]) (use G in simp_all)
  then show ?thesis using w(1) G(1,2) by (auto simp: stop_timer_def set_wheel_def)
qed

lemma at_RemoveAll_inv:
  assumes "tinv s" "\<forall>x \<in> set xs. ti_timer (snd x) < length (at_timers s)"
  shows "\<exists>s'. at_RemoveAll xs s = Some s' \<and> tinv s' \<and> at_infos s' = at_infos s \<and> at_log s' = at_log s \<and> at_running s' = at_running s \<and>
    length (at_timers s') = length (at_timers s) \<and> at_tasks s' = at_tasks s \<and> at_queue s' = at_queue s \<and> at_flight s' = at_flight s"
  using assms
proof (induction xs arbitrary: s)
  case (Cons x xs)
  obtain s1 where s1: "stop_timer (ti_timer (snd x)) s = Some s1" "tinv s1" "length (at_timers s1) = length (at_timers s)"
    "s1 = s\<lparr>at_wheel := at_wheel s1, at_stops := insert (ti_timer (snd x)) (at_stops s)\<rparr>"
    using stop_timer_inv [OF Cons.prems(1), of "ti_timer (snd x)"] Cons.prems(2) by auto
  have f: "at_infos s1 = at_infos s" "at_log s1 = at_log s" "at_running s1 = at_running s" "at_tasks s1 = at_tasks s" "at_queue s1 = at_queue s" "at_flight s1 = at_flight s"
    by (subst s1(4); simp)+
  obtain s' where "at_RemoveAll xs s1 = Some s'" "tinv s'" "at_infos s' = at_infos s1" "at_log s' = at_log s1" "at_running s' = at_running s1"
      "length (at_timers s') = length (at_timers s1)" "at_tasks s' = at_tasks s1" "at_queue s' = at_queue s1" "at_flight s' = at_flight s1"
    using Cons.IH [OF s1(2)] Cons.prems(2) s1(3) by auto
  then show ?case using s1(1,3) f by simp
qed simp

lemma delete_info_inv:
  assumes I: "tinv s"
    and gone: "\<And>p. (p, i) \<in> set (at_tasks s) \<Longrightarrow> p \<notin> at_stops s \<Longrightarrow> tm_sched (at_timers s ! p) = None \<and> i \<in> set (at_popped s)"
  shows "tinv (s\<lparr>at_infos := AList.delete i (at_infos s)\<rparr>)"
proof -
  note N = tinvD(5) [OF I]
  have f: "at_infos (s\<lparr>at_infos := AList.delete i (at_infos s)\<rparr>) = AList.delete i (at_infos s)"
    "at_tasks (s\<lparr>at_infos := x\<rparr>) = at_tasks s" "at_wheel (s\<lparr>at_infos := x\<rparr>) = at_wheel s" "at_popped (s\<lparr>at_infos := x\<rparr>) = at_popped s"
    "at_running (s\<lparr>at_infos := x\<rparr>) = at_running s" "at_log (s\<lparr>at_infos := x\<rparr>) = at_log s" "at_stops (s\<lparr>at_infos := x\<rparr>) = at_stops s" for x
    by simp_all
  have sub: "set (AList.delete i (at_infos s)) \<subseteq> set (at_infos s)" by (auto simp: AList.delete_eq)
  have "info_inv (s\<lparr>at_infos := AList.delete i (at_infos s)\<rparr>)"
    unfolding info_inv_def f
  proof (intro conjI allI impI)
    show "distinct (map fst (AList.delete i (at_infos s)))" using info_invD(1) [OF N] by (rule distinct_delete)
  next
    fix j ti assume "(j, ti) \<in> set (AList.delete i (at_infos s))"
    then have m: "(j, ti) \<in> set (at_infos s)" using sub by blast
    show "(ti_timer ti, j) \<in> set (at_tasks s)" "ti_once ti \<longleftrightarrow> tm_sched (at_timers s ! ti_timer ti) = None"
      by (rule info_invD(2) [OF N m], rule info_invD(3) [OF N m])
    show "ti_once ti \<Longrightarrow> j \<in> set (at_popped s) \<Longrightarrow> at_running s = Some (j, True)" by (rule info_invD(4) [OF N m])
  next
    fix p j assume p: "(p, j) \<in> set (at_tasks s)" "p \<notin> at_stops s"
    have k: "fst ` set (AList.delete i (at_infos s)) = fst ` set (at_infos s) - {i}" by (auto simp: AList.delete_eq image_iff)
    show "j \<in> fst ` set (AList.delete i (at_infos s)) \<or> tm_sched (at_timers s ! p) = None \<and> j \<in> set (at_popped s)"
      using info_invD(5) [OF N p] gone p unfolding k by blast
    show "tm_sched (at_timers s ! p) = None \<Longrightarrow> j \<in> set (at_popped s) \<Longrightarrow> calls s j = 1" by (rule info_invD(6) [OF N p])
  qed
  then show ?thesis using I by (simp add: tinv_def task_inv_def log_inv_def)
qed

lemma at_Remove_inv:
  assumes I: "tinv s"
  shows "\<exists>s'. at_Remove i s = Some s' \<and> tinv s' \<and> at_log s' = at_log s \<and> at_running s' = at_running s \<and> at_queue s' = at_queue s \<and>
    at_tasks s' = at_tasks s \<and> at_infos s' = AList.delete i (at_infos s) \<and> length (at_timers s') = length (at_timers s)"
proof (cases "map_of (at_infos s) i")
  case None
  then have "AList.delete i (at_infos s) = at_infos s" by (intro AList.delete_id) (auto simp: map_of_eq_None_iff)
  then show ?thesis using None I by (simp add: at_Remove_def)
next
  case (Some ti)
  then have m: "(i, ti) \<in> set (at_infos s)" by (rule map_of_SomeD)
  have t: "(ti_timer ti, i) \<in> set (at_tasks s)" by (rule info_invD(2) [OF tinvD(5) [OF I] m])
  obtain s1 where s1: "stop_timer (ti_timer ti) s = Some s1" "tinv s1" "length (at_timers s1) = length (at_timers s)"
    "s1 = s\<lparr>at_wheel := at_wheel s1, at_stops := insert (ti_timer ti) (at_stops s)\<rparr>"
    using stop_timer_inv [OF I task_invD(2) [OF tinvD(4) [OF I] t]] by auto
  have f: "at_infos s1 = at_infos s" "at_log s1 = at_log s" "at_running s1 = at_running s" "at_tasks s1 = at_tasks s" "at_queue s1 = at_queue s"
    "at_stops s1 = insert (ti_timer ti) (at_stops s)"
    by (subst s1(4); simp)+
  have "tinv (s1\<lparr>at_infos := AList.delete i (at_infos s1)\<rparr>)"
    using same_task [OF I _ t] f(4,6) by (intro delete_info_inv [OF s1(2)]) auto
  then show ?thesis using Some s1(1,3) f by (simp add: at_Remove_def)
qed

lemma push_inv:
  assumes I: "tinv s" and q: "at_flight s = xs @ i # ys"
  shows "tinv (at_Push i (s\<lparr>at_flight := xs @ ys\<rparr>))"
proof -
  have "set (xs @ ys) \<union> set (at_queue s @ [i]) = set (at_flight s) \<union> set (at_queue s)" using q by auto
  moreover have "count_list (xs @ ys) j + count_list (at_queue s @ [i]) j = count_list (at_flight s) j + count_list (at_queue s) j" for j
    using q by (simp add: count_list_append)
  ultimately show ?thesis using I
    by (simp add: tinv_def task_inv_def info_inv_def log_inv_def at_Push_def del: count_list_append)
qed

lemma tick_inv: "tinv s \<Longrightarrow> at_now s \<le> now' \<Longrightarrow> tinv (s\<lparr>at_now := now'\<rparr>)"
  using TimeToMS_mono [of "at_now s" now']
  by (auto simp: tinv_def task_inv_def info_inv_def log_inv_def sys_inv_def)

lemma invoke_end_inv:
  assumes I: "tinv s"
  shows "tinv (invoke_end s)"
proof (cases "at_running s")
  case None
  then show ?thesis using I by (simp add: invoke_end_def)
next
  case (Some x)
  then obtain i once where r: "at_running s = Some (i, once)" by (cases x) simp
  note T = tinvD(4) [OF I] and N = tinvD(5) [OF I] and L = tinvD(6) [OF I]
  obtain p where p: "(p, i) \<in> set (at_tasks s)" using task_invD(4) [OF T] log_invD(2) [OF L r] by blast
  let ?s = "if once then s\<lparr>at_infos := AList.delete i (at_infos s)\<rparr> else s"
  have "tinv (s\<lparr>at_infos := AList.delete i (at_infos s)\<rparr>)" if once
  proof (rule delete_info_inv [OF I])
    fix q assume q: "(q, i) \<in> set (at_tasks s)" "q \<notin> at_stops s"
    show "tm_sched (at_timers s ! q) = None \<and> i \<in> set (at_popped s)"
      using log_invD(2,3) [OF L r] q(1) that by blast
  qed
  then have J: "tinv ?s" using I by simp
  have e: "invoke_end s = ?s\<lparr>at_running := None\<rparr>" using r by (auto simp: invoke_end_def)
  have no: "j \<noteq> i" if "(j, ti) \<in> set (at_infos ?s)" "ti_once ti" for j ti
  proof
    assume j: "j = i"
    have sub: "set (at_infos ?s) \<subseteq> set (at_infos s)" by (auto simp: AList.delete_eq)
    have "(ti_timer ti, i) \<in> set (at_tasks s)" using info_invD(2) [OF N] that(1) j sub by blast
    then have "once" using log_invD(3) [OF L r] info_invD(3) [OF N] that j sub by blast
    then show False using that(1) j by (auto simp: AList.delete_eq)
  qed
  have f: "at_infos (?s\<lparr>at_running := None\<rparr>) = at_infos ?s" "at_tasks (?s\<lparr>at_running := None\<rparr>) = at_tasks ?s"
    "at_wheel (?s\<lparr>at_running := None\<rparr>) = at_wheel ?s" "at_popped (?s\<lparr>at_running := None\<rparr>) = at_popped ?s" "at_running (?s\<lparr>at_running := None\<rparr>) = None"
    "at_log (?s\<lparr>at_running := None\<rparr>) = at_log ?s" "at_stops (?s\<lparr>at_running := None\<rparr>) = at_stops ?s" "at_running ?s = Some (i, once)"
    using r by simp_all
  note K = tinvD(5) [OF J]
  have "info_inv (?s\<lparr>at_running := None\<rparr>)"
    unfolding info_inv_def f
  proof (intro conjI allI impI)
    show "distinct (map fst (at_infos ?s))" by (rule info_invD(1) [OF K])
  next
    fix j ti assume m: "(j, ti) \<in> set (at_infos ?s)"
    show "(ti_timer ti, j) \<in> set (at_tasks ?s)" "ti_once ti \<longleftrightarrow> tm_sched (at_timers ?s ! ti_timer ti) = None"
      by (rule info_invD(2) [OF K m], rule info_invD(3) [OF K m])
    assume o: "ti_once ti" "j \<in> set (at_popped ?s)"
    show "None = Some (j, True)" using info_invD(4) [OF K m o] no [OF m o(1)] f(8) by simp
  next
    fix q j assume q: "(q, j) \<in> set (at_tasks ?s)" "q \<notin> at_stops ?s"
    show "j \<in> fst ` set (at_infos ?s) \<or> tm_sched (at_timers ?s ! q) = None \<and> j \<in> set (at_popped ?s)" by (rule info_invD(5) [OF K q])
    show "tm_sched (at_timers ?s ! q) = None \<Longrightarrow> j \<in> set (at_popped ?s) \<Longrightarrow> calls ?s j = 1" by (rule info_invD(6) [OF K q])
  qed
  then show ?thesis using J unfolding e by (simp add: tinv_def task_inv_def log_inv_def)
qed

lemma pop_nonzero:
  assumes I: "tinv s" and q: "at_queue s = i # q"
  shows "\<not> i < 1" "\<exists>p. (p, i) \<in> set (at_tasks s)"
proof -
  obtain p where p: "(p, i) \<in> set (at_tasks s)" using task_invD(4) [OF tinvD(4) [OF I], of i] q by auto
  then have "p < 2 ^ 64 - 1" "i = of_nat (Suc p)" using task_invD(2,3) [OF tinvD(4) [OF I] p] tinvD(2) [OF I] by simp_all
  then have "unat i = Suc p" by (simp only: unat_of_nat, simp add: take_bit_nat_eq_self)
  then have "i \<noteq> 0" by auto
  then show "\<not> i < 1" by (simp add: word_less_1)
  show "\<exists>p. (p, i) \<in> set (at_tasks s)" using p by blast
qed

text \<open>Taking a number off the queue and starting its function.\<close>

lemma process_cases:
  assumes I: "tinv s"
  obtains (empty) "at_queue s = []" "processTimer s = s"
  | (gone) i q where "at_queue s = i # q" "map_of (at_infos s) i = None" "processTimer s = s\<lparr>at_queue := q, at_popped := at_popped s @ [i]\<rparr>"
  | (call) i q ti where "at_queue s = i # q" "(i, ti) \<in> set (at_infos s)"
      "processTimer s = s\<lparr>at_queue := q, at_popped := at_popped s @ [i], at_running := Some (i, ti_once ti), at_log := at_log s @ [(i, ti_fn ti)]\<rparr>"
proof (cases "at_queue s")
  case Nil
  then show ?thesis using empty by (simp add: processTimer_def at_Pop_def invoke_begin_def)
next
  case (Cons i q)
  note z = pop_nonzero(1) [OF I Cons]
  show ?thesis
  proof (cases "map_of (at_infos s) i")
    case None
    then show ?thesis using gone [OF Cons None] z Cons by (simp add: processTimer_def at_Pop_def invoke_begin_def)
  next
    case (Some ti)
    then show ?thesis using call [OF Cons map_of_SomeD [OF Some]] z Cons by (simp add: processTimer_def at_Pop_def invoke_begin_def)
  qed
qed

lemma pop_task_inv:
  assumes I: "tinv s" and q: "at_queue s = i # q"
  shows "task_inv (s\<lparr>at_queue := q, at_popped := at_popped s @ [i], at_running := r, at_log := l\<rparr>)"
proof -
  have c: "a + count_list q j + count_list (at_popped s @ [i]) j = a + count_list (at_queue s) j + count_list (at_popped s) j" for a j
    using q by (simp add: count_list_append)
  have "set (at_flight s) \<union> set q \<union> set (at_popped s @ [i]) = set (at_flight s) \<union> set (at_queue s) \<union> set (at_popped s)" using q by auto
  note T = tinvD(4) [OF I] and u = this
  let ?s = "s\<lparr>at_queue := q, at_popped := at_popped s @ [i], at_running := r, at_log := l\<rparr>"
  have f: "at_tasks ?s = at_tasks s" "at_wheel ?s = at_wheel s" "at_flight ?s = at_flight s" "at_queue ?s = q" "at_popped ?s = at_popped s @ [i]"
    by simp_all
  show ?thesis unfolding task_inv_def f u c using T unfolding task_inv_def .
qed

lemma processTimer_inv:
  assumes I: "tinv s" and run: "at_running s = None"
  shows "tinv (processTimer s)"
  using I
proof (cases rule: process_cases)
  case empty
  then show ?thesis using I by simp
next
  case (gone i q)
  note T = tinvD(4) [OF I] and N = tinvD(5) [OF I] and L = tinvD(6) [OF I]
  let ?s = "s\<lparr>at_queue := q, at_popped := at_popped s @ [i]\<rparr>"
  have no: "i \<notin> fst ` set (at_infos s)" using gone(2) by (auto simp: map_of_eq_None_iff)
  have f: "at_wheel ?s = at_wheel s" "at_popped ?s = at_popped s @ [i]" "at_tasks ?s = at_tasks s" "at_infos ?s = at_infos s"
    "at_log ?s = at_log s" "at_running ?s = at_running s" "at_stops ?s = at_stops s" by simp_all
  have "info_inv ?s"
    unfolding info_inv_def f
  proof (intro conjI allI impI)
    show "distinct (map fst (at_infos s))" by (rule info_invD(1) [OF N])
  next
    fix j ti assume m: "(j, ti) \<in> set (at_infos s)"
    show "(ti_timer ti, j) \<in> set (at_tasks s)" "ti_once ti \<longleftrightarrow> tm_sched (at_timers s ! ti_timer ti) = None"
      by (rule info_invD(2) [OF N m], rule info_invD(3) [OF N m])
    assume o: "ti_once ti" "j \<in> set (at_popped s @ [i])"
    have "j \<noteq> i" using no m by force
    then show "at_running s = Some (j, True)" using info_invD(4) [OF N m o(1)] o(2) by simp
  next
    fix p j assume p: "(p, j) \<in> set (at_tasks s)" "p \<notin> at_stops s"
    note e = info_invD(5,6) [OF N p]
    show "j \<in> fst ` set (at_infos s) \<or> tm_sched (at_timers s ! p) = None \<and> j \<in> set (at_popped s @ [i])" using e(1) by auto
    assume o: "tm_sched (at_timers s ! p) = None" "j \<in> set (at_popped s @ [i])"
    then have "j \<in> set (at_popped s)" using e(1) no by auto
    then show "calls s j = 1" using e(2) o(1) by blast
  qed
  moreover have "calls s j \<le> count_list (at_popped s @ [i]) j" for j using log_invD(1) [OF L, of j] by (simp add: count_list_append)
  then have "log_inv ?s" using L run by (simp add: log_inv_def f del: count_list_append)
  moreover have "task_inv ?s" using pop_task_inv [OF I gone(1), where r = "at_running s" and l = "at_log s"] by simp
  ultimately show ?thesis using I unfolding gone(3) by (simp add: tinv_def)
next
  case (call i q ti)
  note T = tinvD(4) [OF I] and N = tinvD(5) [OF I] and L = tinvD(6) [OF I]
  let ?s = "s\<lparr>at_queue := q, at_popped := at_popped s @ [i], at_running := Some (i, ti_once ti), at_log := at_log s @ [(i, ti_fn ti)]\<rparr>"
  have f: "at_wheel ?s = at_wheel s" "at_popped ?s = at_popped s @ [i]" "at_tasks ?s = at_tasks s" "at_infos ?s = at_infos s"
    "at_log ?s = at_log s @ [(i, ti_fn ti)]" "at_running ?s = Some (i, ti_once ti)" "at_stops ?s = at_stops s" by simp_all
  note task = info_invD(2) [OF N call(2)] and once = info_invD(3) [OF N call(2)]
  have fresh: "j \<notin> set (at_popped s)" if "(j, tj) \<in> set (at_infos s)" "ti_once tj" for j tj
    using info_invD(4) [OF N that] run by auto
  have same: "tj = ti" if "(i, tj) \<in> set (at_infos s)" for tj using that call(2) info_invD(1) [OF N] by (metis eq_key_imp_eq_value)
  have "info_inv ?s"
    unfolding info_inv_def f
  proof (intro conjI allI impI)
    show "distinct (map fst (at_infos s))" by (rule info_invD(1) [OF N])
  next
    fix j tj assume m: "(j, tj) \<in> set (at_infos s)"
    show "(ti_timer tj, j) \<in> set (at_tasks s)" "ti_once tj \<longleftrightarrow> tm_sched (at_timers s ! ti_timer tj) = None"
      by (rule info_invD(2) [OF N m], rule info_invD(3) [OF N m])
    assume o: "ti_once tj" "j \<in> set (at_popped s @ [i])"
    then have "j = i" using fresh [OF m o(1)] by simp
    then show "Some (i, ti_once ti) = Some (j, True)" using same m o(1) by simp
  next
    fix p j assume p: "(p, j) \<in> set (at_tasks s)" "p \<notin> at_stops s"
    note e = info_invD(5,6) [OF N p]
    show "j \<in> fst ` set (at_infos s) \<or> tm_sched (at_timers s ! p) = None \<and> j \<in> set (at_popped s @ [i])" using e(1) by auto
    assume o: "tm_sched (at_timers s ! p) = None" "j \<in> set (at_popped s @ [i])"
    show "count_list (map fst (at_log s @ [(i, ti_fn ti)])) j = 1"
    proof (cases "j = i")
      case True
      then have "p = ti_timer ti" using same_task [OF I p(1)] task by simp
      then have "ti_once ti" using once o(1) by simp
      then have "i \<notin> set (at_popped s)" by (rule fresh [OF call(2)])
      then have "calls s i = 0" using log_invD(1) [OF L, of i] by (simp add: count_list_0_iff)
      then show ?thesis using True by (simp add: count_list_append)
    next
      case False
      then show ?thesis using e(2) o by (simp add: count_list_append)
    qed
  qed
  moreover have "log_inv ?s"
    unfolding log_inv_def f
  proof (intro conjI allI impI)
    show "count_list (map fst (at_log s @ [(i, ti_fn ti)])) j \<le> count_list (at_popped s @ [i]) j" for j
      using log_invD(1) [OF L, of j] by (simp add: count_list_append)
    fix j b assume r: "Some (i, ti_once ti) = Some (j, b)"
    show "j \<in> set (at_popped s @ [i])" using r by simp
    fix p assume p: "(p, j) \<in> set (at_tasks s)"
    then have "p = ti_timer ti" using same_task [OF I _ task] r by simp
    then show "b \<longleftrightarrow> tm_sched (at_timers s ! p) = None" using once r by simp
  qed
  moreover have "task_inv ?s" by (rule pop_task_inv [OF I call(1)])
  ultimately show ?thesis using I unfolding call(3) by (simp add: tinv_def)
qed

text \<open>A new timer of this actor.\<close>

lemma fired_new:
  assumes "list_all (\<lambda>x. fst x = p) new" "p \<notin> fst ` set tasks"
  shows "fired (tasks @ [(p, i)]) new = replicate (length new) i" "fired tasks new = []"
proof -
  have "map_of tasks p = None" using assms(2) by (auto simp: map_of_eq_None_iff)
  with assms(1) show "fired (tasks @ [(p, i)]) new = replicate (length new) i" "fired tasks new = []"
    by (induction new) (auto simp: map_add_def)
qed


lemma create_inv:
  assumes I: "tinv s" and room: "at_room s" and sc: "valid_sched sc" and once: "once \<longleftrightarrow> sc = None"
    and mk: "\<And>i w. mk i w = new_timer i (e w) sc w"
  shows "\<exists>s'. create mk fn once s = Some (NextID (at_counter s), s') \<and> tinv s' \<and>
    NextID (at_counter s) = of_nat (Suc (length (at_timers s))) \<and>
    length (at_timers s') = Suc (length (at_timers s)) \<and> at_log s' = at_log s \<and> at_running s' = at_running s \<and>
    at_infos s' = AList.update (NextID (at_counter s)) \<lparr>ti_timer = length (at_timers s), ti_fn = fn, ti_once = once\<rparr> (at_infos s)"
proof -
  let ?n = "length (at_timers s)" and ?i = "NextID (at_counter s)"
  note S = tinvD(1) [OF I]
  have i: "?i = of_nat (Suc ?n)" using tinvD(3) [OF I] by (simp add: NextID_def add.commute)
  obtain w new where w: "new_timer ?i (e (at_wheel s)) sc (at_wheel s) = Some w" "tw_runs w = tw_runs (at_wheel s) @ new"
      "list_all (\<lambda>x. fst x = ?n) new" "length (tw_timers w) = Suc ?n" "\<And>x. x < ?n \<Longrightarrow> tw_timers w ! x = at_timers s ! x"
      "tm_id (tw_timers w ! ?n) = ?i" "tm_sched (tw_timers w ! ?n) = sc"
    using new_timer_grow [OF sys_invD(1) [OF S] sc, of ?i "e (at_wheel s)"] by blast
  have Sw: "sys_inv (at_now s) (at_stops s) w" using new_timer_sys [OF S sc, of ?i "e (at_wheel s)"] w(1) by auto
  let ?b = "(set_wheel w s)\<lparr>at_counter := of_nat (length (tw_timers w)), at_stops := at_stops s\<rparr>"
  have B: "tinv ?b"
    using room w(4,5) by (intro set_wheel_inv [OF I Sw order_refl w(2)]) (simp_all add: at_room_def)
  note T = tinvD(4) [OF I] and N = tinvD(5) [OF B] and L = tinvD(6) [OF B]
  have np: "?n \<notin> fst ` set (at_tasks s)" using task_invD(2) [OF T] by fastforce
  have ni: "?i \<notin> snd ` set (at_tasks s)"
  proof
    assume "?i \<in> snd ` set (at_tasks s)"
    then obtain p where p: "(p, ?i) \<in> set (at_tasks s)" by auto
    have "p < ?n" "(of_nat (Suc p) :: u64) = of_nat (Suc ?n)" using task_invD(2,3) [OF T p] i by simp_all
    then show False using of_nat_Suc_inj [of p ?n] room by (simp add: at_room_def)
  qed
  define x where "x = \<lparr>ti_timer = ?n, ti_fn = fn, ti_once = once\<rparr>"
  define s' where "s' = addTimerInfo ?n fn once (set_wheel w (s\<lparr>at_counter := ?i, at_tasks := at_tasks s @ [(?n, ?i)]\<rparr>))"
  have c: "create mk fn once s = Some (?i, s')" using w(1) by (simp add: create_def mk s'_def Let_def)
  have f: "at_wheel s' = w" "at_flight s' = at_flight s @ replicate (length new) ?i" "at_queue s' = at_queue s" "at_popped s' = at_popped s"
    "at_tasks s' = at_tasks s @ [(?n, ?i)]" "at_infos s' = AList.update ?i x (at_infos s)" "at_log s' = at_log s"
    "at_running s' = at_running s" "at_stops s' = at_stops s" "at_now s' = at_now s" "at_counter s' = ?i"
    unfolding s'_def addTimerInfo_def set_wheel_def x_def using w(2,6) fired_new(1) [OF w(3) np, of ?i] by simp_all
  have g: "at_wheel ?b = w" "at_flight ?b = at_flight s" "at_queue ?b = at_queue s" "at_popped ?b = at_popped s" "at_tasks ?b = at_tasks s"
    "at_infos ?b = at_infos s" "at_log ?b = at_log s" "at_running ?b = at_running s" "at_stops ?b = at_stops s"
    using w(2) fired_new(2) [OF w(3) np] by (simp_all add: set_wheel_def)
  note TB = task_invD [OF tinvD(4) [OF B], unfolded g] and NB = info_invD [OF N, unfolded g] and LB = log_invD [OF L, unfolded g]
  have z: "?i \<notin> set (at_flight s)" "?i \<notin> set (at_queue s)" "?i \<notin> set (at_popped s)" using T ni unfolding task_inv_def by blast+
  then have c0: "count_list (at_flight s) ?i = 0" "count_list (at_queue s) ?i = 0" "count_list (at_popped s) ?i = 0"
    by (simp_all add: count_list_0_iff)
  have r0: "run_count ?n (at_wheel s) = 0" using appended_inv(3) [OF sys_invD(1) [OF S] sc] by simp
  have rn: "filter (\<lambda>x. fst x = ?n) new = new" using w(3) by (simp add: filter_id_conv list_all_iff)
  have cr: "count_list (replicate k ?i) j = (if j = ?i then k else 0)" for k j by (induction k) auto
  have "task_inv s'"
    unfolding task_inv_def f
  proof (intro conjI allI impI)
    show "distinct (map fst (at_tasks s @ [(?n, ?i)]))" using TB(1) np by simp
    show "set (at_flight s @ replicate (length new) ?i) \<union> set (at_queue s) \<union> set (at_popped s) \<subseteq> snd ` set (at_tasks s @ [(?n, ?i)])"
      using T unfolding task_inv_def by auto
    fix p j assume p: "(p, j) \<in> set (at_tasks s @ [(?n, ?i)])"
    show "p < length (tw_timers w)" "j = of_nat (Suc p)" using p task_invD(2,3) [OF T, of p j] w(4) i by auto
    show "count_list (at_flight s @ replicate (length new) ?i) j + count_list (at_queue s) j + count_list (at_popped s) j = run_count p w"
    proof (cases "p = ?n")
      case True
      then have "j = ?i" using p np by force
      then show ?thesis using True c0 r0 rn by (simp add: count_list_append cr run_count_def w(2))
    next
      case False
      then have q: "(p, j) \<in> set (at_tasks s)" using p by simp
      then have "j \<noteq> ?i" using ni by force
      then show ?thesis using TB(5) [OF q] by (simp add: count_list_append cr)
    qed
  qed
  moreover have "info_inv s'"
    unfolding info_inv_def f
  proof (intro conjI allI impI)
    show "distinct (map fst (AList.update ?i x (at_infos s)))" using NB(1) by (rule distinct_update)
  next
    fix j ti assume "(j, ti) \<in> set (AList.update ?i x (at_infos s))"
    then consider "j = ?i" "ti = x" | "j \<noteq> ?i" "(j, ti) \<in> set (at_infos s)"
      using NB(1) by (metis (no_types, lifting) distinct_update map_of_eq_Some_iff map_of_update_other map_of_update_same option.inject)
    then show "(ti_timer ti, j) \<in> set (at_tasks s @ [(?n, ?i)])" "ti_once ti \<longleftrightarrow> tm_sched (tw_timers w ! ti_timer ti) = None"
      "ti_once ti \<Longrightarrow> j \<in> set (at_popped s) \<Longrightarrow> at_running s = Some (j, True)"
      by (cases; use NB(2,3,4) once w(7) z in \<open>auto simp: x_def\<close>)+
  next
    fix p j assume p: "(p, j) \<in> set (at_tasks s @ [(?n, ?i)])" "p \<notin> at_stops s"
    have k: "fst ` set (AList.update ?i x (at_infos s)) = insert ?i (fst ` set (at_infos s))" by (simp add: dom_update)
    show "j \<in> fst ` set (AList.update ?i x (at_infos s)) \<or> tm_sched (tw_timers w ! p) = None \<and> j \<in> set (at_popped s)"
      unfolding k using p NB(5) [of p j] by auto
    show "tm_sched (tw_timers w ! p) = None \<Longrightarrow> j \<in> set (at_popped s) \<Longrightarrow> calls s j = 1"
      using p NB(6) [of p j] z(3) by auto
  qed
  moreover have "log_inv s'"
    unfolding log_inv_def f
  proof (intro conjI allI impI)
    show "calls s j \<le> count_list (at_popped s) j" for j by (rule LB(1))
    fix j b assume r: "at_running s = Some (j, b)"
    show j: "j \<in> set (at_popped s)" by (rule LB(2) [OF r])
    show "b \<longleftrightarrow> tm_sched (tw_timers w ! p) = None" if "(p, j) \<in> set (at_tasks s @ [(?n, ?i)])" for p
      using LB(3) [OF r, of p] that j z(3) by auto
  qed
  moreover have "length (tw_timers w) < 2 ^ 64" using w(4) room by (simp add: at_room_def)
  ultimately have "tinv s'" using Sw i w(4) unfolding tinv_def f by simp
  then show ?thesis using c i w(4) f(1,6-8) unfolding x_def by (intro exI [of _ s']) simp
qed

section \<open>Steps\<close>

lemma create_id: "create mk fn once s = Some (i, s') \<Longrightarrow> i = NextID (at_counter s)"
  by (auto simp: create_def Let_def split: option.splits)

lemma millisecond: "1 \<le> TimeToMS d \<Longrightarrow> 1000000 \<le> d"
proof -
  assume a: "1 \<le> TimeToMS d"
  show ?thesis
  proof (cases "0 \<le> d")
    case True
    then have "1 \<le> d div 1000000" using a by (simp add: TimeToMS_def sdiv_pos)
    then show ?thesis by simp
  next
    case False
    then have "TimeToMS d \<le> 0" by (simp add: TimeToMS_def signed_divide_int_def sgn_if)
    then show ?thesis using a by simp
  qed
qed

lemma Add_inv:
  assumes "tinv s" "at_room s"
  shows "at_Add d fn s = Some (0, s) \<or> (\<exists>s' f. fn = Some f \<and> at_Add d fn s = Some (NextID (at_counter s), s') \<and> tinv s' \<and>
    NextID (at_counter s) = of_nat (Suc (length (at_timers s))) \<and> length (at_timers s') = Suc (length (at_timers s)) \<and>
    at_log s' = at_log s \<and> at_running s' = at_running s \<and>
    at_infos s' = AList.update (NextID (at_counter s)) \<lparr>ti_timer = length (at_timers s), ti_fn = f, ti_once = False\<rparr> (at_infos s))"
proof (cases "\<exists>f. fn = Some f \<and> \<not> TimeToMS d < 1")
  case True
  then obtain f where f: "fn = Some f" "\<not> TimeToMS d < 1" by blast
  then have "valid_sched (Some (EverySchedule d))" using millisecond [of d] by (simp add: valid_sched_def)
  from create_inv [OF assms this, of False "\<lambda>i. AddEveryFunc i (at_now s) d" "\<lambda>_. TimeToMS (at_now s + d)" f] show ?thesis
    using f by (simp add: at_Add_def AddEveryFunc_def ScheduleFunc_def)
qed (auto simp: at_Add_def split: option.split)

lemma AddOnce_inv:
  assumes "tinv s" "at_room s"
  shows "at_AddOnce d fn s = Some (0, s) \<or> (\<exists>s' f. fn = Some f \<and> at_AddOnce d fn s = Some (NextID (at_counter s), s') \<and> tinv s' \<and>
    NextID (at_counter s) = of_nat (Suc (length (at_timers s))) \<and> length (at_timers s') = Suc (length (at_timers s)) \<and>
    at_log s' = at_log s \<and> at_running s' = at_running s \<and>
    at_infos s' = AList.update (NextID (at_counter s)) \<lparr>ti_timer = length (at_timers s), ti_fn = f, ti_once = True\<rparr> (at_infos s))"
proof (cases "\<exists>f. fn = Some f \<and> \<not> TimeToMS d < 1")
  case True
  then obtain f where f: "fn = Some f" "\<not> TimeToMS d < 1" by blast
  have "valid_sched None" by (simp add: valid_sched_def)
  from create_inv [OF assms this, of True "\<lambda>i. AfterFunc i (at_now s) d" "\<lambda>_. TimeToMS (at_now s + d)" f] show ?thesis
    using f by (simp add: at_AddOnce_def AfterFunc_def)
qed (auto simp: at_AddOnce_def split: option.split)

lemma AddSchedule_inv:
  assumes "tinv s" "at_room s" "valid_sched sc"
  shows "at_AddSchedule sc fn s = Some (0, s) \<or> (\<exists>s' f. fn = Some f \<and> at_AddSchedule sc fn s = Some (NextID (at_counter s), s') \<and> tinv s' \<and>
    NextID (at_counter s) = of_nat (Suc (length (at_timers s))) \<and> length (at_timers s') = Suc (length (at_timers s)) \<and>
    at_log s' = at_log s \<and> at_running s' = at_running s \<and>
    at_infos s' = AList.update (NextID (at_counter s)) \<lparr>ti_timer = length (at_timers s), ti_fn = f, ti_once = False\<rparr> (at_infos s))"
proof (cases "\<exists>f x. fn = Some f \<and> sc = Some x")
  case True
  then obtain f x where f: "fn = Some f" "sc = Some x" by blast
  from create_inv [OF assms, of False "\<lambda>i. ScheduleFunc i (at_now s) x" "\<lambda>w. TimeToMS (sched_Next (tw_zone w) x (at_now s))" f] show ?thesis
    using f by (simp add: at_AddSchedule_def ScheduleFunc_def)
qed (auto simp: at_AddSchedule_def split: option.split)

lemma onStop_inv:
  assumes "tinv s"
  shows "\<exists>s'. at_onStop s = Some s' \<and> tinv s' \<and> at_infos s' = at_infos s \<and> at_log s' = at_log s \<and> at_running s' = at_running s \<and>
    length (at_timers s') = length (at_timers s)"
proof -
  have "ti_timer (snd x) < length (at_timers s)" if "x \<in> set (at_infos s)" for x
    using info_invD(2) [OF tinvD(5) [OF assms], of "fst x" "snd x"] task_invD(2) [OF tinvD(4) [OF assms]] that by simp
  then show ?thesis using at_RemoveAll_inv [OF assms, of "at_infos s"] by (auto simp: at_onStop_def)
qed

lemma other_add_inv:
  assumes I: "tinv s" and room: "at_room s" and sc: "valid_sched sc" and n: "new_timer i e sc (at_wheel s) = Some w"
  shows "tinv (set_wheel w (s\<lparr>at_counter := NextID (at_counter s)\<rparr>))" "length (tw_timers w) = Suc (length (at_timers s))"
proof -
  note S = tinvD(1) [OF I]
  obtain new where w: "tw_runs w = tw_runs (at_wheel s) @ new" "length (tw_timers w) = Suc (length (at_timers s))"
      "\<And>x. x < length (at_timers s) \<Longrightarrow> tw_timers w ! x = at_timers s ! x"
    using new_timer_grow [OF sys_invD(1) [OF S] sc, of i e] n by auto
  have "sys_inv (at_now s) (at_stops s) w" using new_timer_sys [OF S sc, of i e] n by auto
  from set_wheel_inv [OF I this order_refl w(1)] w(2,3) room
  have "tinv ((set_wheel w s)\<lparr>at_counter := of_nat (length (tw_timers w)), at_stops := at_stops s\<rparr>)" by (simp add: at_room_def)
  moreover have "of_nat (length (tw_timers w)) = NextID (at_counter s)" using w(2) tinvD(3) [OF I] by (simp add: NextID_def)
  moreover have "(set_wheel w s)\<lparr>at_counter := c, at_stops := at_stops s\<rparr> = set_wheel w (s\<lparr>at_counter := c\<rparr>)" for c
    by (rule actorTimer.equality) (simp_all add: set_wheel_def)
  ultimately show "tinv (set_wheel w (s\<lparr>at_counter := NextID (at_counter s)\<rparr>))" by simp
  show "length (tw_timers w) = Suc (length (at_timers s))" by (rule w(2))
qed

lemma tstep_inv: "tstep s s' \<Longrightarrow> tinv s \<Longrightarrow> tinv s'"
proof (induction rule: tstep.induct)
  case (add s d fn i s')
  then show ?case using Add_inv [of s d fn] by auto
next
  case (add_once s d fn i s')
  then show ?case using AddOnce_inv [of s d fn] by auto
next
  case (add_schedule s sc fn i s')
  then show ?case using AddSchedule_inv [of s sc fn] by auto
next
  case (remove i s s')
  then show ?case using at_Remove_inv [of s i] by auto
next
  case (on_stop s s')
  then show ?case using onStop_inv [of s] by auto
next
  case (push s xs i ys)
  then show ?case using push_inv by blast
next
  case (process s)
  then show ?case using processTimer_inv by blast
next
  case (ended s)
  then show ?case by (rule invoke_end_inv)
next
  case (tick s now')
  then show ?case using tick_inv by blast
next
  case (poll s w)
  then show ?case using poll_inv by blast
next
  case (other_add s sc e w)
  then show ?case using other_add_inv(1) by blast
next
  case (other_stop p s s')
  then show ?case using stop_timer_inv [of s p] by auto
qed

lemma new_inv:
  assumes "tw_reach now S w" "length (tw_timers w) < 2 ^ 64"
  shows "tinv (newTimer w now (of_nat (length (tw_timers w))) S)"
  using reach_sys_inv [OF assms(1)] assms(2) by (simp add: tinv_def task_inv_def info_inv_def log_inv_def newTimer_def)

lemma treach_inv: "treach s \<Longrightarrow> tinv s"
  by (induction rule: treach.induct) (blast intro: new_inv, blast intro: tstep_inv)

section \<open>One-shot timers, removal and firing\<close>

text \<open>A number without an entry is never called again.\<close>

definition gone :: "u64 \<Rightarrow> actorTimer \<Rightarrow> bool" where
  "gone i s \<longleftrightarrow> i \<notin> fst ` set (at_infos s) \<and> (\<exists>p < length (at_timers s). i = of_nat (Suc p))"

lemma gone_update:
  assumes g: "gone i s" and room: "at_room s" and j: "j = of_nat (Suc (length (at_timers s)))"
    and s': "length (at_timers s') = Suc (length (at_timers s))" "at_infos s' = AList.update j x (at_infos s)"
  shows "gone i s'"
proof -
  obtain p where p: "p < length (at_timers s)" "i = of_nat (Suc p)" using g by (auto simp: gone_def)
  then have "i \<noteq> j" using of_nat_Suc_inj [of p "length (at_timers s)"] room j by (simp add: at_room_def del: of_nat_Suc)
  then have "i \<notin> fst ` set (at_infos s')" using g by (simp add: gone_def s'(2) dom_update)
  then show ?thesis using p s'(1) by (auto simp: gone_def intro: exI [of _ p])
qed

lemma gone_step:
  assumes "tstep s s'" "tinv s" "gone i s"
  shows "gone i s' \<and> calls s' i = calls s i"
  using assms
proof (induction rule: tstep.induct)
  case (add s d fn j s')
  consider "s' = s" | f where "j = of_nat (Suc (length (at_timers s)))" "length (at_timers s') = Suc (length (at_timers s))" "at_log s' = at_log s"
      "at_infos s' = AList.update j \<lparr>ti_timer = length (at_timers s), ti_fn = f, ti_once = False\<rparr> (at_infos s)"
    using Add_inv [OF add.prems(1) add.hyps(1), of d fn] add.hyps(2) by auto
  then show ?case using add gone_update by cases (blast, auto)
next
  case (add_once s d fn j s')
  consider "s' = s" | f where "j = of_nat (Suc (length (at_timers s)))" "length (at_timers s') = Suc (length (at_timers s))" "at_log s' = at_log s"
      "at_infos s' = AList.update j \<lparr>ti_timer = length (at_timers s), ti_fn = f, ti_once = True\<rparr> (at_infos s)"
    using AddOnce_inv [OF add_once.prems(1) add_once.hyps(1), of d fn] add_once.hyps(2) by auto
  then show ?case using add_once gone_update by cases (blast, auto)
next
  case (add_schedule s sc fn j s')
  consider "s' = s" | f where "j = of_nat (Suc (length (at_timers s)))" "length (at_timers s') = Suc (length (at_timers s))" "at_log s' = at_log s"
      "at_infos s' = AList.update j \<lparr>ti_timer = length (at_timers s), ti_fn = f, ti_once = False\<rparr> (at_infos s)"
    using AddSchedule_inv [OF add_schedule.prems(1) add_schedule.hyps(1,2), of fn] add_schedule.hyps(3) by auto
  then show ?case using add_schedule gone_update by cases (blast, auto)
next
  case (remove j s s')
  have "at_infos s' = AList.delete j (at_infos s)" "at_log s' = at_log s" "length (at_timers s') = length (at_timers s)"
    using at_Remove_inv [OF remove.prems(1), of j] remove.hyps by auto
  then show ?case using remove.prems(2) by (auto simp: gone_def AList.delete_eq)
next
  case (on_stop s s')
  then show ?case using onStop_inv [OF on_stop.prems(1)] by (auto simp: gone_def)
next
  case (push s xs j ys)
  then show ?case by (simp add: gone_def at_Push_def)
next
  case (process s)
  from process.prems(1) show ?case
  proof (cases rule: process_cases)
    case (call j q ti)
    then have "j \<noteq> i" using process.prems(2) by (force simp: gone_def)
    then show ?thesis using call(3) process.prems(2) by (simp add: gone_def count_list_append)
  qed (use process.prems(2) in \<open>simp_all add: gone_def\<close>)
next
  case (ended s)
  then show ?case by (auto simp: gone_def invoke_end_def AList.delete_eq split: option.split)
next
  case (tick s now')
  then show ?case by (simp add: gone_def)
next
  case (poll s w)
  have "length (tw_timers w) = length (at_timers s)" using process_grow(2) [OF tinvD(1) [OF poll.prems(1)] poll.hyps] .
  then show ?case using poll.prems(2) by (simp add: gone_def set_wheel_def)
next
  case (other_add s sc e w)
  have "length (tw_timers w) = Suc (length (at_timers s))" using other_add_inv(2) [OF other_add.prems(1) other_add.hyps] .
  then show ?case using other_add.prems(2) by (auto simp: gone_def set_wheel_def intro: less_SucI)
next
  case (other_stop p s s')
  obtain s1 where s1: "stop_timer p s = Some s1" "length (at_timers s1) = length (at_timers s)" "s1 = s\<lparr>at_wheel := at_wheel s1, at_stops := insert p (at_stops s)\<rparr>"
    using stop_timer_inv [OF other_stop.prems(1) other_stop.hyps(1)] by blast
  have "at_infos s1 = at_infos s" "at_log s1 = at_log s" by (subst s1(3); simp)+
  then show ?case using other_stop.prems(2) other_stop.hyps(3) s1(1,2) by (simp add: gone_def)
qed

lemma gone_steps: "tstep\<^sup>*\<^sup>* s s' \<Longrightarrow> tinv s \<Longrightarrow> gone i s \<Longrightarrow> gone i s' \<and> calls s' i = calls s i \<and> tinv s'"
  by (induction rule: rtranclp_induct) (auto dest: gone_step tstep_inv)

text \<open>What working off the wheel and the queue keeps: the tasks, the stopped timers, the instant and the due time of one-shot timers.\<close>

definition same_timers :: "actorTimer \<Rightarrow> actorTimer \<Rightarrow> bool" where
  "same_timers s s' \<longleftrightarrow> at_tasks s' = at_tasks s \<and> at_stops s' = at_stops s \<and> at_now s' = at_now s \<and>
     length (at_timers s') = length (at_timers s) \<and>
     (\<forall>x < length (at_timers s). tm_sched (at_timers s' ! x) = tm_sched (at_timers s ! x) \<and>
        (tm_sched (at_timers s ! x) = None \<longrightarrow> tm_expiration (at_timers s' ! x) = tm_expiration (at_timers s ! x)))"

lemma same_timers_refl: "same_timers s s" by (simp add: same_timers_def)

lemma same_timers_trans: "same_timers s s' \<Longrightarrow> same_timers s' s'' \<Longrightarrow> same_timers s s''"
  by (simp add: same_timers_def)

lemma wheel_drains:
  "tinv s \<Longrightarrow> \<exists>s'. tstep\<^sup>*\<^sup>* s s' \<and> tinv s' \<and> same_timers s s' \<and> nothing_due (TimeToMS (at_now s')) (at_wheel s')"
proof (induction "rounds (TimeToMS (at_now s)) (at_wheel s)" arbitrary: s rule: wf_induct_rule [OF wf_lex_prod [OF wf_less_than wf_less_than]])
  case (1 s)
  note S = tinvD(1) [OF 1(2)]
  show ?case
  proof (cases "nothing_due (TimeToMS (at_now s)) (at_wheel s)")
    case True
    then show ?thesis using 1(2) same_timers_refl by blast
  next
    case False
    obtain w where w: "process_expired (TimeToMS (at_now s)) (at_wheel s) = Some w"
        "(rounds (TimeToMS (at_now s)) w, rounds (TimeToMS (at_now s)) (at_wheel s)) \<in> less_than <*lex*> less_than"
      using process_sys [OF S False] by blast
    let ?t = "set_wheel w s"
    have t: "tstep s ?t" "tinv ?t" "at_wheel ?t = w" "at_now ?t = at_now s" "at_tasks ?t = at_tasks s" "at_stops ?t = at_stops s"
      using poll [OF w(1)] poll_inv [OF 1(2) w(1)] by (simp_all add: set_wheel_def)
    have e: "same_timers s ?t" using process_grow(2-4) [OF S w(1)] by (simp add: same_timers_def t(3-6))
    have "(rounds (TimeToMS (at_now ?t)) (at_wheel ?t), rounds (TimeToMS (at_now s)) (at_wheel s)) \<in> less_than <*lex*> less_than"
      using w(2) by (simp only: t(3,4))
    from 1(1) [OF this t(2)] obtain s' where "tstep\<^sup>*\<^sup>* ?t s'" "tinv s'" "same_timers ?t s'" "nothing_due (TimeToMS (at_now s')) (at_wheel s')"
      by blast
    then show ?thesis using t(1) e same_timers_trans converse_rtranclp_into_rtranclp by metis
  qed
qed

lemma queue_drains:
  "tinv s \<Longrightarrow> \<exists>s'. tstep\<^sup>*\<^sup>* s s' \<and> tinv s' \<and> at_flight s' = [] \<and> at_queue s' = [] \<and> at_wheel s' = at_wheel s \<and>
     at_tasks s' = at_tasks s \<and> at_stops s' = at_stops s"
proof (induction "3 * length (at_flight s) + 2 * length (at_queue s) + of_bool (at_running s \<noteq> None)" arbitrary: s rule: less_induct)
  case less
  have go: ?case if "tstep s t" "at_wheel t = at_wheel s" "at_tasks t = at_tasks s" "at_stops t = at_stops s"
    "3 * length (at_flight t) + 2 * length (at_queue t) + of_bool (at_running t \<noteq> None) <
     3 * length (at_flight s) + 2 * length (at_queue s) + of_bool (at_running s \<noteq> None)" for t
    using less.hyps [OF that(5) tstep_inv [OF that(1) less.prems]] that(1-4) converse_rtranclp_into_rtranclp [of tstep s t] by metis
  show ?case
  proof (cases "at_flight s")
    case (Cons i ys)
    then have "tstep s (at_Push i (s\<lparr>at_flight := ys\<rparr>))" using push [of s "[]" i ys] by simp
    then show ?thesis by (rule go) (simp_all add: at_Push_def Cons)
  next
    case Nil
    show ?thesis
    proof (cases "at_running s")
      case (Some x)
      then show ?thesis by (intro go [OF ended [of s]]) (auto simp: invoke_end_def split: prod.split)
    next
      case None
      from less.prems show ?thesis
      proof (cases rule: process_cases)
        case empty
        then show ?thesis using Nil less.prems by blast
      next
        case (gone i q)
        then show ?thesis by (intro go [OF process [OF None]]) (simp_all add: None)
      next
        case (call i q ti)
        then show ?thesis by (intro go [OF process [OF None]]) (simp_all add: None)
      qed
    qed
  qed
qed

text \<open>
  C16. A timer of an actor is called at most as often as it fires on the wheel, so a one-shot timer at most once; and from the moment it is
  removed it is never called again, also when it had fired already and its number waits in the queue of the actor.
\<close>

theorem actor_timer_safe:
  assumes "treach s" "(p, i) \<in> set (at_tasks s)"
  shows "calls s i \<le> run_count p (at_wheel s) \<and> (tm_sched (at_timers s ! p) = None \<longrightarrow> calls s i \<le> 1) \<and>
    (at_Remove i s = Some s1 \<longrightarrow> tstep\<^sup>*\<^sup>* s1 s2 \<longrightarrow> calls s2 i = calls s i)"
proof -
  note I = treach_inv [OF assms(1)]
  note T = tinvD(4) [OF I] and S = sys_invD(1) [OF tinvD(1) [OF I]]
  have p: "p < length (at_timers s)" by (rule task_invD(2) [OF T assms(2)])
  have c: "calls s i \<le> run_count p (at_wheel s)"
    using log_invD(1) [OF tinvD(6) [OF I], of i] task_invD(5) [OF T assms(2)] by simp
  moreover have "tm_sched (at_timers s ! p) = None \<Longrightarrow> calls s i \<le> 1" using c tw_invD(8) [OF S p] by simp
  moreover have "calls s2 i = calls s i" if r: "at_Remove i s = Some s1" "tstep\<^sup>*\<^sup>* s1 s2"
  proof -
    have s1: "tinv s1" "at_log s1 = at_log s" "at_infos s1 = AList.delete i (at_infos s)" "length (at_timers s1) = length (at_timers s)"
      using at_Remove_inv [OF I, of i] r(1) by auto
    have "gone i s1" using p task_invD(3) [OF T assms(2)] by (auto simp: gone_def s1(3,4) AList.delete_eq)
    then show ?thesis using gone_steps [OF r(2) s1(1)] s1(2) by simp
  qed
  ultimately show ?thesis by blast
qed




section \<open>Example\<close>

definition demo_timer0 :: actorTimer where "demo_timer0 = newTimer demo_wheel 0 0 {}"
definition demo_timer1 :: actorTimer where "demo_timer1 = snd (the (at_AddOnce 3000000 (Some 9) demo_timer0))"
definition demo_timer2 :: actorTimer where "demo_timer2 = demo_timer1\<lparr>at_now := 5000000\<rparr>"

lemma demo_timer_fields:
  "length (tw_timers demo_wheel) = 0" "length (at_timers demo_timer0) = 0" "(0, 1) \<in> set (at_tasks demo_timer1)" "at_now demo_timer1 = 0"
  "tm_sched (at_timers demo_timer1 ! 0) = None" "tm_expiration (at_timers demo_timer1 ! 0) = 3" "list_all (\<lambda>x. x = (0, 1)) (at_tasks demo_timer1)"
  by code_simp+

lemma demo_timer_stops: "at_stops demo_timer1 = {}"
  by (simp add: demo_timer1_def demo_timer0_def at_AddOnce_def newTimer_def) code_simp

lemma demo_treach: "treach demo_timer0" "treach demo_timer1" "treach demo_timer2"
proof -
  show z: "treach demo_timer0" using treach.new [OF demo_reach(1)] by (simp add: demo_timer0_def demo_timer_fields(1))
  have room: "at_room demo_timer0" by (simp add: at_room_def demo_timer_fields(2))
  obtain i s' where "at_AddOnce 3000000 (Some 9) demo_timer0 = Some (i, s')"
    using AddOnce_inv [OF treach_inv [OF z] room, of 3000000 "Some 9"] by auto
  then have a: "at_AddOnce 3000000 (Some 9) demo_timer0 = Some (i, demo_timer1)" by (simp add: demo_timer1_def)
  show o: "treach demo_timer1" by (rule treach.step [OF z add_once [OF room a]])
  show "treach demo_timer2" unfolding demo_timer2_def by (rule treach.step [OF o tick]) (simp add: demo_timer_fields)
qed

theorem actor_timer_safe_witness: "calls demo_timer1 1 \<le> run_count 0 (at_wheel demo_timer1) \<and> calls demo_timer1 1 \<le> 1"
  using actor_timer_safe [OF demo_treach(2) demo_timer_fields(3)] demo_timer_fields(5) by simp



end
