(* ===== verification/Digits.thy ===== *)
theory Digits
  imports Go_Prelude
begin

text \<open>
  Number systems: the digits of a number in a base, most significant first, and alphabets of
  digits with the tables that read them back. The base-58 encoder and the base-32 and base-58
  forms of snowflake ids are interpretations of the locale.
\<close>

section \<open>Digits\<close>

fun to_digits :: "nat \<Rightarrow> nat \<Rightarrow> nat list" where
  "to_digits b n = (if b < 2 \<or> n = 0 then [] else to_digits b (n div b) @ [n mod b])"

declare to_digits.simps [simp del]

definition from_digits :: "nat \<Rightarrow> nat list \<Rightarrow> nat" where
  "from_digits b ds = foldl (\<lambda>a d. a * b + d) 0 ds"

lemma to_digits_0 [simp]: "to_digits b 0 = []"
  by (subst to_digits.simps) simp

lemma to_digits_rec: "2 \<le> b \<Longrightarrow> 0 < n \<Longrightarrow> to_digits b n = to_digits b (n div b) @ [n mod b]"
  by (subst to_digits.simps) simp

lemma from_digits_simps [simp]:
  "from_digits b [] = 0" "from_digits b (ds @ [d]) = from_digits b ds * b + d" "from_digits b [d] = d"
  by (simp_all add: from_digits_def)

lemma foldl_digits: "foldl (\<lambda>a d. a * b + d) x ds = x * b ^ length ds + from_digits b ds"
proof (induction ds rule: rev_induct)
  case (snoc d ds)
  then show ?case by (simp add: from_digits_def algebra_simps)
qed simp

lemma from_digits_append: "from_digits b (xs @ ys) = from_digits b xs * b ^ length ys + from_digits b ys"
proof -
  have "from_digits b (xs @ ys) = foldl (\<lambda>a d. a * b + d) (from_digits b xs) ys" by (simp add: from_digits_def)
  then show ?thesis by (simp only: foldl_digits)
qed

lemma from_digits_less: "2 \<le> b \<Longrightarrow> \<forall>d \<in> set ds. d < b \<Longrightarrow> from_digits b ds < b ^ length ds"
proof (induction ds rule: rev_induct)
  case (snoc d ds)
  then have "from_digits b ds + 1 \<le> b ^ length ds" "d < b" by simp_all
  then have "(from_digits b ds + 1) * b \<le> b ^ length ds * b" by (intro mult_right_mono) auto
  then show ?case using \<open>d < b\<close> by (simp add: algebra_simps)
qed simp

lemma from_to_digits [simp]: "2 \<le> b \<Longrightarrow> from_digits b (to_digits b n) = n"
proof (induction b n rule: to_digits.induct)
  case (1 b n)
  then show ?case by (cases "n = 0") (simp_all add: to_digits_rec)
qed

lemma to_digits_less: "2 \<le> b \<Longrightarrow> d \<in> set (to_digits b n) \<Longrightarrow> d < b"
proof (induction b n rule: to_digits.induct)
  case (1 b n)
  then show ?case by (cases "n = 0") (auto simp: to_digits_rec)
qed

lemma to_digits_hd: "2 \<le> b \<Longrightarrow> 0 < n \<Longrightarrow> \<exists>d ds. to_digits b n = d # ds \<and> d \<noteq> 0"
proof (induction b n rule: to_digits.induct)
  case (1 b n)
  show ?case
  proof (cases "n div b = 0")
    case True
    then have "n < b" using 1 by (simp add: div_eq_0_iff)
    then show ?thesis using 1 by (simp add: to_digits_rec)
  next
    case False
    then obtain d ds where "to_digits b (n div b) = d # ds" "d \<noteq> 0" using 1 by auto
    then show ?thesis using 1 by (simp add: to_digits_rec)
  qed
qed

lemma to_from_digits:
  "2 \<le> b \<Longrightarrow> \<forall>d \<in> set ds. d < b \<Longrightarrow> ds = [] \<or> hd ds \<noteq> 0 \<Longrightarrow> to_digits b (from_digits b ds) = ds"
proof (induction ds rule: rev_induct)
  case (snoc d ds)
  have d: "d < b" using snoc.prems by simp
  show ?case
  proof (cases "ds = []")
    case True
    then show ?thesis using snoc.prems d by (simp add: to_digits_rec)
  next
    case False
    have IH: "to_digits b (from_digits b ds) = ds" using snoc False by simp
    then have "0 < from_digits b ds" using False by (metis gr0I to_digits_0)
    then have "0 < from_digits b ds * b + d" using snoc.prems by simp
    moreover have "(from_digits b ds * b + d) div b = from_digits b ds" "(from_digits b ds * b + d) mod b = d"
      using d by simp_all
    ultimately show ?thesis using IH snoc.prems by (simp add: to_digits_rec)
  qed
qed simp

text \<open>The low digits, least significant first and padded with zeros.\<close>

fun low_digits :: "nat \<Rightarrow> nat \<Rightarrow> nat \<Rightarrow> nat list" where
  "low_digits b 0 n = []"
| "low_digits b (Suc k) n = n mod b # low_digits b k (n div b)"

lemma low_digits_mod: "2 \<le> b \<Longrightarrow> low_digits b k (n mod b ^ k) = low_digits b k n"
proof (induction k arbitrary: n)
  case (Suc k)
  have "n mod b ^ Suc k mod b = n mod b" by (simp add: mod_mod_cancel)
  moreover have "n mod b ^ Suc k div b = n div b mod b ^ k" using Suc.prems by (simp add: mod_mult2_eq)
  ultimately show ?case using Suc by simp
qed simp

lemma to_digits_split:
  "2 \<le> b \<Longrightarrow> 0 < n div b ^ k \<Longrightarrow> to_digits b n = to_digits b (n div b ^ k) @ rev (low_digits b k n)"
proof (induction k arbitrary: n)
  case (Suc k)
  have d: "n div b ^ Suc k = n div b div b ^ k" by (simp add: div_mult2_eq)
  then have "to_digits b (n div b) = to_digits b (n div b div b ^ k) @ rev (low_digits b k (n div b))"
    using Suc by simp
  moreover have "0 < n" using Suc.prems(2) by (auto intro: gr0I)
  ultimately show ?case using Suc.prems(1) d by (simp add: to_digits_rec)
qed simp

section \<open>Alphabets\<close>

text \<open>The characters that stand for the digits of a base, and a table that reads them back.\<close>

locale alphabet =
  fixes base :: nat and letters :: string and val :: "char \<Rightarrow> nat"
  assumes base: "2 \<le> base" and letters: "length letters = base"
    and value_letter: "i < base \<Longrightarrow> val (letters ! i) = i"
begin

lemma value_map: "\<forall>d \<in> set ds. d < base \<Longrightarrow> map val (map (\<lambda>d. letters ! d) ds) = ds"
  by (induction ds) (simp_all add: value_letter)

lemma letter_inj: "i < base \<Longrightarrow> j < base \<Longrightarrow> letters ! i = letters ! j \<longleftrightarrow> i = j"
  using value_letter by metis

lemma number_map: "from_digits base (map val (map (\<lambda>d. letters ! d) (to_digits base n))) = n"
  using value_map [of "to_digits base n"] to_digits_less [OF base] base by simp

lemma map_value: "set cs \<subseteq> set letters \<Longrightarrow> map (\<lambda>d. letters ! d) (map val cs) = cs"
  by (induction cs) (auto simp: in_set_conv_nth letters value_letter)

lemma value_less: "c \<in> set letters \<Longrightarrow> val c < base"
  by (auto simp: in_set_conv_nth letters value_letter)

end

end
