(* ===== verification/Base58.thy ===== *)
theory Base58
  imports Digits
begin

text \<open>
  The base-58 encoder of \<open>src/extend/base58/base58.go\<close>, which works on chunks of ten digits so that most of its
  arithmetic is on 64 bits. A big integer is a natural number; the chunks stay below \<open>58 ^ 10\<close>, so the 64-bit
  arithmetic on them never wraps. An error is the illegal character and its position.
\<close>

section \<open>Encoding\<close>

definition alphabet58 :: string where
  "alphabet58 = ''123456789ABCDEFGHJKLMNPQRSTUVWXYZabcdefghijkmnopqrstuvwxyz''"

definition b58table :: "nat list" where
  "b58table = [
    255, 255, 255, 255, 255, 255, 255, 255, 255, 255, 255, 255, 255, 255, 255, 255, 255, 255, 255, 255, 255, 255, 255, 255, 255, 255, 255, 255, 255, 255, 255, 255,
    255, 255, 255, 255, 255, 255, 255, 255, 255, 255, 255, 255, 255, 255, 255, 255, 255, 0, 1, 2, 3, 4, 5, 6, 7, 8, 255, 255, 255, 255, 255, 255,
    255, 9, 10, 11, 12, 13, 14, 15, 16, 255, 17, 18, 19, 20, 21, 255, 22, 23, 24, 25, 26, 27, 28, 29, 30, 31, 32, 255, 255, 255, 255, 255,
    255, 33, 34, 35, 36, 37, 38, 39, 40, 41, 42, 43, 255, 44, 45, 46, 47, 48, 49, 50, 51, 52, 53, 54, 55, 56, 57, 255, 255, 255, 255, 255,
    255, 255, 255, 255, 255, 255, 255, 255, 255, 255, 255, 255, 255, 255, 255, 255, 255, 255, 255, 255, 255, 255, 255, 255, 255, 255, 255, 255, 255, 255, 255, 255,
    255, 255, 255, 255, 255, 255, 255, 255, 255, 255, 255, 255, 255, 255, 255, 255, 255, 255, 255, 255, 255, 255, 255, 255, 255, 255, 255, 255, 255, 255, 255, 255,
    255, 255, 255, 255, 255, 255, 255, 255, 255, 255, 255, 255, 255, 255, 255, 255, 255, 255, 255, 255, 255, 255, 255, 255, 255, 255, 255, 255, 255, 255, 255, 255,
    255, 255, 255, 255, 255, 255, 255, 255, 255, 255, 255, 255, 255, 255, 255, 255, 255, 255, 255, 255, 255, 255, 255, 255, 255, 255, 255, 255, 255, 255, 255, 255]"

definition bigIntermediateRadix :: nat where
  "bigIntermediateRadix = 430804206899405824"

text \<open>The inner loop, with the number of rounds it may still take.\<close>

fun encode_chunk :: "nat \<Rightarrow> nat \<Rightarrow> nat \<Rightarrow> string \<Rightarrow> string" where
  "encode_chunk num prim 0 out = out"
| "encode_chunk num prim (Suc i) out =
     (if num > 0 \<or> prim > 0 then encode_chunk num (prim div 58) i (out @ [alphabet58 ! (prim mod 58)]) else out)"

function encode_loop :: "nat \<Rightarrow> string \<Rightarrow> string" where
  "encode_loop num out =
     (if num > 0 then encode_loop (num div bigIntermediateRadix)
        (encode_chunk (num div bigIntermediateRadix) (num mod bigIntermediateRadix) 10 out)
      else out)"
  by auto
termination
  by (relation "measure fst") (auto simp: bigIntermediateRadix_def)

declare encode_loop.simps [simp del]

definition big_SetBytes :: "byte list \<Rightarrow> nat" where
  "big_SetBytes input = from_digits 256 (map unat input)"

definition big_Bytes :: "nat \<Rightarrow> byte list" where
  "big_Bytes n = map of_nat (to_digits 256 n)"

definition Encode :: "byte list \<Rightarrow> string" where
  "Encode input = rev (encode_loop (big_SetBytes input) [] @ map (\<lambda>_. alphabet58 ! 0) (takeWhile (\<lambda>x. x = 0) input))"

section \<open>Decoding\<close>

text \<open>
  The inner loop from position \<open>i\<close>: it takes one character and goes on to the next multiple of ten. It answers the position, the rest
  of the input, the number of the chunk and the factor for what came before.
\<close>

fun decode_chunk :: "nat \<Rightarrow> string \<Rightarrow> bool \<Rightarrow> nat \<Rightarrow> nat \<Rightarrow> (char \<times> nat) + (nat \<times> string \<times> nat \<times> nat)" where
  "decode_chunk i [] f a m = Inr (i, [], a, m)"
| "decode_chunk i (c # cs) f a m =
     (if f \<or> i mod 10 \<noteq> 0 then
        (let tmp = b58table ! of_char c in
         if tmp = 255 then Inl (c, i) else decode_chunk (Suc i) cs False (a * 58 + tmp) (if \<not> f then m * 58 else m))
      else Inr (i, c # cs, a, m))"

lemma decode_chunk_length: "decode_chunk i cs f a m = Inr (i', rest, a', m') \<Longrightarrow> length rest \<le> length cs"
  by (induction i cs f a m rule: decode_chunk.induct) (auto simp: Let_def split: if_splits)

lemma decode_chunk_shrinks: "decode_chunk i (c # cs) True a m = Inr (i', rest, a', m') \<Longrightarrow> length rest \<le> length cs"
  using decode_chunk_length by (fastforce simp: Let_def split: if_splits)

function decode_loop :: "nat \<Rightarrow> string \<Rightarrow> nat \<Rightarrow> (char \<times> nat) + nat" where
  "decode_loop i cs result =
     (case cs of
        [] \<Rightarrow> Inr result
      | c # cs' \<Rightarrow>
          (case decode_chunk i (c # cs') True 0 58 of
             Inl e \<Rightarrow> Inl e
           | Inr (i', rest, a, m) \<Rightarrow> decode_loop i' rest (result * m + a)))"
  by pat_completeness auto
termination
  by (relation "measure (\<lambda>(i, cs, r). length cs)") (auto dest!: decode_chunk_shrinks simp del: decode_chunk.simps)

declare decode_loop.simps [simp del]

definition Decode :: "string \<Rightarrow> (char \<times> nat) + byte list" where
  "Decode input =
     (case decode_loop 0 input 0 of
        Inl e \<Rightarrow> Inl e
      | Inr result \<Rightarrow> Inr (map (\<lambda>_. 0) (takeWhile (\<lambda>c. c = CHR ''1'') input) @ big_Bytes result))"

section \<open>The chunks make up the digits\<close>

lemma b58_letters: "list_all (\<lambda>i. b58table ! of_char (alphabet58 ! i) = i) [0..<58]" "length alphabet58 = 58"
  by code_simp+

lemma b58_table: "list_all (\<lambda>(n, v). v = 255 \<or> v < 58 \<and> of_char (alphabet58 ! v) = n) (enumerate 0 b58table)"
  by (simp add: b58table_def alphabet58_def)

lemma b58_illegal: "b58table ! of_char c = 255 \<longleftrightarrow> c \<notin> set alphabet58"
proof -
  let ?v = "b58table ! of_char c"
  have l: "b58table ! of_char (alphabet58 ! i) = i" if "i < 58" for i using b58_letters(1) that by (simp add: list_all_iff)
  have "length b58table = 256" by (simp add: b58table_def)
  then have "(of_char c, ?v) \<in> set (enumerate 0 b58table)" by (simp add: in_set_enumerate_eq)
  then have "?v = 255 \<or> ?v < 58 \<and> (of_char (alphabet58 ! ?v) :: nat) = of_char c"
    using b58_table unfolding list_all_iff by fastforce
  moreover have "c \<in> set alphabet58" if "?v < 58" "(of_char (alphabet58 ! ?v) :: nat) = of_char c"
  proof -
    have "alphabet58 ! ?v = c" using that(2) by simp
    then show ?thesis using that(1) b58_letters(2) nth_mem [of ?v alphabet58] by simp
  qed
  moreover have "?v \<noteq> 255" if "c \<in> set alphabet58"
  proof -
    obtain i where "i < 58" "c = alphabet58 ! i" using \<open>c \<in> set alphabet58\<close> b58_letters(2) by (auto simp: in_set_conv_nth)
    then show ?thesis using l by simp
  qed
  ultimately show ?thesis by blast
qed

interpretation b58: alphabet 58 alphabet58 "\<lambda>c. b58table ! of_char c"
  using b58_letters by unfold_locales (auto simp: list_all_iff)

abbreviation letter58 :: "nat \<Rightarrow> char" where
  "letter58 d \<equiv> alphabet58 ! d"

abbreviation digit58 :: "char \<Rightarrow> nat" where
  "digit58 c \<equiv> b58table ! of_char c"

lemma letter58_0: "letter58 0 = CHR ''1''"
  by (simp add: alphabet58_def)

lemma encode_chunk_full: "0 < num \<Longrightarrow> encode_chunk num prim k out = out @ map letter58 (low_digits 58 k prim)"
  by (induction num prim k out rule: encode_chunk.induct) auto

lemma encode_chunk_last: "prim < 58 ^ k \<Longrightarrow> encode_chunk 0 prim k out = out @ map letter58 (rev (to_digits 58 prim))"
proof (induction "0 :: nat" prim k out rule: encode_chunk.induct)
  case (2 prim k out)
  show ?case
  proof (cases "prim = 0")
    case False
    have "prim div 58 < 58 ^ k" using 2(2) by (simp add: div_less_iff_less_mult mult.commute)
    then show ?thesis using 2(1) False by (simp add: to_digits_rec [of 58 prim])
  qed simp
qed simp

lemma radix: "bigIntermediateRadix = 58 ^ 10"
  by (simp add: bigIntermediateRadix_def)

lemma encode_loop_digits: "encode_loop num out = out @ map letter58 (rev (to_digits 58 num))"
proof (induction num out rule: encode_loop.induct)
  case (1 num out)
  let ?q = "num div bigIntermediateRadix" and ?r = "num mod bigIntermediateRadix"
  show ?case
  proof (cases "num = 0")
    case True
    then show ?thesis by (simp add: encode_loop.simps)
  next
    case False
    then have "encode_loop num out = encode_chunk ?q ?r 10 out @ map letter58 (rev (to_digits 58 ?q))"
      using 1 by (subst encode_loop.simps) simp
    also have "\<dots> = out @ map letter58 (rev (to_digits 58 num))"
    proof (cases "?q = 0")
      case True
      have "?r < 58 ^ 10" unfolding radix by simp
      moreover have "?r = num" using True unfolding radix by (simp add: div_eq_0_iff)
      ultimately show ?thesis using True encode_chunk_last [of ?r 10 out] by simp
    next
      case False
      then have "to_digits 58 num = to_digits 58 ?q @ rev (low_digits 58 10 num)" "low_digits 58 10 ?r = low_digits 58 10 num"
        using to_digits_split [of 58 num 10, folded radix] low_digits_mod [of 58 10 num, folded radix] by simp_all
      then show ?thesis using False encode_chunk_full [of ?q ?r 10 out] by simp
    qed
    finally show ?thesis .
  qed
qed

lemma decode_chunk_ok:
  "set cs \<subseteq> set alphabet58 \<Longrightarrow> \<exists>p rest. cs = p @ rest \<and> (f \<and> cs \<noteq> [] \<longrightarrow> p \<noteq> []) \<and>
     decode_chunk i cs f a m = Inr (i + length p, rest, foldl (\<lambda>a d. a * 58 + d) a (map digit58 p), m * 58 ^ (length p - of_bool f))"
proof (induction i cs f a m rule: decode_chunk.induct)
  case (2 i c cs f a m)
  show ?case
  proof (cases "f \<or> i mod 10 \<noteq> 0")
    case True
    have tmp: "digit58 c \<noteq> 255" using 2(2) b58_illegal by simp
    obtain p rest where p: "cs = p @ rest"
      "decode_chunk (Suc i) cs False (a * 58 + digit58 c) (if \<not> f then m * 58 else m) =
       Inr (Suc i + length p, rest, foldl (\<lambda>a d. a * 58 + d) (a * 58 + digit58 c) (map digit58 p), (if \<not> f then m * 58 else m) * 58 ^ length p)"
      using 2(1) [OF True refl tmp] 2(2) by auto
    show ?thesis
      by (rule exI [of _ "c # p"], rule exI [of _ rest]) (use p True tmp in \<open>simp add: Let_def\<close>)
  next
    case False
    then show ?thesis by (intro exI [of _ "[]"] exI [of _ "c # cs"]) simp
  qed
qed simp

lemma decode_loop_ok: "set cs \<subseteq> set alphabet58 \<Longrightarrow> decode_loop i cs r = Inr (foldl (\<lambda>a d. a * 58 + d) r (map digit58 cs))"
proof (induction i cs r rule: decode_loop.induct)
  case (1 i cs r)
  show ?case
  proof (cases cs)
    case Nil
    then show ?thesis by (simp add: decode_loop.simps)
  next
    case (Cons c cs')
    obtain p rest where p: "c # cs' = p @ rest" "p \<noteq> []"
      "decode_chunk i (c # cs') True 0 58 = Inr (i + length p, rest, foldl (\<lambda>a d. a * 58 + d) 0 (map digit58 p), 58 * 58 ^ (length p - 1))"
    proof -
      have "set (c # cs') \<subseteq> set alphabet58" using 1(2) Cons by simp
      from decode_chunk_ok [OF this, of True i 0 58] show ?thesis using that by (auto simp del: decode_chunk.simps)
    qed
    have "set rest \<subseteq> set alphabet58" using 1(2) Cons p(1) by (metis Un_subset_iff set_append)
    from 1(1) [OF Cons p(3) refl refl refl this]
    have "decode_loop i cs r = Inr (foldl (\<lambda>a d. a * 58 + d) (r * (58 * 58 ^ (length p - 1)) + foldl (\<lambda>a d. a * 58 + d) 0 (map digit58 p)) (map digit58 rest))"
      using Cons p(3) by (subst decode_loop.simps) simp
    moreover have "58 * 58 ^ (length p - 1) = (58 :: nat) ^ length p" using p(2) by (cases p) simp_all
    then have "r * (58 * 58 ^ (length p - 1)) + foldl (\<lambda>a d. a * 58 + d) 0 (map digit58 p) = foldl (\<lambda>a d. a * 58 + d) r (map digit58 p)"
      by (simp add: foldl_digits [of 58 r] from_digits_def)
    ultimately show ?thesis using Cons p(1) by simp
  qed
qed

text \<open>The first illegal character ends the decoding, wherever the chunks lie.\<close>

lemma decode_chunk_illegal:
  assumes "set p \<subseteq> set alphabet58" "x \<notin> set alphabet58"
  shows "decode_chunk i (p @ x # q) f a m = Inl (x, i + length p) \<or>
    (\<exists>p1 p2 a' m'. p = p1 @ p2 \<and> decode_chunk i (p @ x # q) f a m = Inr (i + length p1, p2 @ x # q, a', m'))"
  using assms
proof (induction p arbitrary: i f a m)
  case Nil
  then show ?case using b58_illegal by simp
next
  case (Cons c p)
  show ?case
  proof (cases "f \<or> i mod 10 \<noteq> 0")
    case True
    have "digit58 c \<noteq> 255" using Cons.prems b58_illegal by simp
    then have d: "decode_chunk i ((c # p) @ x # q) f a m = decode_chunk (Suc i) (p @ x # q) False (a * 58 + digit58 c) (if \<not> f then m * 58 else m)"
      using True by (simp add: Let_def)
    have "set p \<subseteq> set alphabet58" using Cons.prems by simp
    from Cons.IH [OF this Cons.prems(2), of "Suc i" False "a * 58 + digit58 c" "if \<not> f then m * 58 else m"]
    consider "decode_chunk (Suc i) (p @ x # q) False (a * 58 + digit58 c) (if \<not> f then m * 58 else m) = Inl (x, Suc i + length p)"
      | p1 p2 a' m' where "p = p1 @ p2"
        "decode_chunk (Suc i) (p @ x # q) False (a * 58 + digit58 c) (if \<not> f then m * 58 else m) = Inr (Suc i + length p1, p2 @ x # q, a', m')"
      by blast
    then show ?thesis
    proof cases
      case 1
      then show ?thesis using d by simp
    next
      case 2
      then have "c # p = (c # p1) @ p2" "decode_chunk i ((c # p) @ x # q) f a m = Inr (i + length (c # p1), p2 @ x # q, a', m')"
        using d by simp_all
      then show ?thesis by blast
    qed
  next
    case False
    then have "decode_chunk i ((c # p) @ x # q) f a m = Inr (i + length ([] :: string), (c # p) @ x # q, a, m)" by simp
    moreover have "c # p = [] @ c # p" by simp
    ultimately show ?thesis by blast
  qed
qed

lemma decode_loop_illegal:
  "set p \<subseteq> set alphabet58 \<Longrightarrow> x \<notin> set alphabet58 \<Longrightarrow> decode_loop i (p @ x # q) r = Inl (x, i + length p)"
proof (induction "length p" arbitrary: p i r rule: less_induct)
  case less
  obtain c cs where c: "p @ x # q = c # cs" by (cases p) auto
  consider "decode_chunk i (c # cs) True 0 58 = Inl (x, i + length p)"
    | p1 p2 a m where "p = p1 @ p2" "decode_chunk i (c # cs) True 0 58 = Inr (i + length p1, p2 @ x # q, a, m)"
    using decode_chunk_illegal [OF less.prems, of i q True 0 58] c by metis
  then show ?case
  proof cases
    case 1
    then show ?thesis using c by (subst decode_loop.simps) simp
  next
    case 2
    have "length (p2 @ x # q) < length (c # cs)" using decode_chunk_shrinks [OF 2(2)] by simp
    then have "length p2 < length p" using c by (metis (no_types, lifting) add_less_cancel_right length_append)
    moreover have "set p2 \<subseteq> set alphabet58" using less.prems 2(1) by simp
    ultimately have "decode_loop (i + length p1) (p2 @ x # q) (r * m + a) = Inl (x, i + length p1 + length p2)"
      using less.hyps less.prems(2) by blast
    then show ?thesis using c 2 by (subst decode_loop.simps) simp
  qed
qed

section \<open>Bytes and leading zeros\<close>

lemma leading_split: "xs = replicate (length (takeWhile (\<lambda>x. x = z) xs)) z @ dropWhile (\<lambda>x. x = z) xs"
  by (induction xs) auto

lemma dropWhile_hd: "dropWhile (\<lambda>x. x = z) xs = [] \<or> hd (dropWhile (\<lambda>x. x = z) xs) \<noteq> z"
  by (induction xs) auto

lemma takeWhile_replicate: "ys = [] \<or> hd ys \<noteq> z \<Longrightarrow> takeWhile (\<lambda>x. x = z) (replicate k z @ ys) = replicate k z"
  by (induction k) (cases ys, simp_all)

lemma from_digits_zeros [simp]: "from_digits b (replicate k 0 @ ds) = from_digits b ds"
proof -
  have "from_digits b (replicate k 0) = 0"
    by (induction k) (simp_all add: replicate_append_same [symmetric] from_digits_append)
  then show ?thesis by (simp add: from_digits_append)
qed

lemma big_Set_zeros [simp]: "big_SetBytes (replicate k 0 @ x) = big_SetBytes x"
  by (simp add: big_SetBytes_def map_replicate)

lemma big_Bytes_Set: "x = [] \<or> hd x \<noteq> 0 \<Longrightarrow> big_Bytes (big_SetBytes x) = x"
proof -
  assume x: "x = [] \<or> hd x \<noteq> 0"
  have "map unat x = [] \<or> hd (map unat x) \<noteq> 0" using x by (cases x) (auto simp: unat_eq_0)
  then have "to_digits 256 (from_digits 256 (map unat x)) = map unat x"
    using unsigned_less [where 'b = 8 and 'a = nat] by (intro to_from_digits) auto
  then show ?thesis by (simp add: big_Bytes_def big_SetBytes_def comp_def)
qed

lemma big_Set_Bytes: "big_SetBytes (big_Bytes n) = n"
proof -
  have "map unat (map of_nat (to_digits 256 n) :: byte list) = to_digits 256 n"
    using to_digits_less [of 256 _ n] by (intro nth_equalityI) (simp_all add: unat_of_nat)
  then show ?thesis by (simp add: big_SetBytes_def big_Bytes_def)
qed

lemma big_Bytes_hd: "big_Bytes n = [] \<or> hd (big_Bytes n) \<noteq> 0"
proof (cases "n = 0")
  case False
  then obtain d ds where d: "to_digits 256 n = d # ds" "d \<noteq> 0" using to_digits_hd [of 256 n] by auto
  then have "d < 256" using to_digits_less [of 256 d n] by simp
  then have "(of_nat d :: byte) \<noteq> 0" using d(2) by (simp add: word_of_nat_eq_0_iff dvd_imp_le leD nat_dvd_not_less)
  then show ?thesis using d by (simp add: big_Bytes_def)
qed (simp add: big_Bytes_def)

lemma Encode_digits: "Encode x = map letter58 (replicate (length (takeWhile (\<lambda>x. x = 0) x)) 0 @ to_digits 58 (big_SetBytes x))"
  by (simp add: Encode_def encode_loop_digits rev_map map_replicate_const map_replicate)

lemma Decode_legal:
  "set s \<subseteq> set alphabet58 \<Longrightarrow>
     Decode s = Inr (replicate (length (takeWhile (\<lambda>c. c = CHR ''1'') s)) 0 @ big_Bytes (from_digits 58 (map digit58 s)))"
  by (simp add: Decode_def decode_loop_ok map_replicate_const from_digits_def)

lemma letter58_zero: "map letter58 (replicate k 0) = replicate k (CHR ''1'')"
  by (simp add: letter58_0)

lemma digit58_zero: "map digit58 (replicate k (CHR ''1'')) = replicate k 0"
  by (simp add: b58table_def)

lemma letter58_set: "d < 58 \<Longrightarrow> letter58 d \<in> set alphabet58"
  using b58.letters by simp

lemma Decode_Encode: "Decode (Encode x) = Inr x"
proof -
  define k y ds where "k = length (takeWhile (\<lambda>x. x = 0) x)" and "y = dropWhile (\<lambda>x. x = 0) x" and "ds = to_digits 58 (big_SetBytes x)"
  have x: "x = replicate k 0 @ y" unfolding k_def y_def by (rule leading_split)
  have y: "y = [] \<or> hd y \<noteq> 0" unfolding y_def by (rule dropWhile_hd)
  have less: "d < 58" if "d \<in> set ds" for d using to_digits_less [of 58 d "big_SetBytes x"] that by (simp add: ds_def)
  have E: "Encode x = replicate k (CHR ''1'') @ map letter58 ds"
    unfolding Encode_digits k_def [symmetric] ds_def [symmetric] map_append letter58_zero ..
  have "map letter58 ds = [] \<or> hd (map letter58 ds) \<noteq> CHR ''1''"
  proof (cases "big_SetBytes x = 0")
    case False
    then obtain d ds' where d: "ds = d # ds'" "d \<noteq> 0" using to_digits_hd [of 58 "big_SetBytes x"] by (auto simp: ds_def)
    then have "letter58 d \<noteq> letter58 0" using less [of d] b58.letter_inj [of d 0] by simp
    then show ?thesis using d by (simp add: letter58_0)
  qed (simp add: ds_def)
  then have tw: "length (takeWhile (\<lambda>c. c = CHR ''1'') (Encode x)) = k" unfolding E by (simp only: takeWhile_replicate length_replicate)
  have sub: "set (Encode x) \<subseteq> set alphabet58" unfolding E using less letter58_set letter58_set [of 0] by (auto simp: letter58_0)
  have "map digit58 (map letter58 ds) = ds" using less by (intro b58.value_map) blast
  then have "map digit58 (Encode x) = replicate k 0 @ ds" unfolding E map_append digit58_zero by simp
  then have "from_digits 58 (map digit58 (Encode x)) = big_SetBytes x" by (simp add: ds_def from_to_digits)
  also have "\<dots> = big_SetBytes y" by (subst x) simp
  finally have "Decode (Encode x) = Inr (replicate k 0 @ big_Bytes (big_SetBytes y))" unfolding Decode_legal [OF sub] tw by simp
  then show ?thesis using x big_Bytes_Set [OF y] by simp
qed

lemma Encode_Decode:
  assumes "set s \<subseteq> set alphabet58"
  shows "\<exists>y. Decode s = Inr y \<and> Encode y = s"
proof (intro exI conjI)
  define k t where "k = length (takeWhile (\<lambda>c. c = CHR ''1'') s)" and "t = dropWhile (\<lambda>c. c = CHR ''1'') s"
  have s: "s = replicate k (CHR ''1'') @ t" unfolding k_def t_def by (rule leading_split)
  have t: "t = [] \<or> hd t \<noteq> CHR ''1''" unfolding t_def by (rule dropWhile_hd)
  have sub: "set t \<subseteq> set alphabet58" using assms s by (metis Un_subset_iff set_append)
  let ?n = "from_digits 58 (map digit58 t)"
  have hd: "map digit58 t = [] \<or> hd (map digit58 t) \<noteq> 0"
  proof (cases t)
    case (Cons c cs)
    then have "letter58 (digit58 c) = c" using b58.map_value [of "[c]"] sub by simp
    moreover have "c \<noteq> CHR ''1''" using Cons t by simp
    ultimately have "digit58 c \<noteq> 0" using letter58_0 by (metis (full_types))
    then show ?thesis using Cons by simp
  qed simp
  have ds: "to_digits 58 ?n = map digit58 t" using hd sub b58.value_less by (intro to_from_digits) auto
  have "from_digits 58 (map digit58 s) = ?n" by (subst s) (simp only: map_append digit58_zero from_digits_zeros)
  then show D: "Decode s = Inr (replicate k 0 @ big_Bytes ?n)" unfolding Decode_legal [OF assms] k_def by simp
  have "length (takeWhile (\<lambda>x. x = 0) (replicate k 0 @ big_Bytes ?n)) = k"
    by (simp only: takeWhile_replicate [OF big_Bytes_hd] length_replicate)
  then show "Encode (replicate k 0 @ big_Bytes ?n) = s"
    unfolding Encode_digits by (simp add: big_Set_Bytes ds letter58_0 b58.map_value [OF sub, unfolded map_map] s [symmetric])
qed

text \<open>
  C22. Base58 is a round trip in both directions, and its only error names the first illegal
  character and its position: decoding the text of any byte string gives that byte string;
  every text over the alphabet decodes, and encoding the result gives the text back; and a
  text whose first illegal character stands at an index is rejected with that character and
  index, wherever the ten digit chunks of the loop lie.
\<close>

theorem base58_roundtrip:
  "Decode (Encode x) = Inr x \<and>
   (set s \<subseteq> set alphabet58 \<longrightarrow>
      (\<exists>y. Decode s = Inr y \<and> Encode y = s) \<and> (c \<notin> set alphabet58 \<longrightarrow> Decode (s @ c # q) = Inl (c, length s)))"
proof (intro conjI impI)
  show "Decode (Encode x) = Inr x" by (rule Decode_Encode)
  assume s: "set s \<subseteq> set alphabet58"
  show "\<exists>y. Decode s = Inr y \<and> Encode y = s" using s by (rule Encode_Decode)
  assume "c \<notin> set alphabet58"
  from decode_loop_illegal [OF s this, of 0 q 0] show "Decode (s @ c # q) = Inl (c, length s)" by (simp add: Decode_def)
qed

theorem base58_roundtrip_witness:
  "(\<exists>y. Decode ''111'' = Inr y \<and> Encode y = ''111'') \<and> Decode ''1110Oz'' = Inl (CHR ''0'', 3)"
proof -
  have l: "set ''111'' \<subseteq> set alphabet58" "CHR ''0'' \<notin> set alphabet58"
    by (simp_all add: alphabet58_def)
  show ?thesis using base58_roundtrip [of "[]" "''111''" "CHR ''0''" "''Oz''"] l by simp
qed

end
