(* ===== verification/Snowflake.thy ===== *)
theory Snowflake
  imports Go_Strconv "HOL-Library.Signed_Division"
begin

text \<open>
  The id generator of \<open>src/extend/snowflake/snowflake.go\<close>: nodes, the generation of ids against a clock, the fields of an id and
  its textual and binary forms. An \<open>int64\<close> is a 64-bit word read with \<open>sint\<close>. The clock is a list of readings of the nanoseconds since the
  epoch, one for each time the code asks. The base64 form is not modelled.
\<close>

section \<open>Nodes\<close>

definition Epoch :: i64 where "Epoch = 1609430400000"
definition NodeBits :: nat where "NodeBits = 16"
definition StepBits :: nat where "StepBits = 6"

record sf_node =
  sn_time :: i64
  sn_node :: i64
  sn_step :: i64
  sn_nodeMax :: i64
  sn_nodeMask :: i64
  sn_stepMask :: i64
  sn_timeShift :: nat
  sn_nodeShift :: nat

text \<open>The mask \<open>-1 ^ (-1 << n)\<close>; shift counts are 8-bit numbers.\<close>

definition low_mask :: "nat \<Rightarrow> i64" where
  "low_mask n = (- 1) XOR push_bit n (- 1)"

definition NewNode :: "nat \<Rightarrow> nat \<Rightarrow> i64 \<Rightarrow> string + sf_node" where
  "NewNode nodeBits stepBits node =
     (let nodeMax = low_mask nodeBits in
      if node <s 0 \<or> nodeMax <s node
      then Inl (''Node number must be between 0 and '' @ fmt_int 10 (sint nodeMax))
      else Inr \<lparr>sn_time = 0, sn_node = node, sn_step = 0, sn_nodeMax = nodeMax, sn_nodeMask = push_bit stepBits nodeMax,
        sn_stepMask = low_mask stepBits, sn_timeShift = (nodeBits + stepBits) mod 256, sn_nodeShift = stepBits\<rparr>)"

section \<open>Generating\<close>

definition elapsed_ms :: "int \<Rightarrow> i64" where
  "elapsed_ms reading = word_of_int (reading sdiv 1000000)"

text \<open>The loop that waits for the next millisecond; without further readings it has not returned.\<close>

fun wait_past :: "i64 \<Rightarrow> i64 \<Rightarrow> int list \<Rightarrow> (i64 \<times> int list) option" where
  "wait_past t now reads =
     (if now \<le>s t then (case reads of [] \<Rightarrow> None | r # rs \<Rightarrow> wait_past t (elapsed_ms r) rs) else Some (now, reads))"

declare wait_past.simps [simp del]

definition sf_id :: "i64 \<Rightarrow> sf_node \<Rightarrow> i64" where
  "sf_id now n = push_bit (sn_timeShift n) now OR push_bit (sn_nodeShift n) (sn_node n) OR sn_step n"

definition sf_next :: "sf_node \<Rightarrow> int list \<Rightarrow> (i64 \<times> sf_node \<times> int list) option" where
  "sf_next n reads =
     (case reads of
        [] \<Rightarrow> None
      | r # rs \<Rightarrow>
          (let now = elapsed_ms r in
           if now = sn_time n then
             (let step = (sn_step n + 1) AND sn_stepMask n in
              if step = 0 then
                (case wait_past (sn_time n) now rs of
                   None \<Rightarrow> None
                 | Some (now, rs) \<Rightarrow> Some (now, n\<lparr>sn_step := step\<rparr>, rs))
              else Some (now, n\<lparr>sn_step := step\<rparr>, rs))
           else Some (now, n\<lparr>sn_step := 0\<rparr>, rs)))"

definition Generate :: "sf_node \<Rightarrow> int list \<Rightarrow> (i64 \<times> sf_node \<times> int list) option" where
  "Generate n reads =
     (case sf_next n reads of
        None \<Rightarrow> None
      | Some (now, n, rs) \<Rightarrow> Some (sf_id now n, n\<lparr>sn_time := now\<rparr>, rs))"

text \<open>Several ids in a row.\<close>

fun generate_ids :: "nat \<Rightarrow> sf_node \<Rightarrow> int list \<Rightarrow> (i64 list \<times> sf_node \<times> int list) option" where
  "generate_ids 0 n reads = Some ([], n, reads)"
| "generate_ids (Suc k) n reads =
     (case Generate n reads of
        None \<Rightarrow> None
      | Some (i, n, reads) \<Rightarrow>
          (case generate_ids k n reads of None \<Rightarrow> None | Some (ids, n, reads) \<Rightarrow> Some (i # ids, n, reads)))"

section \<open>Fields of an id\<close>

definition id_Time :: "nat \<Rightarrow> nat \<Rightarrow> i64 \<Rightarrow> i64" where
  "id_Time nodeBits stepBits f = signed_drop_bit (nodeBits + stepBits) f + Epoch"

definition id_Node :: "nat \<Rightarrow> nat \<Rightarrow> i64 \<Rightarrow> i64" where
  "id_Node nodeBits stepBits f = signed_drop_bit stepBits (f AND push_bit stepBits (low_mask nodeBits))"

definition id_Step :: "nat \<Rightarrow> i64 \<Rightarrow> i64" where
  "id_Step stepBits f = f AND low_mask stepBits"

section \<open>Lemmas on words\<close>

lemma low_mask_eq: "low_mask n = mask n"
  by (rule bit_word_eqI) (auto simp: low_mask_def bit_simps)

lemma sint_small: "uint w < 2 ^ 63 \<Longrightarrow> sint (w :: i64) = uint w"
  using order_trans [OF _ uint_ge_0 [of w], of "- (2 ^ 63)"] by (simp add: sint_uint signed_take_bit_int_eq_self_iff)

lemma uint_less_bit: "uint (w :: i64) < 2 ^ n \<Longrightarrow> bit w j \<Longrightarrow> j < n"
proof (rule ccontr)
  assume a: "uint w < 2 ^ n" "bit w j" "\<not> j < n"
  have "take_bit n (uint w) = uint w" using a(1) by (simp add: take_bit_int_eq_self_iff)
  moreover have "bit (uint w) j" using a(2) bit_imp_le_length [OF a(2)] by (simp add: bit_uint_iff)
  ultimately have "bit (take_bit n (uint w)) j" by simp
  then show False using a(3) by (simp add: bit_take_bit_iff)
qed

lemma or_shift: "0 \<le> b \<Longrightarrow> b < 2 ^ n \<Longrightarrow> push_bit n a OR b = a * 2 ^ n + (b :: int)"
proof -
  assume "0 \<le> b" "b < 2 ^ n"
  then have b: "take_bit n b = b" by (simp add: take_bit_int_eq_self_iff)
  have "push_bit n a AND b = 0"
    by (subst b [symmetric], rule bit_eqI) (auto simp: bit_simps)
  then show ?thesis by (simp add: push_bit_eq_mult disjunctive_add_eq_or [symmetric])
qed

lemma uint_push: "uint w * 2 ^ n < 2 ^ 64 \<Longrightarrow> uint (push_bit n w :: i64) = uint w * 2 ^ n"
  by (subst unsigned_push_bit_eq) (simp add: push_bit_eq_mult take_bit_int_eq_self_iff)

section \<open>Invariant\<close>

definition sf_ok :: "nat \<Rightarrow> nat \<Rightarrow> i64 \<Rightarrow> sf_node \<Rightarrow> bool" where
  "sf_ok nb sb node n \<longleftrightarrow> nb + sb \<le> 62 \<and> sn_node n = node \<and> uint node < 2 ^ nb \<and> sn_stepMask n = mask sb \<and>
     sn_timeShift n = nb + sb \<and> sn_nodeShift n = sb \<and> uint (sn_step n) < 2 ^ sb \<and> uint (sn_time n) < 2 ^ (63 - nb - sb)"

text \<open>A reading the time field has room for.\<close>

definition reading_ok :: "nat \<Rightarrow> nat \<Rightarrow> int \<Rightarrow> bool" where
  "reading_ok nb sb r \<longleftrightarrow> 0 \<le> r \<and> r div 1000000 < 2 ^ (63 - nb - sb)"

definition sf_value :: "nat \<Rightarrow> nat \<Rightarrow> int \<Rightarrow> int \<Rightarrow> int \<Rightarrow> int" where
  "sf_value nb sb t node step = t * 2 ^ (nb + sb) + node * 2 ^ sb + step"

lemma pow_le: "n \<le> m \<Longrightarrow> (2 :: int) ^ n \<le> 2 ^ m"
  by (simp add: power_increasing)

lemma uint_reading:
  assumes "reading_ok nb sb r"
  shows "uint (elapsed_ms r) = r div 1000000" "uint (elapsed_ms r) < 2 ^ (63 - nb - sb)"
proof -
  have d: "r sdiv 1000000 = r div 1000000" using assms
    by (simp add: reading_ok_def signed_divide_int_def sgn_if pos_imp_zdiv_nonneg_iff)
  have "r div 1000000 < 2 ^ 64"
    using assms pow_le [of "63 - nb - sb" 64] unfolding reading_ok_def by linarith
  moreover have "0 \<le> r div 1000000" using assms by (simp add: reading_ok_def pos_imp_zdiv_nonneg_iff)
  ultimately show "uint (elapsed_ms r) = r div 1000000"
    by (simp add: elapsed_ms_def d uint_word_of_int)
  then show "uint (elapsed_ms r) < 2 ^ (63 - nb - sb)" using assms by (simp add: reading_ok_def)
qed

lemma small_mult:
  assumes "(x :: int) < 2 ^ a" "0 \<le> x" "a + b \<le> c"
  shows "x * 2 ^ b + 2 ^ b \<le> 2 ^ c"
proof -
  have "(x + 1) * 2 ^ b \<le> 2 ^ a * 2 ^ b" using assms by (intro mult_right_mono) auto
  also have "\<dots> \<le> 2 ^ c" using pow_le [OF assms(3)] by (simp add: power_add)
  finally show ?thesis by (simp add: distrib_right)
qed

lemma uint_sf_id:
  assumes ok: "sf_ok nb sb node n" and t: "uint t < 2 ^ (63 - nb - sb)"
  shows "uint (sf_id t n) = sf_value nb sb (uint t) (uint node) (uint (sn_step n))" "uint (sf_id t n) < 2 ^ 63"
proof -
  have n: "uint node * 2 ^ sb + 2 ^ sb \<le> 2 ^ (nb + sb)" "uint node * 2 ^ sb + 2 ^ sb \<le> 2 ^ 63"
    using ok small_mult [of "uint node" nb sb "nb + sb"] small_mult [of "uint node" nb sb 63] by (simp_all add: sf_ok_def)
  have T: "uint t * 2 ^ (nb + sb) + 2 ^ (nb + sb) \<le> 2 ^ 63"
    using ok t small_mult [of "uint t" "63 - nb - sb" "nb + sb" 63] by (simp add: sf_ok_def)
  have s: "uint (sn_step n) < 2 ^ sb" "0 < (2 :: int) ^ (nb + sb)" "0 < (2 :: int) ^ sb" using ok by (simp_all add: sf_ok_def)
  have b: "uint (push_bit sb node OR sn_step n) = uint node * 2 ^ sb + uint (sn_step n)"
  proof -
    have "uint node * 2 ^ sb < 2 ^ 64" using n s pow_le [of 63 64] by linarith
    then have "uint (push_bit sb node) = uint node * 2 ^ sb" by (rule uint_push)
    then show ?thesis using s or_shift [of "uint (sn_step n)" sb "uint node"]
      unfolding unsigned_or_eq by (simp add: push_bit_eq_mult [of sb "uint node"])
  qed
  moreover have "0 \<le> uint node * 2 ^ sb + uint (sn_step n)" by simp
  moreover have "uint node * 2 ^ sb + uint (sn_step n) < 2 ^ (nb + sb)" using n s by linarith
  ultimately show v: "uint (sf_id t n) = sf_value nb sb (uint t) (uint node) (uint (sn_step n))"
  proof -
    assume r: "uint (push_bit sb node OR sn_step n) = uint node * 2 ^ sb + uint (sn_step n)"
      "0 \<le> uint node * 2 ^ sb + uint (sn_step n)" "uint node * 2 ^ sb + uint (sn_step n) < 2 ^ (nb + sb)"
    have "uint t * 2 ^ (nb + sb) < 2 ^ 64" using T s pow_le [of 63 64] by linarith
    then have "uint (push_bit (nb + sb) t) = uint t * 2 ^ (nb + sb)" by (rule uint_push)
    moreover have "sf_id t n = push_bit (nb + sb) t OR (push_bit sb node OR sn_step n)" using ok by (simp add: sf_id_def sf_ok_def)
    ultimately show ?thesis using r or_shift [of "uint node * 2 ^ sb + uint (sn_step n)" "nb + sb" "uint t"]
      unfolding sf_value_def by (simp only: unsigned_or_eq push_bit_eq_mult [of "nb + sb" "uint t"] add.assoc)
  qed
  show "uint (sf_id t n) < 2 ^ 63" unfolding v sf_value_def using T n s by linarith
qed

lemma wait_past_ok:
  assumes "wait_past t now reads = Some (now', rs)" "uint t < 2 ^ (63 - nb - sb)" "list_all (reading_ok nb sb) reads"
    "uint now < 2 ^ (63 - nb - sb)"
  shows "uint t < uint now' \<and> uint now' < 2 ^ (63 - nb - sb) \<and> list_all (reading_ok nb sb) rs \<and>
    (sorted reads \<longrightarrow> sorted rs) \<and> set rs \<subseteq> set reads \<and>
    (now' = now \<or> (\<exists>r \<in> set reads. now' = elapsed_ms r \<and> (sorted reads \<longrightarrow> (\<forall>x \<in> set rs. r \<le> x))))"
  using assms
proof (induction t now reads rule: wait_past.induct)
  case (1 t now reads)
  have small: "sint t = uint t" "sint now = uint now"
    using 1(3,5) pow_le [of "63 - nb - sb" 63] by (intro sint_small; linarith)+
  show ?case
  proof (cases "now \<le>s t")
    case True
    then obtain r rest where r: "reads = r # rest" "wait_past t (elapsed_ms r) rest = Some (now', rs)"
      using 1(2) by (subst (asm) wait_past.simps) (auto split: list.splits)
    have "reading_ok nb sb r" "list_all (reading_ok nb sb) rest" using 1(4) r by simp_all
    with 1(1) [OF True r(1,2) 1(3)] uint_reading(2) show ?thesis using r(1) by fastforce
  next
    case False
    then have "now' = now" "rs = reads" using 1(2) by (subst (asm) wait_past.simps; simp)+
    moreover have "uint t < uint now" using False small by (simp add: word_sle_eq)
    ultimately show ?thesis using 1(4,5) by simp
  qed
qed

lemma wait_past_returns:
  assumes "uint t < 2 ^ (63 - nb - sb)" "list_all (reading_ok nb sb) reads" "\<exists>r \<in> set reads. uint t < r div 1000000"
  shows "wait_past t now reads \<noteq> None"
  using assms
proof (induction t now reads rule: wait_past.induct)
  case (1 t now reads)
  show ?case
  proof (cases "now \<le>s t")
    case True
    then obtain r rest where r: "reads = r # rest" using 1(4) by (cases reads) auto
    have ok: "reading_ok nb sb r" "list_all (reading_ok nb sb) rest" using 1(3) r by simp_all
    have "wait_past t (elapsed_ms r) rest \<noteq> None"
    proof (cases "\<exists>r \<in> set rest. uint t < r div 1000000")
      case later: True
      then show ?thesis using 1(1) [OF True r] 1(2) ok by blast
    next
      case False
      then have "uint t < uint (elapsed_ms r)" using 1(4) r uint_reading(1) [OF ok(1)] by auto
      moreover have "sint t = uint t" "sint (elapsed_ms r) = uint (elapsed_ms r)"
        using 1(2) uint_reading(2) [OF ok(1)] pow_le [of "63 - nb - sb" 63] by (intro sint_small; linarith)+
      ultimately have "\<not> elapsed_ms r \<le>s t" by (simp add: word_sle_eq)
      then show ?thesis by (subst wait_past.simps) simp
    qed
    then show ?thesis using True r by (subst wait_past.simps) simp
  next
    case False
    then show ?thesis by (subst wait_past.simps) simp
  qed
qed

section \<open>Increasing ids\<close>

definition clock_ok :: "nat \<Rightarrow> nat \<Rightarrow> sf_node \<Rightarrow> int list \<Rightarrow> bool" where
  "clock_ok nb sb n reads \<longleftrightarrow> list_all (reading_ok nb sb) reads \<and> sorted reads \<and> (\<forall>r \<in> set reads. uint (sn_time n) \<le> r div 1000000)"

lemma next_step:
  assumes ok: "sf_ok nb sb node n"
  shows "uint ((sn_step n + 1) AND sn_stepMask n) = (if uint (sn_step n) + 1 = 2 ^ sb then 0 else uint (sn_step n) + 1)"
proof -
  have s: "uint (sn_step n) < 2 ^ sb" "sb \<le> 62" using ok by (simp_all add: sf_ok_def)
  then have "uint (sn_step n) + 1 < 2 ^ 64" using pow_le [of sb 62] by simp
  then have "uint (sn_step n + 1) = uint (sn_step n) + 1" by (simp add: uint_plus_if_size word_size)
  moreover have "(sn_step n + 1) AND sn_stepMask n = take_bit sb (sn_step n + 1)" using ok by (simp add: sf_ok_def take_bit_eq_mask)
  moreover have "uint (take_bit sb (sn_step n + 1)) = uint (sn_step n + 1) mod 2 ^ sb"
    unfolding unsigned_take_bit_eq by (rule take_bit_eq_mod)
  ultimately have "uint ((sn_step n + 1) AND sn_stepMask n) = (uint (sn_step n) + 1) mod 2 ^ sb" by (simp only:)
  then show ?thesis using s by auto
qed

lemma sf_value_less:
  assumes "0 \<le> t" "0 \<le> node" "node < 2 ^ nb" "0 \<le> s" "s < 2 ^ sb" "0 \<le> s'" and l: "t < t' \<or> t = t' \<and> s < s'"
  shows "sf_value nb sb t node s < sf_value nb sb t' node s'"
proof (cases "t < t'")
  case True
  have n: "node * 2 ^ sb + 2 ^ sb \<le> 2 ^ (nb + sb)" using assms small_mult [of node nb sb "nb + sb"] by simp
  have "(t + 1) * 2 ^ (nb + sb) \<le> t' * 2 ^ (nb + sb)" using True by (intro mult_right_mono) auto
  then have "t * 2 ^ (nb + sb) + 2 ^ (nb + sb) \<le> t' * 2 ^ (nb + sb)" by (simp add: distrib_right)
  moreover have "0 \<le> node * 2 ^ sb" using assms by simp
  ultimately show ?thesis unfolding sf_value_def using n assms by linarith
next
  case False
  then show ?thesis using l by (simp add: sf_value_def)
qed

lemma sf_next_ok:
  assumes ok: "sf_ok nb sb node n" and c: "clock_ok nb sb n reads" and g: "sf_next n reads = Some (now, m, rs)"
  shows "sn_time m = sn_time n \<and> sn_node m = sn_node n \<and> sf_ok nb sb node m \<and> uint now < 2 ^ (63 - nb - sb) \<and>
    (uint (sn_time n) < uint now \<or> uint (sn_time n) = uint now \<and> uint (sn_step n) < uint (sn_step m)) \<and>
    clock_ok nb sb (m\<lparr>sn_time := now\<rparr>) rs"
proof -
  obtain r rest where r: "reads = r # rest" using g by (auto simp: sf_next_def split: list.splits)
  have R: "reading_ok nb sb r" "list_all (reading_ok nb sb) rest" "sorted rest" "\<forall>x \<in> set rest. r \<le> x"
    "uint (sn_time n) \<le> r div 1000000" using c r by (simp_all add: clock_ok_def)
  note e = uint_reading [OF R(1)]
  have later: "uint (elapsed_ms r) \<le> x div 1000000" if "x \<in> set rest" for x
    using R(4) that e(1) by (simp add: zdiv_mono1)
  let ?s = "(sn_step n + 1) AND sn_stepMask n"
  have T: "uint (sn_time n) < 2 ^ (63 - nb - sb)" using ok by (simp add: sf_ok_def)
  consider (new) "elapsed_ms r \<noteq> sn_time n" "now = elapsed_ms r" "m = n\<lparr>sn_step := 0\<rparr>" "rs = rest"
    | (same) "elapsed_ms r = sn_time n" "?s \<noteq> 0" "now = elapsed_ms r" "m = n\<lparr>sn_step := ?s\<rparr>" "rs = rest"
    | (wait) "elapsed_ms r = sn_time n" "?s = 0" "wait_past (sn_time n) (elapsed_ms r) rest = Some (now, rs)" "m = n\<lparr>sn_step := ?s\<rparr>"
    using g r by (auto simp: sf_next_def Let_def split: if_splits option.splits)
  then show ?thesis
  proof cases
    case new
    then have "uint (sn_time n) < uint now" using R(5) e(1) by (metis order_less_le word_uint_eq_iff)
    then show ?thesis using new ok R e(2) later by (auto simp: sf_ok_def clock_ok_def)
  next
    case same
    have "uint ?s \<noteq> 0" using same(2) by (metis uint_0_iff)
    then have "uint ?s = uint (sn_step n) + 1" "uint (sn_step n) + 1 \<noteq> 2 ^ sb" using next_step [OF ok] by (auto split: if_splits)
    moreover have "uint (sn_step n) < 2 ^ sb" using ok by (simp add: sf_ok_def)
    ultimately have "uint (sn_step n) < uint ?s" "uint ?s < 2 ^ sb" by linarith+
    moreover have "uint now = uint (sn_time n)" using same(1,3) by simp
    ultimately show ?thesis using same ok R e(2) later T by (auto simp: sf_ok_def clock_ok_def)
  next
    case wait
    note W = wait_past_ok [OF wait(3) T R(2) e(2)]
    have w: "now = elapsed_ms r \<or> (\<exists>r' \<in> set rest. now = elapsed_ms r' \<and> (\<forall>x \<in> set rs. r' \<le> x))" "set rs \<subseteq> set rest"
      "uint (sn_time n) < uint now" "uint now < 2 ^ (63 - nb - sb)" "list_all (reading_ok nb sb) rs" "sorted rs"
      using W R(3) by simp_all
    have l: "uint now \<le> x div 1000000" if "x \<in> set rs" for x
    proof (cases "now = elapsed_ms r")
      case True
      then show ?thesis using w(2) that later by auto
    next
      case False
      with w(1) obtain r' where r: "r' \<in> set rest" "now = elapsed_ms r'" "\<forall>x \<in> set rs. r' \<le> x" by auto
      then have r': "r' \<in> set rest" "now = elapsed_ms r'" "r' \<le> x" using that by auto
      have "reading_ok nb sb r'" using R(2) r'(1) by (simp add: list_all_iff)
      then have "uint now = r' div 1000000" using uint_reading(1) r'(2) by blast
      then show ?thesis using r'(3) by (simp add: zdiv_mono1)
    qed
    have "sf_ok nb sb node m" using ok wait(2,4) by (simp add: sf_ok_def)
    then show ?thesis using wait(4) w(3-6) l by (simp add: clock_ok_def)
  qed
qed

lemma Generate_ok:
  assumes ok: "sf_ok nb sb node n" and c: "clock_ok nb sb n reads" and g: "Generate n reads = Some (i, m, rs)"
  shows "sf_ok nb sb node m" "clock_ok nb sb m rs" "uint i = sf_value nb sb (uint (sn_time m)) (uint node) (uint (sn_step m))" "uint i < 2 ^ 63"
    "i = sf_id (sn_time m) m"
    "sf_value nb sb (uint (sn_time n)) (uint node) (uint (sn_step n)) < uint i"
proof -
  obtain now k where k: "sf_next n reads = Some (now, k, rs)" "i = sf_id now k" "m = k\<lparr>sn_time := now\<rparr>"
    using g by (auto simp: Generate_def split: option.splits)
  note N = sf_next_ok [OF ok c k(1)]
  show ok': "sf_ok nb sb node m" "clock_ok nb sb m rs" using N k(3) by (auto simp: sf_ok_def)
  have f: "sn_time m = now" "sn_step m = sn_step k" using k(3) by simp_all
  have i: "i = sf_id now k" by (rule k(2))
  show "i = sf_id (sn_time m) m" using i k(3) by (simp add: sf_id_def)
  have "sf_ok nb sb node k" "uint now < 2 ^ (63 - nb - sb)" using N by blast+
  from uint_sf_id [OF this] show v: "uint i = sf_value nb sb (uint (sn_time m)) (uint node) (uint (sn_step m))" and "uint i < 2 ^ 63"
    using i f by simp_all
  have "uint (sn_time n) < uint now \<or> uint (sn_time n) = uint now \<and> uint (sn_step n) < uint (sn_step k)" using N by blast
  moreover have "uint node < 2 ^ nb" "uint (sn_step n) < 2 ^ sb" using ok by (simp_all add: sf_ok_def)
  ultimately show "sf_value nb sb (uint (sn_time n)) (uint node) (uint (sn_step n)) < uint i"
    unfolding v f using sf_value_less [of "uint (sn_time n)" "uint node" nb "uint (sn_step n)" sb "uint (sn_step k)" "uint now"] by simp
qed

lemma id_bits:
  assumes ok: "sf_ok nb sb node n" and t: "uint t < 2 ^ (63 - nb - sb)"
  shows "id_Node nb sb (sf_id t n) = node" "id_Step sb (sf_id t n) = sn_step n" "id_Time nb sb (sf_id t n) = t + Epoch"
proof -
  have b: "bit t j \<Longrightarrow> j < 63 - nb - sb" "bit node j \<Longrightarrow> j < nb" "bit (sn_step n) j \<Longrightarrow> j < sb" for j
    using ok t uint_less_bit by (auto simp: sf_ok_def)
  have s: "nb + sb \<le> 62" "sn_timeShift n = nb + sb" "sn_nodeShift n = sb" "sn_node n = node" using ok by (simp_all add: sf_ok_def)
  have z: "\<not> bit node (63 - sb)" "64 - sb \<le> j \<Longrightarrow> \<not> bit node j" for j
    using b(2) [of "63 - sb"] b(2) [of j] s(1) by auto
  show "id_Node nb sb (sf_id t n) = node"
    using b s z by (intro bit_word_eqI) (auto simp: id_Node_def sf_id_def low_mask_eq bit_simps)
  show "id_Step sb (sf_id t n) = sn_step n"
    using b s by (intro bit_word_eqI) (auto simp: id_Step_def sf_id_def low_mask_eq bit_simps)
  note v = uint_sf_id [OF ok t]
  have "uint node * 2 ^ sb + 2 ^ sb \<le> 2 ^ (nb + sb)" using ok small_mult [of "uint node" nb sb "nb + sb"] by (simp add: sf_ok_def)
  moreover have "uint (sn_step n) < 2 ^ sb" using ok by (simp add: sf_ok_def)
  ultimately have low: "0 \<le> uint node * 2 ^ sb + uint (sn_step n)" "uint node * 2 ^ sb + uint (sn_step n) < 2 ^ (nb + sb)" by simp_all
  have "sint (signed_drop_bit (nb + sb) (sf_id t n)) = uint (sf_id t n) div 2 ^ (nb + sb)"
    using sint_small [OF v(2)] by (simp add: sint_signed_drop_bit_eq drop_bit_eq_div)
  also have "\<dots> = (uint node * 2 ^ sb + uint (sn_step n) + uint t * 2 ^ (nb + sb)) div 2 ^ (nb + sb)"
    unfolding v(1) sf_value_def by (simp only: ac_simps)
  also have "\<dots> = uint t + (uint node * 2 ^ sb + uint (sn_step n)) div 2 ^ (nb + sb)" by (rule div_mult_self1) simp
  also have "\<dots> = uint t" using div_pos_pos_trivial [OF low] by simp
  also have "\<dots> = sint t" using t pow_le [of "63 - nb - sb" 63] by (intro sint_small [symmetric]) linarith
  finally have "signed_drop_bit (nb + sb) (sf_id t n) = t" by (rule signed_word_eqI)
  then show "id_Time nb sb (sf_id t n) = t + Epoch" by (simp add: id_Time_def)
qed

lemma generate_ids_ok:
  assumes "sf_ok nb sb node n" "clock_ok nb sb n reads" "generate_ids k n reads = Some (ids, m, rs)"
  shows "sorted_wrt (<) (map uint ids) \<and>
    (\<forall>i \<in> set ids. sf_value nb sb (uint (sn_time n)) (uint node) (uint (sn_step n)) < uint i \<and> uint i < 2 ^ 63 \<and> id_Node nb sb i = node)"
  using assms
proof (induction k arbitrary: n reads ids)
  case (Suc k)
  obtain i n1 r1 where g: "Generate n reads = Some (i, n1, r1)" using Suc.prems(3) by (auto split: option.splits)
  then obtain ids1 where ids: "generate_ids k n1 r1 = Some (ids1, m, rs)" "ids = i # ids1"
    using Suc.prems(3) by (auto split: option.splits)
  note G = Generate_ok [OF Suc.prems(1,2) g]
  have t: "uint (sn_time n1) < 2 ^ (63 - nb - sb)" using G(1) by (simp add: sf_ok_def)
  have node: "id_Node nb sb i = node" using id_bits(1) [OF G(1) t] G(5) by simp
  note IH = Suc.IH [OF G(1,2) ids(1)]
  have "uint i < uint j" if "j \<in> set ids1" for j using IH that unfolding G(3) [symmetric] by blast
  moreover have "sf_value nb sb (uint (sn_time n)) (uint node) (uint (sn_step n)) < uint j \<and> uint j < 2 ^ 63 \<and> id_Node nb sb j = node"
    if "j \<in> set ids1" for j using IH that G(6) unfolding G(3) [symmetric] by fastforce
  ultimately show ?case using IH G(4,6) node ids(2) by auto
qed auto

lemma NewNode_ok:
  assumes "NewNode nb sb node = Inr n" "nb + sb \<le> 62"
  shows "sf_ok nb sb node n" "sn_time n = 0" "sn_step n = 0"
proof -
  have n: "\<not> node <s 0" "\<not> mask nb <s node" "n = \<lparr>sn_time = 0, sn_node = node, sn_step = 0, sn_nodeMax = mask nb,
      sn_nodeMask = push_bit sb (mask nb), sn_stepMask = mask sb, sn_timeShift = nb + sb, sn_nodeShift = sb\<rparr>"
    using assms by (auto simp: NewNode_def Let_def low_mask_eq split: if_splits)
  have "uint (mask nb :: i64) = mask nb" using assms(2) by (intro bit_eqI) (auto simp: bit_simps)
  then have m: "uint (mask nb :: i64) = 2 ^ nb - 1" by (simp add: mask_eq_exp_minus_1)
  then have sm: "sint (mask nb :: i64) = 2 ^ nb - 1"
    using sint_small [of "mask nb"] pow_le [of nb 62] assms(2) by simp
  have "0 \<le> sint node" "sint node \<le> 2 ^ nb - 1" using n(1,2) sm by (simp_all add: word_sless_alt)
  moreover from this have "uint node = sint node"
    using pow_le [of nb 62] assms(2) by (simp add: uint_sint take_bit_int_eq_self_iff)
  ultimately have "uint node < 2 ^ nb" by simp
  then show "sf_ok nb sb node n" "sn_time n = 0" "sn_step n = 0" using assms(2) by (simp_all add: sf_ok_def n(3))
qed

text \<open>
  C20. Ids are unique. With at most 62 bits for node and step and a clock that does not go back, the ids one node generates are not negative,
  strictly increase, and carry the number of the node; so the ids of nodes with different numbers are different, however their clocks run.
\<close>

theorem snowflake_unique:
  assumes n: "NewNode nb sb node = Inr n" "NewNode nb sb node' = Inr n'" "nb + sb \<le> 62"
    and c: "sorted reads" "list_all (reading_ok nb sb) reads" "sorted reads'" "list_all (reading_ok nb sb) reads'"
    and g: "generate_ids k n reads = Some (ids, m, rs)" "generate_ids k' n' reads' = Some (ids', m', rs')"
  shows "sorted_wrt (<) (map sint ids) \<and> list_all (\<lambda>i. 0 \<le> sint i \<and> id_Node nb sb i = node) ids \<and> (node \<noteq> node' \<longrightarrow> set ids \<inter> set ids' = {})"
proof -
  have ok: "clock_ok nb sb n reads" "clock_ok nb sb n' reads'"
    using c NewNode_ok [OF n(1,3)] NewNode_ok [OF n(2,3)]
    by (auto simp: clock_ok_def list_all_iff reading_ok_def pos_imp_zdiv_nonneg_iff)
  note G = generate_ids_ok [OF NewNode_ok(1) [OF n(1,3)] ok(1) g(1)]
  note G' = generate_ids_ok [OF NewNode_ok(1) [OF n(2,3)] ok(2) g(2)]
  have s: "map sint ids = map uint ids" using G sint_small by simp
  have "sorted_wrt (<) (map sint ids)" unfolding s using G by blast
  moreover have "list_all (\<lambda>i. 0 \<le> sint i \<and> id_Node nb sb i = node) ids" using G sint_small by (simp add: list_all_iff)
  moreover have "node = node'" if "i \<in> set ids" "i \<in> set ids'" for i using G G' that by metis
  ultimately show ?thesis by blast
qed

definition ex_node :: "i64 \<Rightarrow> i64 \<Rightarrow> i64 \<Rightarrow> sf_node" where
  "ex_node k step t = \<lparr>sn_time = t, sn_node = k, sn_step = step, sn_nodeMax = 65535, sn_nodeMask = 4194240,
     sn_stepMask = 63, sn_timeShift = 22, sn_nodeShift = 6\<rparr>"

theorem snowflake_unique_witness:
  "sorted_wrt (<) (map sint [20971584, 20971585 :: i64]) \<and>
   list_all (\<lambda>i. 0 \<le> sint i \<and> id_Node 16 6 i = 1) [20971584, 20971585] \<and> set [20971584, 20971585] \<inter> set [20971648 :: i64] = {}"
proof -
  have n: "NewNode 16 6 1 = Inr (ex_node 1 0 0)" "NewNode 16 6 2 = Inr (ex_node 2 0 0)" by code_simp+
  have g: "generate_ids 2 (ex_node 1 0 0) [5000000, 5000001] = Some ([20971584, 20971585], ex_node 1 1 5, [])" by code_simp
  have g': "generate_ids 1 (ex_node 2 0 0) [5000000] = Some ([20971648], ex_node 2 0 5, [])" by code_simp
  show ?thesis using snowflake_unique [OF n _ _ _ _ _ g g'] by (simp add: reading_ok_def)
qed

text \<open>
  Generating ends. When the clock moves on after the first reading, an id is generated: the wait for the next
  millisecond of a node that used up its steps is over with the first later reading.
\<close>

theorem Generate_returns:
  assumes "sf_ok nb sb node n" "list_all (reading_ok nb sb) (r # rs)" "\<exists>x \<in> set rs. r div 1000000 < x div 1000000"
  shows "Generate n (r # rs) \<noteq> None"
proof -
  have "wait_past (sn_time n) (elapsed_ms r) rs \<noteq> None" if "elapsed_ms r = sn_time n"
    using that assms uint_reading(1) [of nb sb r] by (intro wait_past_returns [of _ nb sb]) (auto simp: sf_ok_def)
  then show ?thesis by (auto simp: Generate_def sf_next_def Let_def split: option.split prod.split)
qed

theorem Generate_returns_witness:
  "Generate \<lparr>sn_time = 5, sn_node = 1, sn_step = 63, sn_nodeMax = 65535, sn_nodeMask = 4194240,
     sn_stepMask = 63, sn_timeShift = 22, sn_nodeShift = 6\<rparr> [5000000, 5999999, 6000000] \<noteq> None"
  by (rule Generate_returns [of 16 6 1]) (simp_all add: sf_ok_def reading_ok_def mask_numeral mask_eq_exp_minus_1)

end
