(* ===== verification/Snowflake_Codec.thy ===== *)
theory Snowflake_Codec
  imports Snowflake Digits
begin

text \<open>
  The forms of a snowflake id in \<open>src/extend/snowflake/snowflake.go\<close>: decimal, base 2 and 36, base 32 and 58 over their
  own alphabets, big endian bytes and JSON. A byte slice that holds text is a string. The base-64 form is not modelled.
  Where the code panics on a negative index the model answers \<open>None\<close>; the value next to an error is not modelled.
\<close>

section \<open>Alphabets\<close>

definition encodeBase32Map :: string where
  "encodeBase32Map = ''ybndrfg8ejkmcpqxot1uwisza345h769''"

definition encodeBase58Map :: string where
  "encodeBase58Map = ''123456789abcdefghijkmnopqrstuvwxyzABCDEFGHJKLMNPQRSTUVWXYZ''"

text \<open>The two loops of \<open>init\<close> on a table of 256 zeros.\<close>

definition decode_map :: "string \<Rightarrow> nat list" where
  "decode_map letters =
     (let n = length letters;
          table = fold (\<lambda>i t. t[i := 255]) [0..<n] (replicate 256 0)
      in fold (\<lambda>i t. t[of_char (letters ! i) := i]) [0..<n] table)"

definition decodeBase58Map :: "nat list" where "decodeBase58Map = decode_map encodeBase58Map"
definition decodeBase32Map :: "nat list" where "decodeBase32Map = decode_map encodeBase32Map"

section \<open>Printing and parsing\<close>

definition id_String :: "i64 \<Rightarrow> string" where "id_String f = fmt_int 10 (sint f)"
definition id_Base2 :: "i64 \<Rightarrow> string" where "id_Base2 f = fmt_int 2 (sint f)"
definition id_Base36 :: "i64 \<Rightarrow> string" where "id_Base36 f = fmt_int 36 (sint f)"

definition ParseString :: "string \<Rightarrow> i64 option" where "ParseString s = map_option word_of_int (parse_int 10 64 s)"
definition ParseBase2 :: "string \<Rightarrow> i64 option" where "ParseBase2 s = map_option word_of_int (parse_int 2 64 s)"
definition ParseBase36 :: "string \<Rightarrow> i64 option" where "ParseBase36 s = map_option word_of_int (parse_int 36 64 s)"

fun base_loop :: "nat \<Rightarrow> string \<Rightarrow> nat \<Rightarrow> string \<Rightarrow> string" where
  "base_loop b letters f out =
     (if 2 \<le> b \<and> b \<le> f then base_loop b letters (f div b) (out @ [letters ! (f mod b)]) else out @ [letters ! f])"

declare base_loop.simps [simp del]

definition id_base :: "nat \<Rightarrow> string \<Rightarrow> i64 \<Rightarrow> string option" where
  "id_base b letters f =
     (if sint f < int b then (if sint f < 0 then None else Some [letters ! nat (sint f)])
      else Some (rev (base_loop b letters (nat (sint f)) [])))"

definition id_Base32 :: "i64 \<Rightarrow> string option" where "id_Base32 f = id_base 32 encodeBase32Map f"
definition id_Base58 :: "i64 \<Rightarrow> string option" where "id_Base58 f = id_base 58 encodeBase58Map f"

fun parse_base :: "i64 \<Rightarrow> nat list \<Rightarrow> string \<Rightarrow> i64 \<Rightarrow> i64 option" where
  "parse_base b table [] x = Some x"
| "parse_base b table (c # cs) x =
     (if table ! of_char c = 255 then None else parse_base b table cs (x * b + of_nat (table ! of_char c)))"

definition ParseBase32 :: "string \<Rightarrow> i64 option" where "ParseBase32 s = parse_base 32 decodeBase32Map s 0"
definition ParseBase58 :: "string \<Rightarrow> i64 option" where "ParseBase58 s = parse_base 58 decodeBase58Map s 0"

definition IntBytes :: "i64 \<Rightarrow> byte list" where
  "IntBytes f = map (\<lambda>i. ucast (drop_bit (56 - 8 * i) f)) [0..<8]"

definition ParseIntBytes :: "byte list \<Rightarrow> i64" where
  "ParseIntBytes b = foldr (\<lambda>i x. push_bit (56 - 8 * i) (ucast (b ! i)) OR x) [0..<8] 0"

definition MarshalJSON :: "i64 \<Rightarrow> string" where
  "MarshalJSON f = [CHR 34] @ fmt_int 10 (sint f) @ [CHR 34]"

datatype json_error = JSONSyntaxError string | NumError

definition UnmarshalJSON :: "string \<Rightarrow> json_error + i64" where
  "UnmarshalJSON b =
     (if length b < 3 \<or> b ! 0 \<noteq> CHR 34 \<or> b ! (length b - 1) \<noteq> CHR 34 then Inl (JSONSyntaxError b)
      else (case parse_int 10 64 (take (length b - 2) (drop 1 b)) of
              None \<Rightarrow> Inl NumError
            | Some i \<Rightarrow> Inr (word_of_int i)))"

section \<open>The tables\<close>

lemma mark_length: "length (fold (\<lambda>i t. t[i := 255]) [0..<n] (replicate 256 (0 :: nat))) = 256"
  by (induction n) simp_all

lemma fold_mark: "j < 256 \<Longrightarrow> fold (\<lambda>i t. t[i := 255]) [0..<n] (replicate 256 (0 :: nat)) ! j = (if j < n then 255 else 0)"
proof (induction n)
  case (Suc n)
  then show ?case using mark_length [of n] by (auto simp: nth_list_update less_Suc_eq)
qed simp

lemma fold_letters:
  assumes "length t = 256" "distinct letters" "n \<le> length letters"
  shows "length (fold (\<lambda>i t. t[of_char (letters ! i) := i]) [0..<n] t) = 256"
    "i < n \<Longrightarrow> fold (\<lambda>i t. t[of_char (letters ! i) := i]) [0..<n] t ! of_char (letters ! i) = i"
    "c \<notin> set (take n letters) \<Longrightarrow> fold (\<lambda>i t. t[of_char (letters ! i) := i]) [0..<n] t ! of_char c = t ! of_char c"
proof -
  have ne: "(of_char c :: nat) = of_char d \<longleftrightarrow> c = d" for c d :: char by (rule of_char_eq_iff)
  show len: "length (fold (\<lambda>i t. t[of_char (letters ! i) := i]) [0..<n] t) = 256" for n
    using assms(1) by (induction n) simp_all
  show "i < n \<Longrightarrow> fold (\<lambda>i t. t[of_char (letters ! i) := i]) [0..<n] t ! of_char (letters ! i) = i"
    using assms(3)
  proof (induction n)
    case (Suc n)
    then show ?case using assms(2) by (cases "i = n") (simp_all add: len nth_eq_iff_index_eq)
  qed simp
  show "c \<notin> set (take n letters) \<Longrightarrow> fold (\<lambda>i t. t[of_char (letters ! i) := i]) [0..<n] t ! of_char c = t ! of_char c"
    using assms(3)
  proof (induction n)
    case (Suc n)
    then have "(of_char (letters ! n) :: nat) \<noteq> of_char c" by (auto simp: take_Suc_conv_app_nth ne)
    then show ?case using Suc by (simp add: take_Suc_conv_app_nth nth_list_update_neq)
  qed simp
qed

lemma decode_map_nth:
  assumes "distinct letters" "length letters \<le> 256"
  shows "i < length letters \<Longrightarrow> decode_map letters ! of_char (letters ! i) = i"
    "c \<notin> set letters \<Longrightarrow> decode_map letters ! of_char c = (if of_char c < length letters then 255 else 0)"
proof -
  let ?t = "fold (\<lambda>i t. t[i := 255]) [0..<length letters] (replicate 256 (0 :: nat))"
  have t: "length ?t = 256" by (rule mark_length)
  show "i < length letters \<Longrightarrow> decode_map letters ! of_char (letters ! i) = i"
    using fold_letters(2) [OF t assms(1) order_refl] by (simp add: decode_map_def Let_def)
  have "(of_char c :: nat) < 256" by simp
  from fold_mark [OF this] show "c \<notin> set letters \<Longrightarrow> decode_map letters ! of_char c = (if of_char c < length letters then 255 else 0)"
    using fold_letters(3) [OF t assms(1) order_refl, of c] by (simp add: decode_map_def Let_def)
qed

lemma letters58: "distinct encodeBase58Map" "length encodeBase58Map = 58"
  by (simp_all add: encodeBase58Map_def)

lemma letters32: "distinct encodeBase32Map" "length encodeBase32Map = 32"
  by (simp_all add: encodeBase32Map_def)

interpretation sf58: alphabet 58 encodeBase58Map "\<lambda>c. decodeBase58Map ! of_char c"
  using letters58 decode_map_nth(1) [of encodeBase58Map] by unfold_locales (simp_all add: decodeBase58Map_def)

interpretation sf32: alphabet 32 encodeBase32Map "\<lambda>c. decodeBase32Map ! of_char c"
  using letters32 decode_map_nth(1) [of encodeBase32Map] by unfold_locales (simp_all add: decodeBase32Map_def)

lemma parse_int_i64: "2 \<le> b \<Longrightarrow> b \<le> 36 \<Longrightarrow> map_option word_of_int (parse_int b 64 (fmt_int b (sint f))) = Some (f :: i64)"
proof -
  assume b: "2 \<le> b" "b \<le> 36"
  have "- (2 ^ 63) \<le> sint f" "sint f < 2 ^ 63" using sint_greater_eq [of f] sint_less [of f] by simp_all
  then have "parse_int b 64 (fmt_int b (sint f)) = Some (sint f)" using b by (intro parse_int_fmt_int) simp_all
  then show ?thesis by simp
qed

section \<open>Printing in a base\<close>

lemma base_loop_digits:
  "2 \<le> b \<Longrightarrow> 0 < f \<Longrightarrow> base_loop b letters f out = out @ map (\<lambda>d. letters ! d) (rev (to_digits b f))"
proof (induction b letters f out rule: base_loop.induct)
  case (1 b letters f out)
  show ?case
  proof (cases "b \<le> f")
    case True
    then have "0 < f div b" using 1 by (simp add: div_greater_zero_iff)
    then show ?thesis using 1 True by (subst base_loop.simps) (simp add: to_digits_rec [of b f])
  next
    case False
    then show ?thesis using 1 by (subst base_loop.simps) (simp add: to_digits_rec [of b f])
  qed
qed

lemma sint_nonneg: "0 \<le> sint (f :: i64) \<Longrightarrow> sint f = uint f"
  using sint_less [of f] by (simp add: uint_sint take_bit_int_eq_self)

lemma parse_base_ok:
  "list_all (\<lambda>c. table ! of_char c \<noteq> 255) s \<Longrightarrow>
     parse_base (of_nat b) table s (of_nat x) = Some (of_nat (foldl (\<lambda>a d. a * b + d) x (map (\<lambda>c. table ! of_char c) s)))"
proof (induction s arbitrary: x)
  case (Cons c s)
  have "of_nat x * of_nat b + of_nat (table ! of_char c) = (of_nat (x * b + table ! of_char c) :: i64)" by simp
  then show ?case using Cons by (simp del: of_nat_add of_nat_mult)
qed simp

lemma parse_base_None: "parse_base b table s x = None \<longleftrightarrow> \<not> list_all (\<lambda>c. table ! of_char c \<noteq> 255) s"
  by (induction s arbitrary: x) auto

context alphabet
begin

lemma id_base_digits:
  assumes "0 \<le> sint f"
  shows "id_base base letters f = Some (if f = 0 then [letters ! 0] else map (\<lambda>d. letters ! d) (to_digits base (unat f)))"
proof (cases "f = 0")
  case False
  have f: "sint f = int (unat f)" using sint_nonneg [OF assms] by simp
  have pos: "0 < unat f" using False by (simp add: unat_gt_0)
  show ?thesis
  proof (cases "unat f < base")
    case True
    then have "to_digits base (unat f) = [unat f]" using base pos by (simp add: to_digits_rec)
    moreover have "sint f < int base" unfolding f of_nat_less_iff by (rule True)
    moreover have "nat (sint f) = unat f" unfolding f by (rule nat_int)
    ultimately show ?thesis using False f by (simp add: id_base_def)
  next
    case False
    then have "\<not> sint f < int base" unfolding f of_nat_less_iff .
    moreover have "nat (sint f) = unat f" unfolding f by (rule nat_int)
    ultimately show ?thesis using base pos \<open>f \<noteq> 0\<close> by (simp add: id_base_def base_loop_digits rev_map)
  qed
qed (use base in \<open>simp add: id_base_def\<close>)

lemma parse_printed:
  assumes val: "\<forall>c. table ! of_char c = val c" and "base < 255" and f: "0 \<le> sint f"
  shows "\<exists>s. id_base base letters f = Some s \<and> parse_base (of_nat base) table s 0 = Some f"
proof -
  define ds where "ds = (if f = 0 then [0] else to_digits base (unat f))"
  have less: "\<forall>d \<in> set ds. d < base" using to_digits_less [OF base] base by (auto simp: ds_def)
  have n: "from_digits base ds = unat f" using base by (simp add: ds_def)
  have m: "map (\<lambda>c. table ! of_char c) (map (\<lambda>d. letters ! d) ds) = ds" using value_map [OF less] val by simp
  have "list_all (\<lambda>c. table ! of_char c \<noteq> 255) (map (\<lambda>d. letters ! d) ds)"
    using less assms(2) val by (auto simp: list_all_iff value_letter)
  from parse_base_ok [OF this, of base 0]
  have "parse_base (of_nat base) table (map (\<lambda>d. letters ! d) ds) 0 = Some f" unfolding m using n by (simp add: from_digits_def)
  moreover have "id_base base letters f = Some (map (\<lambda>d. letters ! d) ds)" unfolding id_base_digits [OF f] ds_def by simp
  ultimately show ?thesis by blast
qed

end

section \<open>Bytes\<close>

lemma bit_or_shifted:
  "bit (foldr (\<lambda>i x. push_bit (sh i) (w i) OR x) is (0 :: i64)) j \<longleftrightarrow> (\<exists>i \<in> set is. sh i \<le> j \<and> j < 64 \<and> bit (w i) (j - sh i))"
  by (induction "is") (auto simp: bit_or_iff bit_push_bit_iff)

lemma ParseIntBytes_IntBytes: "ParseIntBytes (IntBytes f) = f"
proof (rule bit_word_eqI)
  fix j assume j: "j < LENGTH(64)"
  have b: "bit (ucast (IntBytes f ! i) :: i64) (j - (56 - 8 * i)) \<longleftrightarrow> j - (56 - 8 * i) < 8 \<and> bit f j" if "i < 8" "56 - 8 * i \<le> j" for i
    using that j by (auto simp: IntBytes_def bit_ucast_iff bit_drop_bit_eq)
  let ?i = "7 - j div 8"
  have i: "?i < 8" "56 - 8 * ?i \<le> j" "j - (56 - 8 * ?i) < 8" using j by simp_all
  have "bit (ParseIntBytes (IntBytes f)) j \<longleftrightarrow> (\<exists>i \<in> set [0..<8]. 56 - 8 * i \<le> j \<and> j < 64 \<and> bit (ucast (IntBytes f ! i) :: i64) (j - (56 - 8 * i)))"
    unfolding ParseIntBytes_def by (rule bit_or_shifted)
  also have "\<dots> \<longleftrightarrow> bit f j" using b i j by (auto intro!: bexI [of _ ?i])
  finally show "bit (ParseIntBytes (IntBytes f)) j = bit f j" .
qed

section \<open>Round trips and errors\<close>

lemma fmt_int_not_Nil: "fmt_int b i \<noteq> []"
  by (simp add: fmt_int_def)

lemma Unmarshal_Marshal: "UnmarshalJSON (MarshalJSON f) = Inr f"
proof -
  have "parse_int 10 64 (fmt_int 10 (sint f)) \<noteq> None" "map_option word_of_int (parse_int 10 64 (fmt_int 10 (sint f))) = Some f"
    using parse_int_i64 [of 10 f] by auto
  then show ?thesis using fmt_int_not_Nil [of 10 "sint f"]
    by (auto simp: UnmarshalJSON_def MarshalJSON_def nth_append Suc_le_eq neq_Nil_conv)
qed

text \<open>
  C39. Every form of an id reads back. The decimal, binary, base-36, byte and JSON forms of any id, negative ones included, parse to the id;
  the base-32 and base-58 forms exist for the ids that are not negative, and parse to the id; for a negative id these two panic.
\<close>

theorem snowflake_forms:
  "ParseString (id_String f) = Some f \<and> ParseBase2 (id_Base2 f) = Some f \<and> ParseBase36 (id_Base36 f) = Some f \<and>
   ParseIntBytes (IntBytes f) = f \<and> UnmarshalJSON (MarshalJSON f) = Inr f \<and>
   (if 0 \<le> sint f then (\<exists>s. id_Base32 f = Some s \<and> ParseBase32 s = Some f) \<and> (\<exists>s. id_Base58 f = Some s \<and> ParseBase58 s = Some f)
    else id_Base32 f = None \<and> id_Base58 f = None)"
proof (cases "0 \<le> sint f")
  case True
  then show ?thesis
    using parse_int_i64 [of 10 f] parse_int_i64 [of 2 f] parse_int_i64 [of 36 f] ParseIntBytes_IntBytes Unmarshal_Marshal
      sf32.parse_printed [of decodeBase32Map f] sf58.parse_printed [of decodeBase58Map f]
    by (simp add: ParseString_def id_String_def ParseBase2_def id_Base2_def ParseBase36_def id_Base36_def
        id_Base32_def ParseBase32_def id_Base58_def ParseBase58_def)
next
  case False
  then show ?thesis
    using parse_int_i64 [of 10 f] parse_int_i64 [of 2 f] parse_int_i64 [of 36 f] ParseIntBytes_IntBytes Unmarshal_Marshal
    by (simp add: ParseString_def id_String_def ParseBase2_def id_Base2_def ParseBase36_def id_Base36_def
        id_Base32_def id_Base58_def id_base_def)
qed

text \<open>
  C39. What the base-58 and base-32 parsers reject: exactly the texts with a character whose code is below the size of the alphabet and that is not
  a letter of it, because \<open>init\<close> marks only that many entries of the tables. The empty text is zero, and any other foreign character counts as the digit zero.
\<close>

theorem snowflake_parse_errors:
  "(ParseBase58 s = None \<longleftrightarrow> \<not> list_all (\<lambda>c. c \<in> set encodeBase58Map \<or> 58 \<le> (of_char c :: nat)) s) \<and>
   (ParseBase32 s = None \<longleftrightarrow> \<not> list_all (\<lambda>c. c \<in> set encodeBase32Map \<or> 32 \<le> (of_char c :: nat)) s) \<and>
   ParseBase58 [] = Some 0 \<and> ParseBase58 ''I1lO0'' = None \<and> ParseBase58 ''I1lO'' = Some 0"
proof -
  have b58: "decodeBase58Map ! of_char c = 255 \<longleftrightarrow> \<not> (c \<in> set encodeBase58Map \<or> 58 \<le> (of_char c :: nat))" for c
    using decode_map_nth(2) [of encodeBase58Map c] letters58 sf58.value_less [of c]
    by (cases "c \<in> set encodeBase58Map") (auto simp: decodeBase58Map_def)
  have b32: "decodeBase32Map ! of_char c = 255 \<longleftrightarrow> \<not> (c \<in> set encodeBase32Map \<or> 32 \<le> (of_char c :: nat))" for c
    using decode_map_nth(2) [of encodeBase32Map c] letters32 sf32.value_less [of c]
    by (cases "c \<in> set encodeBase32Map") (auto simp: decodeBase32Map_def)
  have foreign: "decodeBase58Map ! of_char c = 0" if "c \<notin> set encodeBase58Map" "58 \<le> (of_char c :: nat)" for c
    using that decode_map_nth(2) [of encodeBase58Map c] letters58 by (simp add: decodeBase58Map_def)
  have one: "decodeBase58Map ! of_char (CHR ''1'') = 0" using sf58.value_letter [of 0] by (simp add: encodeBase58Map_def)
  have zero: "decodeBase58Map ! of_char (CHR ''0'') = 255" using b58 [of "CHR ''0''"] by (simp add: encodeBase58Map_def)
  have I: "decodeBase58Map ! of_char (CHR ''I'') = 0" "decodeBase58Map ! of_char (CHR ''l'') = 0" "decodeBase58Map ! of_char (CHR ''O'') = 0"
    by (rule foreign; simp add: encodeBase58Map_def)+
  show ?thesis unfolding ParseBase58_def ParseBase32_def parse_base_None b58 b32 not_not
    using one zero I by (simp add: encodeBase58Map_def)
qed

end
