(* ===== verification/Redis_Lock.thy ===== *)
theory Redis_Lock
  imports Go_Prelude "HOL-Library.Signed_Division"
begin

text \<open>
  The distributed lock of \<open>src/components/redis/lock.go\<close>: its options, acquiring, releasing, renewing and the watchdog, for any
  number of locks on one Redis server. The server is a parameter: \<open>redis_ok\<close> states what the documentation promises of \<open>GET\<close>, \<open>SET NX PX\<close>, \<open>DEL\<close>
  and \<open>PEXPIRE\<close>; a script runs atomically. The generator of tokens is a parameter too. Instants and durations count nanoseconds.
\<close>

section \<open>The server\<close>

text \<open>\<open>rd_get\<close> reads a key at an instant; the other commands happen at an instant. \<open>PEXPIRE\<close> counts milliseconds.\<close>

record 's redis =
  rd_get :: "int \<Rightarrow> 's \<Rightarrow> string \<Rightarrow> string option"
  rd_setnx :: "int \<Rightarrow> string \<Rightarrow> string \<Rightarrow> int \<Rightarrow> 's \<Rightarrow> bool \<times> 's"
  rd_del :: "int \<Rightarrow> string \<Rightarrow> 's \<Rightarrow> int \<times> 's"
  rd_pexpire :: "int \<Rightarrow> string \<Rightarrow> int \<Rightarrow> 's \<Rightarrow> int \<times> 's"

text \<open>The client sends a lifetime as whole milliseconds, at least one.\<close>

definition px :: "int \<Rightarrow> int" where
  "px ttl = (if ttl < 1000000 then 1000000 else ttl div 1000000 * 1000000)"

definition redis_ok :: "'s redis \<Rightarrow> bool" where
  "redis_ok r \<longleftrightarrow>
     (\<forall>now k v ttl s. fst (rd_setnx r now k v ttl s) \<longleftrightarrow> rd_get r now s k = None) \<and>
     (\<forall>now k v ttl s t k'. now \<le> t \<longrightarrow> rd_get r t (snd (rd_setnx r now k v ttl s)) k' =
        (if k' = k \<and> rd_get r now s k = None then (if t < now + px ttl then Some v else None) else rd_get r t s k')) \<and>
     (\<forall>now k s. fst (rd_del r now k s) = (if rd_get r now s k = None then 0 else 1)) \<and>
     (\<forall>now k s t k'. now \<le> t \<longrightarrow> rd_get r t (snd (rd_del r now k s)) k' = (if k' = k then None else rd_get r t s k')) \<and>
     (\<forall>now k ms s. fst (rd_pexpire r now k ms s) = (if rd_get r now s k = None then 0 else 1)) \<and>
     (\<forall>now k ms s t k'. now \<le> t \<longrightarrow> rd_get r t (snd (rd_pexpire r now k ms s)) k' =
        (if k' = k then (if t < now + ms * 1000000 then rd_get r now s k else None) else rd_get r t s k'))"

text \<open>The two scripts.\<close>

definition unlockScript :: "'s redis \<Rightarrow> int \<Rightarrow> string \<Rightarrow> string \<Rightarrow> 's \<Rightarrow> int \<times> 's" where
  "unlockScript r now key token s = (if rd_get r now s key = Some token then rd_del r now key s else (0, s))"

definition renewScript :: "'s redis \<Rightarrow> int \<Rightarrow> string \<Rightarrow> string \<Rightarrow> int \<Rightarrow> 's \<Rightarrow> int \<times> 's" where
  "renewScript r now key token ms s = (if rd_get r now s key = Some token then rd_pexpire r now key ms s else (0, s))"

section \<open>Locks\<close>

datatype lock_error = ErrLockNotObtained | ErrLockNotHeld | ErrClientNil | RedisError | CtxError

record rlock =
  lk_client :: bool
  lk_key :: string
  lk_ttl :: int
  lk_retryInterval :: int
  lk_autoRenew :: bool
  lk_token :: string
  lk_stopCh :: nat
  lk_watching :: bool

datatype lock_option = WithTTL int | WithRetryInterval int | WithAutoRenew

definition apply_option :: "lock_option \<Rightarrow> rlock \<Rightarrow> rlock" where
  "apply_option opt l =
     (case opt of
        WithTTL ttl \<Rightarrow> if ttl > 0 then l\<lparr>lk_ttl := ttl\<rparr> else l
      | WithRetryInterval interval \<Rightarrow> if interval > 0 then l\<lparr>lk_retryInterval := interval\<rparr> else l
      | WithAutoRenew \<Rightarrow> l\<lparr>lk_autoRenew := True\<rparr>)"

definition NewLock :: "bool \<Rightarrow> string \<Rightarrow> lock_option list \<Rightarrow> rlock" where
  "NewLock client key opts =
     fold apply_option opts \<lparr>lk_client = client, lk_key = key, lk_ttl = 30000000000, lk_retryInterval = 100000000,
       lk_autoRenew = False, lk_token = [], lk_stopCh = 0, lk_watching = False\<rparr>"

text \<open>With the prefix of the Redis component, when the component is set up.\<close>

definition NewLockWithInstance :: "string option \<Rightarrow> bool \<Rightarrow> string \<Rightarrow> lock_option list \<Rightarrow> rlock" where
  "NewLockWithInstance prefix client key opts =
     NewLock client (case prefix of None \<Rightarrow> key | Some p \<Rightarrow> if p \<noteq> [] then p @ key else key) opts"

text \<open>A running watchdog: the lock it belongs to, the token it renews and the channel that stops it.\<close>

record watchdog =
  wd_lock :: nat
  wd_token :: string
  wd_stopCh :: nat

text \<open>
  All locks on a server. \<open>ls_until\<close> records for each lock the end of the time it last acquired or renewed; \<open>ls_tokens\<close> counts the tokens
  generated, \<open>ls_chans\<close> the stop channels made.
\<close>

record 's locks =
  ls_store :: 's
  ls_now :: int
  ls_locks :: "rlock list"
  ls_dogs :: "watchdog list"
  ls_stopped :: "nat list"
  ls_chans :: nat
  ls_tokens :: nat
  ls_until :: "int list"

text \<open>What happens to a command on its way: it is executed and answered, it fails before it is executed, or only the answer is lost.\<close>

datatype net = NetOk | NetLost | NetAnswerLost

definition upd_lock :: "nat \<Rightarrow> (rlock \<Rightarrow> rlock) \<Rightarrow> 's locks \<Rightarrow> 's locks" where
  "upd_lock i f s = s\<lparr>ls_locks := (ls_locks s)[i := f (ls_locks s ! i)]\<rparr>"

definition startWatchdog :: "nat \<Rightarrow> 's locks \<Rightarrow> 's locks" where
  "startWatchdog i s =
     (let l = ls_locks s ! i in
      if lk_watching l then s
      else (upd_lock i (\<lambda>l. l\<lparr>lk_watching := True, lk_stopCh := ls_chans s\<rparr>) s)
             \<lparr>ls_chans := Suc (ls_chans s), ls_dogs := ls_dogs s @ [\<lparr>wd_lock = i, wd_token = lk_token l, wd_stopCh = ls_chans s\<rparr>]\<rparr>)"

definition stopWatchdog :: "nat \<Rightarrow> 's locks \<Rightarrow> 's locks" where
  "stopWatchdog i s =
     (let l = ls_locks s ! i in
      if lk_watching l then (upd_lock i (\<lambda>l. l\<lparr>lk_watching := False\<rparr>) s)\<lparr>ls_stopped := lk_stopCh l # ls_stopped s\<rparr> else s)"

definition TryLock :: "'s redis \<Rightarrow> (nat \<Rightarrow> string) \<Rightarrow> net \<Rightarrow> nat \<Rightarrow> 's locks \<Rightarrow> lock_error option \<times> 's locks" where
  "TryLock r tok net i s =
     (let l = ls_locks s ! i in
      if \<not> lk_client l then (Some ErrClientNil, s)
      else
        (let token = tok (ls_tokens s);
             s = s\<lparr>ls_tokens := Suc (ls_tokens s)\<rparr>;
             (ok, store) = rd_setnx r (ls_now s) (lk_key l) token (lk_ttl l) (ls_store s)
         in case net of
              NetLost \<Rightarrow> (Some RedisError, s)
            | NetAnswerLost \<Rightarrow> (Some RedisError, s\<lparr>ls_store := store\<rparr>)
            | NetOk \<Rightarrow>
                if \<not> ok then (Some ErrLockNotObtained, s\<lparr>ls_store := store\<rparr>)
                else
                  (let s = upd_lock i (\<lambda>l. l\<lparr>lk_token := token\<rparr>)
                         (s\<lparr>ls_store := store, ls_until := (ls_until s)[i := ls_now s + px (lk_ttl l)]\<rparr>)
                   in (None, if lk_autoRenew l then startWatchdog i s else s))))"

text \<open>The loop of \<open>Lock\<close> after an attempt: return with the error (none on success), or wait and try again.\<close>

definition Lock_next :: "lock_error option \<Rightarrow> bool \<Rightarrow> lock_error option option" where
  "Lock_next err ctx_done =
     (case err of
        None \<Rightarrow> Some None
      | Some e \<Rightarrow> if e \<noteq> ErrLockNotObtained then Some (Some e) else if ctx_done then Some (Some CtxError) else None)"

definition Unlock :: "'s redis \<Rightarrow> net \<Rightarrow> nat \<Rightarrow> 's locks \<Rightarrow> lock_error option \<times> 's locks" where
  "Unlock r net i s =
     (let l = ls_locks s ! i in
      if lk_token l = [] then (Some ErrLockNotHeld, s)
      else
        (let s = stopWatchdog i s;
             (n, store) = unlockScript r (ls_now s) (lk_key l) (lk_token l) (ls_store s);
             s = upd_lock i (\<lambda>l. l\<lparr>lk_token := []\<rparr>) s
         in case net of
              NetLost \<Rightarrow> (Some RedisError, s)
            | NetAnswerLost \<Rightarrow> (Some RedisError, s\<lparr>ls_store := store\<rparr>)
            | NetOk \<Rightarrow> (if n = 0 then Some ErrLockNotHeld else None, s\<lparr>ls_store := store\<rparr>)))"

definition renew :: "'s redis \<Rightarrow> net \<Rightarrow> nat \<Rightarrow> 's locks \<Rightarrow> lock_error option \<times> 's locks" where
  "renew r net i s =
     (let l = ls_locks s ! i; ms = lk_ttl l sdiv 1000000 in
      if lk_token l = [] then (Some ErrLockNotHeld, s)
      else
        (let (n, store) = renewScript r (ls_now s) (lk_key l) (lk_token l) ms (ls_store s);
             done_s = s\<lparr>ls_store := store, ls_until := (if n = 0 then ls_until s else (ls_until s)[i := ls_now s + ms * 1000000])\<rparr>
         in case net of
              NetLost \<Rightarrow> (Some RedisError, s)
            | NetAnswerLost \<Rightarrow> (Some RedisError, done_s)
            | NetOk \<Rightarrow> (if n = 0 then Some ErrLockNotHeld else None, done_s)))"

definition drop_dog :: "nat \<Rightarrow> 's locks \<Rightarrow> 's locks" where
  "drop_dog d s = s\<lparr>ls_dogs := take d (ls_dogs s) @ drop (Suc d) (ls_dogs s)\<rparr>"

text \<open>A tick of a watchdog, under the mutex of its lock.\<close>

definition dog_tick :: "'s redis \<Rightarrow> net \<Rightarrow> nat \<Rightarrow> 's locks \<Rightarrow> 's locks" where
  "dog_tick r net d s =
     (let w = ls_dogs s ! d in
      if lk_token (ls_locks s ! wd_lock w) \<noteq> wd_token w then drop_dog d s
      else (case renew r net (wd_lock w) s of (err, s) \<Rightarrow> if err = None then s else drop_dog d s))"

text \<open>The steps: a lock is made, the operations of the locks and the watchdogs, a watchdog that sees its stop channel or the end of its context, time.\<close>

inductive lstep :: "'s redis \<Rightarrow> (nat \<Rightarrow> string) \<Rightarrow> 's locks \<Rightarrow> 's locks \<Rightarrow> bool" for r tok where
  make_lock: "lstep r tok s (s\<lparr>ls_locks := ls_locks s @ [NewLock client key opts], ls_until := ls_until s @ [0]\<rparr>)"
| try_lock: "i < length (ls_locks s) \<Longrightarrow> lstep r tok s (snd (TryLock r tok net i s))"
| unlock: "i < length (ls_locks s) \<Longrightarrow> lstep r tok s (snd (Unlock r net i s))"
| renew_lock: "i < length (ls_locks s) \<Longrightarrow> lstep r tok s (snd (renew r net i s))"
| dog: "d < length (ls_dogs s) \<Longrightarrow> lstep r tok s (dog_tick r net d s)"
| dog_stops: "d < length (ls_dogs s) \<Longrightarrow> wd_stopCh (ls_dogs s ! d) \<in> set (ls_stopped s) \<Longrightarrow> lstep r tok s (drop_dog d s)"
| dog_ctx: "d < length (ls_dogs s) \<Longrightarrow> lstep r tok s (drop_dog d s)"
| pass: "ls_now s \<le> t \<Longrightarrow> lstep r tok s (s\<lparr>ls_now := t\<rparr>)"

definition no_locks :: "'s \<Rightarrow> int \<Rightarrow> 's locks" where
  "no_locks store now = \<lparr>ls_store = store, ls_now = now, ls_locks = [], ls_dogs = [], ls_stopped = [], ls_chans = 0, ls_tokens = 0, ls_until = []\<rparr>"

inductive lreach :: "'s redis \<Rightarrow> (nat \<Rightarrow> string) \<Rightarrow> 's locks \<Rightarrow> bool" for r tok where
  start: "lreach r tok (no_locks store now)"
| step: "lreach r tok s \<Longrightarrow> lstep r tok s s' \<Longrightarrow> lreach r tok s'"

section \<open>Windows\<close>

text \<open>A lock is inside its window from the time it acquired or renewed until the lifetime it asked for is over, while it keeps its token.\<close>

definition inside :: "'s locks \<Rightarrow> nat \<Rightarrow> bool" where
  "inside s i \<longleftrightarrow> i < length (ls_locks s) \<and> lk_token (ls_locks s ! i) \<noteq> [] \<and> ls_now s < ls_until s ! i"

definition held :: "'s redis \<Rightarrow> 's locks \<Rightarrow> nat \<Rightarrow> bool" where
  "held r s i \<longleftrightarrow> (\<forall>t. ls_now s \<le> t \<and> t < ls_until s ! i \<longrightarrow>
     rd_get r t (ls_store s) (lk_key (ls_locks s ! i)) = Some (lk_token (ls_locks s ! i)))"

definition tokens_ok :: "(nat \<Rightarrow> string) \<Rightarrow> 's locks \<Rightarrow> bool" where
  "tokens_ok tok s \<longleftrightarrow>
     (\<forall>i < length (ls_locks s). lk_token (ls_locks s ! i) \<noteq> [] \<longrightarrow> (\<exists>n < ls_tokens s. lk_token (ls_locks s ! i) = tok n)) \<and>
     (\<forall>i < length (ls_locks s). \<forall>j < length (ls_locks s).
        i \<noteq> j \<longrightarrow> lk_token (ls_locks s ! i) \<noteq> [] \<longrightarrow> lk_token (ls_locks s ! i) \<noteq> lk_token (ls_locks s ! j))"

definition linv :: "'s redis \<Rightarrow> (nat \<Rightarrow> string) \<Rightarrow> 's locks \<Rightarrow> bool" where
  "linv r tok s \<longleftrightarrow> length (ls_until s) = length (ls_locks s) \<and> tokens_ok tok s \<and> (\<forall>i. inside s i \<longrightarrow> held r s i)"

lemma redis_setnx:
  assumes "redis_ok r"
  shows "fst (rd_setnx r now k v ttl s) \<longleftrightarrow> rd_get r now s k = None"
    and "now \<le> t \<Longrightarrow> rd_get r t (snd (rd_setnx r now k v ttl s)) k' =
        (if k' = k \<and> rd_get r now s k = None then (if t < now + px ttl then Some v else None) else rd_get r t s k')"
  using assms by (simp_all add: redis_ok_def)

lemma redis_del:
  assumes "redis_ok r"
  shows "fst (rd_del r now k s) = (if rd_get r now s k = None then 0 else 1)"
    and "now \<le> t \<Longrightarrow> rd_get r t (snd (rd_del r now k s)) k' = (if k' = k then None else rd_get r t s k')"
  using assms by (simp_all add: redis_ok_def)

lemma redis_pexpire:
  assumes "redis_ok r"
  shows "fst (rd_pexpire r now k ms s) = (if rd_get r now s k = None then 0 else 1)"
    and "now \<le> t \<Longrightarrow> rd_get r t (snd (rd_pexpire r now k ms s)) k' =
        (if k' = k then (if t < now + ms * 1000000 then rd_get r now s k else None) else rd_get r t s k')"
  using assms by (simp_all add: redis_ok_def)

text \<open>The scripts touch a key only while it holds the token.\<close>

lemma unlockScript_get:
  assumes "redis_ok r"
  shows "fst (unlockScript r now key token s) = (if rd_get r now s key = Some token then 1 else 0)"
    and "now \<le> t \<Longrightarrow> rd_get r t (snd (unlockScript r now key token s)) k =
        (if k = key \<and> rd_get r now s key = Some token then None else rd_get r t s k)"
  by (simp_all add: unlockScript_def redis_del [OF assms])

lemma renewScript_get:
  assumes "redis_ok r"
  shows "fst (renewScript r now key token ms s) = (if rd_get r now s key = Some token then 1 else 0)"
    and "now \<le> t \<Longrightarrow> rd_get r t (snd (renewScript r now key token ms s)) k =
        (if k = key \<and> rd_get r now s key = Some token then (if t < now + ms * 1000000 then Some token else None) else rd_get r t s k)"
  by (simp_all add: renewScript_def redis_pexpire [OF assms])

text \<open>What an operation on one lock may change.\<close>

lemma linv_frame:
  assumes inv: "linv r tok s" and j: "j < length (ls_locks s)" and tok: "inj tok"
    and locks: "ls_locks s' = (ls_locks s)[j := l']" and key: "lk_key l' = lk_key (ls_locks s ! j)"
    and now: "ls_now s' = ls_now s" and count: "ls_tokens s \<le> ls_tokens s'" and till: "ls_until s' = (ls_until s)[j := u]"
    and token: "lk_token l' = [] \<or> lk_token l' = lk_token (ls_locks s ! j) \<or> (lk_token l' = tok (ls_tokens s) \<and> ls_tokens s < ls_tokens s')"
    and others: "\<And>i t. i \<noteq> j \<Longrightarrow> inside s i \<Longrightarrow> ls_now s \<le> t \<Longrightarrow>
      rd_get r t (ls_store s') (lk_key (ls_locks s ! i)) = rd_get r t (ls_store s) (lk_key (ls_locks s ! i))"
    and own: "\<And>t. lk_token l' \<noteq> [] \<Longrightarrow> ls_now s \<le> t \<Longrightarrow> t < u \<Longrightarrow> rd_get r t (ls_store s') (lk_key l') = Some (lk_token l')"
  shows "linv r tok s'"
proof -
  have T: "tokens_ok tok s" and L: "length (ls_until s) = length (ls_locks s)"
    and H: "\<And>i. inside s i \<Longrightarrow> held r s i"
    using inv by (simp_all add: linv_def)
  have fresh: "lk_token (ls_locks s ! i) \<noteq> tok (ls_tokens s)" if "i < length (ls_locks s)" "lk_token (ls_locks s ! i) \<noteq> []" for i
    using T that tok unfolding tokens_ok_def inj_def by (metis less_irrefl)
  have "tokens_ok tok s'"
    unfolding tokens_ok_def
  proof (intro conjI allI impI)
    fix i assume i: "i < length (ls_locks s')" and ne: "lk_token (ls_locks s' ! i) \<noteq> []"
    show "\<exists>n<ls_tokens s'. lk_token (ls_locks s' ! i) = tok n"
    proof (cases "i = j \<and> lk_token l' = tok (ls_tokens s)")
      case True
      then show ?thesis using token locks j ne T count unfolding tokens_ok_def by (metis nth_list_update_eq order_less_le_trans)
    next
      case False
      then have "lk_token (ls_locks s' ! i) = lk_token (ls_locks s ! i)"
        by (cases "i = j") (use token locks i ne j False in auto)
      then show ?thesis using T i ne locks count unfolding tokens_ok_def by (metis length_list_update order_less_le_trans)
    qed
  next
    fix i k assume i: "i < length (ls_locks s')" and k: "k < length (ls_locks s')" and ik: "i \<noteq> k" and ne: "lk_token (ls_locks s' ! i) \<noteq> []"
    have D: "\<And>a b. a < length (ls_locks s) \<Longrightarrow> b < length (ls_locks s) \<Longrightarrow> a \<noteq> b \<Longrightarrow>
        lk_token (ls_locks s ! a) \<noteq> [] \<Longrightarrow> lk_token (ls_locks s ! a) \<noteq> lk_token (ls_locks s ! b)"
      using T unfolding tokens_ok_def by blast
    show "lk_token (ls_locks s' ! i) \<noteq> lk_token (ls_locks s' ! k)"
      using i k ik ne token locks D [of i k] D [of k i] fresh [of i] fresh [of k] j
      by (cases "i = j"; cases "k = j") auto
  qed
  moreover have "held r s' i" if i: "inside s' i" for i
  proof (cases "i = j")
    case True
    then show ?thesis using i own j L unfolding inside_def held_def by (simp add: locks till now)
  next
    case False
    then have "inside s i" using i unfolding inside_def by (simp add: locks till now)
    then show ?thesis using False H [of i] others [of i] unfolding held_def by (simp add: locks till now)
  qed
  ultimately show ?thesis using L by (simp add: linv_def locks till)
qed

text \<open>A lock that is not the holder cannot write the key of the holder.\<close>

lemma inside_get:
  "linv r tok s \<Longrightarrow> inside s i \<Longrightarrow> rd_get r (ls_now s) (ls_store s) (lk_key (ls_locks s ! i)) = Some (lk_token (ls_locks s ! i))"
  by (auto simp: linv_def inside_def held_def)

lemma inside_token:
  "linv r tok s \<Longrightarrow> inside s i \<Longrightarrow> i \<noteq> j \<Longrightarrow> j < length (ls_locks s) \<Longrightarrow> lk_token (ls_locks s ! i) \<noteq> lk_token (ls_locks s ! j)"
  unfolding linv_def inside_def tokens_ok_def by blast

lemma upd_lock_fields [simp]:
  "ls_store (upd_lock i f s) = ls_store s" "ls_now (upd_lock i f s) = ls_now s" "ls_dogs (upd_lock i f s) = ls_dogs s"
  "ls_until (upd_lock i f s) = ls_until s" "ls_tokens (upd_lock i f s) = ls_tokens s"
  "ls_locks (upd_lock i f s) = (ls_locks s)[i := f (ls_locks s ! i)]" "ls_chans (upd_lock i f s) = ls_chans s"
  by (simp_all add: upd_lock_def)

text \<open>The watchdog has no part in the windows.\<close>

lemma startWatchdog_fields [simp]:
  "ls_store (startWatchdog i s) = ls_store s" "ls_now (startWatchdog i s) = ls_now s"
  "ls_until (startWatchdog i s) = ls_until s" "ls_tokens (startWatchdog i s) = ls_tokens s"
  by (simp_all add: startWatchdog_def Let_def)

lemma stopWatchdog_fields [simp]:
  "ls_store (stopWatchdog i s) = ls_store s" "ls_now (stopWatchdog i s) = ls_now s"
  "ls_until (stopWatchdog i s) = ls_until s" "ls_tokens (stopWatchdog i s) = ls_tokens s"
  by (simp_all add: stopWatchdog_def Let_def)

lemma watchdog_locks:
  "\<exists>l. ls_locks (startWatchdog i s) = (ls_locks s)[i := l] \<and> lk_key l = lk_key (ls_locks s ! i) \<and> lk_token l = lk_token (ls_locks s ! i)"
  "\<exists>l. ls_locks (stopWatchdog i s) = (ls_locks s)[i := l] \<and> lk_key l = lk_key (ls_locks s ! i) \<and> lk_token l = lk_token (ls_locks s ! i)"
  by (auto simp: startWatchdog_def stopWatchdog_def Let_def intro!: exI [of _ "ls_locks s ! i"] exI)

text \<open>Each operation keeps the windows.\<close>

definition won :: "'s redis \<Rightarrow> string \<Rightarrow> nat \<Rightarrow> 's locks \<Rightarrow> 's locks" where
  "won r v j s =
     (let l = ls_locks s ! j in
      upd_lock j (\<lambda>l. l\<lparr>lk_token := v\<rparr>)
        (s\<lparr>ls_tokens := Suc (ls_tokens s), ls_store := snd (rd_setnx r (ls_now s) (lk_key l) v (lk_ttl l) (ls_store s)),
           ls_until := (ls_until s)[j := ls_now s + px (lk_ttl l)]\<rparr>))"

lemma TryLock_won:
  assumes "lk_client (ls_locks s ! j)"
    and "fst (rd_setnx r (ls_now s) (lk_key (ls_locks s ! j)) (tok (ls_tokens s)) (lk_ttl (ls_locks s ! j)) (ls_store s))"
  shows "TryLock r tok NetOk j s =
    (None, if lk_autoRenew (ls_locks s ! j) then startWatchdog j (won r (tok (ls_tokens s)) j s) else won r (tok (ls_tokens s)) j s)"
  using assms by (simp add: TryLock_def won_def Let_def case_prod_unfold)

lemma won_fields [simp]:
  "ls_now (won r v j s) = ls_now s" "ls_tokens (won r v j s) = Suc (ls_tokens s)"
  "ls_locks (won r v j s) = (ls_locks s)[j := (ls_locks s ! j)\<lparr>lk_token := v\<rparr>]"
  "ls_until (won r v j s) = (ls_until s)[j := ls_now s + px (lk_ttl (ls_locks s ! j))]"
  "ls_store (won r v j s) = snd (rd_setnx r (ls_now s) (lk_key (ls_locks s ! j)) v (lk_ttl (ls_locks s ! j)) (ls_store s))"
  by (simp_all add: won_def Let_def)

lemma TryLock_linv:
  assumes r: "redis_ok r" and tok: "inj tok" and inv: "linv r tok s" and j: "j < length (ls_locks s)"
  shows "linv r tok (snd (TryLock r tok net j s))"
proof (cases "lk_client (ls_locks s ! j)")
  case False
  then show ?thesis using inv by (simp add: TryLock_def)
next
  case True
  let ?l = "ls_locks s ! j" and ?s' = "snd (TryLock r tok net j s)"
  define v where "v = tok (ls_tokens s)"
  let ?p = "rd_setnx r (ls_now s) (lk_key ?l) v (lk_ttl ?l) (ls_store s)"
  have others: "rd_get r t (snd ?p) (lk_key (ls_locks s ! i)) = rd_get r t (ls_store s) (lk_key (ls_locks s ! i))"
    if "inside s i" "ls_now s \<le> t" for i t
    using that inside_get [OF inv that(1)] by (auto simp: redis_setnx [OF r])
  have same: "(ls_locks s)[j := ?l] = ls_locks s" "(ls_until s)[j := ls_until s ! j] = ls_until s" by simp_all
  have own: "rd_get r t (ls_store s) (lk_key ?l) = Some (lk_token ?l)"
    if "lk_token ?l \<noteq> []" "ls_now s \<le> t" "t < ls_until s ! j" for t
    using inv j that unfolding linv_def inside_def held_def by auto
  have ownp: "rd_get r t (snd ?p) (lk_key ?l) = Some (lk_token ?l)"
    if "lk_token ?l \<noteq> []" "ls_now s \<le> t" "t < ls_until s ! j" for t
    using own [OF that] others [of j t] that j by (simp add: inside_def)
  show ?thesis
  proof (cases "net = NetOk \<and> fst ?p")
    case True
    then have eq: "?s' = (if lk_autoRenew ?l then startWatchdog j (won r v j s) else won r v j s)"
      using \<open>lk_client ?l\<close> by (simp add: TryLock_won v_def)
    obtain l where l: "ls_locks ?s' = (ls_locks s)[j := l]" "lk_key l = lk_key ?l" "lk_token l = v"
    proof (cases "lk_autoRenew ?l")
      case True
      then show ?thesis using that watchdog_locks(1) [of j "won r v j s"] eq j by auto
    next
      case False
      then show ?thesis using that [of "?l\<lparr>lk_token := v\<rparr>"] eq by simp
    qed
    have s': "ls_until ?s' = (ls_until s)[j := ls_now s + px (lk_ttl ?l)]" "ls_now ?s' = ls_now s"
      "ls_tokens ?s' = Suc (ls_tokens s)" "ls_store ?s' = snd ?p"
      by (simp_all add: eq)
    have "rd_get r (ls_now s) (ls_store s) (lk_key ?l) = None" using True redis_setnx(1) [OF r] by blast
    then show ?thesis
      by (intro linv_frame [OF inv j tok l(1,2) s'(2) _ s'(1)]) (use l s' others in \<open>auto simp: v_def redis_setnx [OF r]\<close>)
  next
    case False
    have s': "ls_locks ?s' = (ls_locks s)[j := ?l]" "ls_until ?s' = (ls_until s)[j := ls_until s ! j]" "ls_now ?s' = ls_now s"
      "ls_tokens ?s' = Suc (ls_tokens s)" "ls_store ?s' = ls_store s \<or> ls_store ?s' = snd ?p"
      using False \<open>lk_client ?l\<close> by (auto simp: TryLock_def Let_def v_def case_prod_unfold split: net.splits)
    show ?thesis
      by (rule linv_frame [OF inv j tok s'(1) refl s'(3) _ s'(2)]) (use s' own ownp others in auto)
  qed
qed

lemma Unlock_linv:
  assumes r: "redis_ok r" and tok: "inj tok" and inv: "linv r tok s" and j: "j < length (ls_locks s)"
  shows "linv r tok (snd (Unlock r net j s))"
proof (cases "lk_token (ls_locks s ! j) = []")
  case True
  then show ?thesis using inv by (simp add: Unlock_def)
next
  case False
  let ?l = "ls_locks s ! j" and ?s' = "snd (Unlock r net j s)"
  let ?p = "unlockScript r (ls_now s) (lk_key ?l) (lk_token ?l) (ls_store s)"
  have others: "rd_get r t (snd ?p) (lk_key (ls_locks s ! i)) = rd_get r t (ls_store s) (lk_key (ls_locks s ! i))"
    if "i \<noteq> j" "inside s i" "ls_now s \<le> t" for i t
    using that inside_get [OF inv that(2)] inside_token [OF inv that(2) that(1) j] by (auto simp: unlockScript_get [OF r])
  obtain l where l: "ls_locks (stopWatchdog j s) = (ls_locks s)[j := l]" "lk_key l = lk_key ?l"
    using watchdog_locks(2) by metis
  have s': "ls_locks ?s' = (ls_locks s)[j := l\<lparr>lk_token := []\<rparr>]" "ls_until ?s' = (ls_until s)[j := ls_until s ! j]" "ls_now ?s' = ls_now s"
    "ls_tokens ?s' = ls_tokens s" "ls_store ?s' = ls_store s \<or> ls_store ?s' = snd ?p"
    using False l j by (auto simp: Unlock_def Let_def case_prod_unfold split: net.splits)
  show ?thesis
    by (rule linv_frame [OF inv j tok s'(1) _ s'(3) _ s'(2)]) (use s' others l in auto)
qed

lemma renew_linv:
  assumes r: "redis_ok r" and tok: "inj tok" and inv: "linv r tok s" and j: "j < length (ls_locks s)"
  shows "linv r tok (snd (renew r net j s))"
proof (cases "lk_token (ls_locks s ! j) = [] \<or> net = NetLost")
  case True
  then show ?thesis using inv by (auto simp: renew_def Let_def case_prod_unfold split: net.splits)
next
  case False
  let ?l = "ls_locks s ! j" and ?s' = "snd (renew r net j s)"
  let ?ms = "lk_ttl ?l sdiv 1000000"
  let ?p = "renewScript r (ls_now s) (lk_key ?l) (lk_token ?l) ?ms (ls_store s)"
  let ?u = "if fst ?p = 0 then ls_until s ! j else ls_now s + ?ms * 1000000"
  have others: "rd_get r t (snd ?p) (lk_key (ls_locks s ! i)) = rd_get r t (ls_store s) (lk_key (ls_locks s ! i))"
    if "i \<noteq> j" "inside s i" "ls_now s \<le> t" for i t
    using that inside_get [OF inv that(2)] inside_token [OF inv that(2) that(1) j] by (auto simp: renewScript_get [OF r])
  have own: "rd_get r t (ls_store s) (lk_key ?l) = Some (lk_token ?l)" if "ls_now s \<le> t" "t < ls_until s ! j" for t
    using inv j that False unfolding linv_def inside_def held_def by auto
  have s': "ls_locks ?s' = (ls_locks s)[j := ?l]" "ls_until ?s' = (ls_until s)[j := ?u]" "ls_now ?s' = ls_now s"
    "ls_tokens ?s' = ls_tokens s" "ls_store ?s' = snd ?p"
    using False by (auto simp: renew_def Let_def case_prod_unfold split: net.splits)
  have "rd_get r t (snd ?p) (lk_key ?l) = Some (lk_token ?l)" if "ls_now s \<le> t" "t < ?u" for t
    using that own [of t] by (auto simp: renewScript_get [OF r] split: if_splits)
  then show ?thesis
    by (intro linv_frame [OF inv j tok s'(1) refl s'(3) _ s'(2)]) (use s' others in auto)
qed

lemma NewLock_fields: "lk_token (NewLock client key opts) = []" "lk_key (NewLock client key opts) = key"
proof -
  have "lk_token (fold apply_option opts l) = lk_token l \<and> lk_key (fold apply_option opts l) = lk_key l" for l
    by (induction opts arbitrary: l) (auto simp: apply_option_def split: lock_option.splits)
  then show "lk_token (NewLock client key opts) = []" "lk_key (NewLock client key opts) = key" by (simp_all add: NewLock_def)
qed

lemma drop_dog_linv: "linv r tok (drop_dog d s) = linv r tok s"
  by (simp add: linv_def tokens_ok_def inside_def held_def drop_dog_def)

lemma make_lock_linv:
  assumes "linv r tok s" and l: "lk_token l = []"
  shows "linv r tok (s\<lparr>ls_locks := ls_locks s @ [l], ls_until := ls_until s @ [0]\<rparr>)"
  using assms unfolding linv_def tokens_ok_def inside_def held_def by (auto simp: nth_append less_Suc_eq)

lemma pass_linv:
  assumes "linv r tok s" and "ls_now s \<le> t"
  shows "linv r tok (s\<lparr>ls_now := t\<rparr>)"
  using assms unfolding linv_def tokens_ok_def inside_def held_def by auto

definition dogs_ok :: "'s locks \<Rightarrow> bool" where
  "dogs_ok s \<longleftrightarrow> (\<forall>w \<in> set (ls_dogs s). wd_lock w < length (ls_locks s))"

lemma op_shape [simp]:
  "length (ls_locks (snd (TryLock r tok net i s))) = length (ls_locks s)"
  "length (ls_locks (snd (Unlock r net i s))) = length (ls_locks s)"
  "length (ls_locks (snd (renew r net i s))) = length (ls_locks s)"
  "ls_dogs (snd (Unlock r net i s)) = ls_dogs s"
  "ls_dogs (snd (renew r net i s)) = ls_dogs s"
  by (auto simp: TryLock_def Unlock_def renew_def startWatchdog_def stopWatchdog_def Let_def case_prod_unfold split: net.splits)

lemma TryLock_dogs:
  "w \<in> set (ls_dogs (snd (TryLock r tok net i s))) \<Longrightarrow> w \<in> set (ls_dogs s) \<or> wd_lock w = i"
  by (auto simp: TryLock_def startWatchdog_def Let_def case_prod_unfold split: net.splits if_splits)

lemma drop_dog_dogs: "dogs_ok s \<Longrightarrow> dogs_ok (drop_dog d s)"
  by (auto simp: dogs_ok_def drop_dog_def dest: in_set_takeD in_set_dropD)

lemma lstep_inv:
  assumes "lstep r tok s s'" and "redis_ok r" "inj tok" "linv r tok s" "dogs_ok s"
  shows "linv r tok s' \<and> dogs_ok s'"
  using assms
proof cases
  case make_lock
  then show ?thesis using assms by (auto simp: make_lock_linv NewLock_fields dogs_ok_def)
next
  case (try_lock i net)
  then show ?thesis using assms TryLock_linv TryLock_dogs by (fastforce simp: dogs_ok_def)
next
  case (dog d net)
  have "wd_lock (ls_dogs s ! d) < length (ls_locks s)" using dog assms by (simp add: dogs_ok_def)
  then have "linv r tok (snd (renew r net (wd_lock (ls_dogs s ! d)) s)) \<and> dogs_ok (snd (renew r net (wd_lock (ls_dogs s ! d)) s))"
    using assms renew_linv by (simp add: dogs_ok_def)
  then show ?thesis using dog assms by (simp add: dog_tick_def Let_def case_prod_unfold drop_dog_linv drop_dog_dogs)
qed (use assms Unlock_linv renew_linv in \<open>auto simp: dogs_ok_def drop_dog_linv pass_linv intro: drop_dog_dogs [unfolded dogs_ok_def, rule_format]\<close>)

lemma lreach_inv:
  assumes "lreach r tok s" "redis_ok r" "inj tok"
  shows "linv r tok s \<and> dogs_ok s"
  using assms
proof induction
  case (start store now)
  show ?case by (simp add: linv_def tokens_ok_def inside_def dogs_ok_def no_locks_def)
next
  case (step s s')
  then show ?case using lstep_inv by blast
qed

lemma inside_kept:
  assumes "linv r tok s'" "inside s i" "ls_locks s' ! i = ls_locks s ! i" "length (ls_locks s') = length (ls_locks s)"
    and "ls_until s' ! i = ls_until s ! i" "ls_now s' = ls_now s"
  shows "\<forall>t. ls_now s \<le> t \<and> t < ls_until s ! i \<longrightarrow> rd_get r t (ls_store s') (lk_key (ls_locks s ! i)) = Some (lk_token (ls_locks s ! i))"
  using assms unfolding linv_def inside_def held_def by metis

lemma others_untouched [simp]:
  assumes "i \<noteq> j"
  shows "ls_locks (snd (TryLock r tok net j s)) ! i = ls_locks s ! i" "ls_until (snd (TryLock r tok net j s)) ! i = ls_until s ! i"
    and "ls_locks (snd (Unlock r net j s)) ! i = ls_locks s ! i" "ls_until (snd (Unlock r net j s)) ! i = ls_until s ! i"
    and "ls_locks (snd (renew r net j s)) ! i = ls_locks s ! i" "ls_until (snd (renew r net j s)) ! i = ls_until s ! i"
  using assms
  by (auto simp: TryLock_def Unlock_def renew_def startWatchdog_def stopWatchdog_def Let_def case_prod_unfold split: net.splits)

lemma op_now [simp]:
  "ls_now (snd (TryLock r tok net j s)) = ls_now s" "ls_now (snd (Unlock r net j s)) = ls_now s" "ls_now (snd (renew r net j s)) = ls_now s"
  by (auto simp: TryLock_def Unlock_def renew_def Let_def case_prod_unfold split: net.splits)

text \<open>
  C17. While a lock is inside its window, a lifetime after it acquired or renewed, its key holds its token for the rest of the window; no other lock on
  the same key is inside a window, an attempt of another lock is refused, and whatever another lock does (an attempt, a release or a
  renewal, whether the command is answered, lost or answered in vain) the key keeps the token.
\<close>

theorem redis_lock_exclusive:
  assumes "lreach r tok s" "redis_ok r" "inj tok" "inside s i" "j < length (ls_locks s)" "i \<noteq> j"
    and key: "lk_key (ls_locks s ! j) = lk_key (ls_locks s ! i)"
  shows "\<not> inside s j \<and>
    fst (TryLock r tok NetOk j s) = Some (if lk_client (ls_locks s ! j) then ErrLockNotObtained else ErrClientNil) \<and>
    fst (Unlock r NetOk j s) = Some ErrLockNotHeld \<and> fst (renew r NetOk j s) = Some ErrLockNotHeld \<and>
    (\<forall>s' \<in> {s} \<union> range (\<lambda>net. snd (TryLock r tok net j s)) \<union> range (\<lambda>net. snd (Unlock r net j s)) \<union> range (\<lambda>net. snd (renew r net j s)).
       \<forall>t. ls_now s \<le> t \<and> t < ls_until s ! i \<longrightarrow>
         rd_get r t (ls_store s') (lk_key (ls_locks s ! i)) = Some (lk_token (ls_locks s ! i)))"
proof (intro conjI ballI)
  have inv: "linv r tok s" using assms(1-3) lreach_inv by blast
  note got = inside_get [OF inv assms(4)] and ne = inside_token [OF inv assms(4,6,5)]
  show "\<not> inside s j" using inside_get [OF inv, of j] got ne key by auto
  show "fst (TryLock r tok NetOk j s) = Some (if lk_client (ls_locks s ! j) then ErrLockNotObtained else ErrClientNil)"
    using got key by (simp add: TryLock_def Let_def case_prod_unfold redis_setnx [OF assms(2)])
  show "fst (Unlock r NetOk j s) = Some ErrLockNotHeld"
    using got key ne by (simp add: Unlock_def Let_def case_prod_unfold unlockScript_get [OF assms(2)])
  show "fst (renew r NetOk j s) = Some ErrLockNotHeld"
    using got key ne by (simp add: renew_def Let_def case_prod_unfold renewScript_get [OF assms(2)])
  fix s' assume "s' \<in> {s} \<union> range (\<lambda>net. snd (TryLock r tok net j s)) \<union> range (\<lambda>net. snd (Unlock r net j s)) \<union> range (\<lambda>net. snd (renew r net j s))"
  then show "\<forall>t. ls_now s \<le> t \<and> t < ls_until s ! i \<longrightarrow> rd_get r t (ls_store s') (lk_key (ls_locks s ! i)) = Some (lk_token (ls_locks s ! i))"
    using inside_kept [OF _ assms(4), of r tok s'] inv assms(6)
      TryLock_linv [OF assms(2,3) inv assms(5)] Unlock_linv [OF assms(2,3) inv assms(5)] renew_linv [OF assms(2,3) inv assms(5)] by auto
qed

text \<open>
  C38. A release by the holder inside its window succeeds and frees the key at once: the next attempt of any lock on that key acquires it and
  opens a window as long as the lifetime of that lock in whole milliseconds, at least one.
\<close>

theorem redis_lock_released:
  assumes "lreach r tok s" "redis_ok r" "inj tok" "\<forall>n. tok n \<noteq> []" "inside s i" "j < length (ls_locks s)" "lk_client (ls_locks s ! j)"
    and key: "lk_key (ls_locks s ! j) = lk_key (ls_locks s ! i)"
  shows "\<exists>s1 s2. Unlock r NetOk i s = (None, s1) \<and> \<not> inside s1 i \<and> TryLock r tok NetOk j s1 = (None, s2) \<and> inside s2 j \<and>
    ls_until s2 ! j = ls_now s + px (lk_ttl (ls_locks s ! j))"
proof -
  have inv: "linv r tok s" using assms(1-3) lreach_inv by blast
  note got = inside_get [OF inv assms(5)]
  have i: "lk_token (ls_locks s ! i) \<noteq> []" "i < length (ls_locks s)" using assms(5) by (simp_all add: inside_def)
  define s1 where "s1 = snd (Unlock r NetOk i s)"
  have u: "Unlock r NetOk i s = (None, s1)"
    using got i by (simp add: s1_def Unlock_def Let_def case_prod_unfold unlockScript_get [OF assms(2)])
  have st: "ls_store s1 = snd (unlockScript r (ls_now s) (lk_key (ls_locks s ! i)) (lk_token (ls_locks s ! i)) (ls_store s))"
    and now: "ls_now s1 = ls_now s" and len: "length (ls_until s1) = length (ls_locks s1)" "length (ls_locks s1) = length (ls_locks s)"
    using i inv by (simp_all add: s1_def Unlock_def Let_def case_prod_unfold linv_def stopWatchdog_def)
  have none: "rd_get r (ls_now s1) (ls_store s1) (lk_key (ls_locks s ! i)) = None"
    using got by (simp add: st now unlockScript_get [OF assms(2)])
  have jl: "lk_client (ls_locks s1 ! j) = lk_client (ls_locks s ! j)" "lk_key (ls_locks s1 ! j) = lk_key (ls_locks s ! j)"
    "lk_ttl (ls_locks s1 ! j) = lk_ttl (ls_locks s ! j)" "lk_token (ls_locks s1 ! i) = []"
    using i assms(6) by (cases "i = j"; simp add: s1_def Unlock_def Let_def case_prod_unfold stopWatchdog_def)+
  have won: "fst (rd_setnx r (ls_now s1) (lk_key (ls_locks s1 ! j)) (tok (ls_tokens s1)) (lk_ttl (ls_locks s1 ! j)) (ls_store s1))"
    using none key jl by (simp add: redis_setnx [OF assms(2)])
  define s2 where "s2 = snd (TryLock r tok NetOk j s1)"
  have t: "TryLock r tok NetOk j s1 = (None, s2)" using TryLock_won [where r = r and tok = tok and s = s1 and j = j] won jl assms(7) by (simp add: s2_def)
  have eq: "s2 = (if lk_autoRenew (ls_locks s1 ! j) then startWatchdog j (won r (tok (ls_tokens s1)) j s1) else won r (tok (ls_tokens s1)) j s1)"
    using TryLock_won [where r = r and tok = tok and s = s1 and j = j] won jl assms(7) by (simp add: s2_def)
  have until: "ls_until s2 ! j = ls_now s + px (lk_ttl (ls_locks s ! j))" "ls_now s2 = ls_now s"
    using assms(6) len jl now by (simp_all add: eq)
  have "lk_token (ls_locks s2 ! j) = tok (ls_tokens s1)" "length (ls_locks s2) = length (ls_locks s)"
    using watchdog_locks(1) [of j "won r (tok (ls_tokens s1)) j s1"] assms(6) len by (auto simp: eq)
  moreover have "px (lk_ttl (ls_locks s ! j)) > 0" by (simp add: px_def)
  ultimately have "inside s2 j" using until assms(4,6) by (simp add: inside_def)
  moreover have "\<not> inside s1 i" using jl by (simp add: inside_def)
  ultimately show ?thesis using u t until by blast
qed

section \<open>A server in memory\<close>

definition mem_get :: "int \<Rightarrow> (string \<Rightarrow> (string \<times> int) option) \<Rightarrow> string \<Rightarrow> string option" where
  "mem_get now s k = (case s k of None \<Rightarrow> None | Some (v, e) \<Rightarrow> if now < e then Some v else None)"

definition mem_redis :: "(string \<Rightarrow> (string \<times> int) option) redis" where
  "mem_redis = \<lparr>rd_get = mem_get,
     rd_setnx = (\<lambda>now k v ttl s. if mem_get now s k = None then (True, s(k := Some (v, now + px ttl))) else (False, s)),
     rd_del = (\<lambda>now k s. (if mem_get now s k = None then 0 else 1, s(k := None))),
     rd_pexpire = (\<lambda>now k ms s. case mem_get now s k of None \<Rightarrow> (0, s) | Some v \<Rightarrow> (1, s(k := Some (v, now + ms * 1000000))))\<rparr>"

lemma mem_redis_ok: "redis_ok mem_redis"
  unfolding redis_ok_def mem_redis_def by (auto simp: mem_get_def split: option.splits if_splits)

definition mem_tok :: "nat \<Rightarrow> string" where
  "mem_tok n = replicate (Suc n) CHR ''x''"

lemma mem_tok_ok: "inj mem_tok" "\<forall>n. mem_tok n \<noteq> []"
  by (auto simp: inj_def mem_tok_def dest: arg_cong [where f = length])

text \<open>Two locks on one key; the first acquires it.\<close>

definition two_locks :: "lock_option list \<Rightarrow> (string \<Rightarrow> (string \<times> int) option) locks" where
  "two_locks opts = snd (TryLock mem_redis mem_tok NetOk 0
     ((no_locks Map.empty 0)\<lparr>ls_locks := [NewLock True ''k'' opts, NewLock True ''k'' []], ls_until := [0, 0]\<rparr>))"

lemma two_locks_reach: "lreach mem_redis mem_tok (two_locks opts)"
proof -
  let ?a = "no_locks Map.empty 0 :: (string \<Rightarrow> (string \<times> int) option) locks"
  let ?b = "?a\<lparr>ls_locks := ls_locks ?a @ [NewLock True ''k'' opts], ls_until := ls_until ?a @ [0]\<rparr>"
  let ?c = "?b\<lparr>ls_locks := ls_locks ?b @ [NewLock True ''k'' []], ls_until := ls_until ?b @ [0]\<rparr>"
  have "lreach mem_redis mem_tok ?c"
    by (rule lreach.step [OF lreach.step [OF lreach.start make_lock] make_lock])
  then have "lreach mem_redis mem_tok (snd (TryLock mem_redis mem_tok NetOk 0 ?c))"
    by (rule lreach.step) (rule try_lock, simp)
  then show ?thesis by (simp add: two_locks_def no_locks_def)
qed

lemmas lock_eval = two_locks_def TryLock_def mem_redis_def mem_get_def no_locks_def NewLock_def apply_option_def Let_def px_def mem_tok_def
  inside_def upd_lock_def startWatchdog_def

theorem redis_lock_exclusive_witness:
  "\<not> inside (two_locks []) 1 \<and> fst (TryLock mem_redis mem_tok NetOk 1 (two_locks [])) = Some ErrLockNotObtained"
  using redis_lock_exclusive [OF two_locks_reach [of "[]"] mem_redis_ok mem_tok_ok(1), where i = 0 and j = 1]
  by (simp add: lock_eval)

theorem redis_lock_released_witness:
  "\<exists>s1 s2. Unlock mem_redis NetOk 0 (two_locks []) = (None, s1) \<and> TryLock mem_redis mem_tok NetOk 1 s1 = (None, s2) \<and> inside s2 1"
  using redis_lock_released [OF two_locks_reach [of "[]"] mem_redis_ok mem_tok_ok, where i = 0 and j = 1]
  by (fastforce simp: lock_eval)

section \<open>The watchdog after its end\<close>

text \<open>A watchdog that ended by itself leaves \<open>watching\<close> set, so the lock starts no other one when it is acquired again.\<close>

lemma watching_starts_none: "lk_watching (ls_locks s ! i) \<Longrightarrow> startWatchdog i s = s"
  by (simp add: startWatchdog_def Let_def)

lemma redis_watchdog_lost:
  "\<exists>s. lreach mem_redis mem_tok s \<and> lk_autoRenew (ls_locks s ! 0) \<and> inside s 0 \<and> ls_dogs s = []"
proof -
  let ?a = "two_locks [WithAutoRenew]"
  let ?b = "drop_dog 0 ?a"
  let ?c = "?b\<lparr>ls_now := 40000000000\<rparr>"
  let ?d = "snd (TryLock mem_redis mem_tok NetOk 0 ?c)"
  have "lreach mem_redis mem_tok ?b"
    by (rule lreach.step [OF two_locks_reach dog_ctx]) (simp add: lock_eval)
  then have "lreach mem_redis mem_tok ?c"
    by (rule lreach.step) (rule pass, simp add: lock_eval drop_dog_def)
  then have "lreach mem_redis mem_tok ?d"
    by (rule lreach.step) (rule try_lock, simp add: lock_eval drop_dog_def)
  moreover have "lk_autoRenew (ls_locks ?d ! 0) \<and> inside ?d 0 \<and> ls_dogs ?d = []"
    by (simp add: lock_eval drop_dog_def)
  ultimately show ?thesis by blast
qed

end
